(* ===== verification/Rust_Prelude.thy ===== *)
theory Rust_Prelude
  imports Main "HOL-Library.AList" "HOL-Library.Word"
begin

text \<open>
  The vocabulary every component shares: the outcome of a Rust function that may return
  an error or panic, the operations of \<open>Vec\<close>, slices and \<open>HashMap\<close> the source uses, and
  generic lemmas on lists and halving. Nothing here is specific to one component.

  \<^item> \<open>'a res\<close> is the outcome of a Rust call: \<open>Ok\<close> a value, \<open>Err\<close> an \<^verbatim>\<open>anyhow\<close> error that the
    caller sees, \<open>Panic\<close> an aborted call (failed \<^verbatim>\<open>assert!\<close>, index out of range, \<^verbatim>\<open>unwrap\<close>
    of \<^verbatim>\<open>None\<close>). The strings name the failing check and are never inspected.
  \<^item> \<open>('k, 'v) hmap\<close> is a \<^verbatim>\<open>HashMap\<close>: an association list, so that its domain is finite and
    loops over its keys terminate.
  \<^item> Sizes and indices (\<^verbatim>\<open>usize\<close>, \<^verbatim>\<open>u64\<close> used as a position) are \<open>nat\<close>; where the source's
    width matters the component uses a word or writes the bound out.
\<close>

named_theorems rust_simps
named_theorems merkle_simps
named_theorems layout_simps

subsection \<open>Outcomes\<close>

datatype 'a res = Ok 'a | Err string | Panic string

fun rbind :: "'a res \<Rightarrow> ('a \<Rightarrow> 'b res) \<Rightarrow> 'b res" where
  "rbind (Ok x) f = f x"
| "rbind (Err e) f = Err e"
| "rbind (Panic p) f = Panic p"

fun is_Ok :: "'a res \<Rightarrow> bool" where
  "is_Ok (Ok _) = True"
| "is_Ok _ = False"

fun is_Panic :: "'a res \<Rightarrow> bool" where
  "is_Panic (Panic _) = True"
| "is_Panic _ = False"

text \<open>\<open>assert!(b)\<close> and \<open>ensure!(b)\<close>: continue, or stop with a panic or an error.\<close>

definition assert_that :: "bool \<Rightarrow> string \<Rightarrow> unit res" where
  "assert_that b p = (if b then Ok () else Panic p)"

definition ensure_that :: "bool \<Rightarrow> string \<Rightarrow> unit res" where
  "ensure_that b e = (if b then Ok () else Err e)"

lemma rbind_eq_Ok [simp]: "rbind m f = Ok y \<longleftrightarrow> (\<exists>x. m = Ok x \<and> f x = Ok y)"
  by (cases m) auto

lemma is_Ok_iff: "is_Ok r \<longleftrightarrow> (\<exists>x. r = Ok x)"
  by (cases r) auto

lemma is_Ok_rbind [simp]: "is_Ok (rbind m f) \<longleftrightarrow> (\<exists>x. m = Ok x \<and> is_Ok (f x))"
  by (cases m) auto

lemma rbind_assoc: "rbind (rbind m f) g = rbind m (\<lambda>x. rbind (f x) g)"
  by (cases m) auto

lemma is_Panic_rbind:
  "is_Panic (rbind m f) \<longleftrightarrow> is_Panic m \<or> (\<exists>x. m = Ok x \<and> is_Panic (f x))"
  by (cases m) auto

lemma rbind_cong [fundef_cong]:
  "\<lbrakk>m = m'; \<And>x. m' = Ok x \<Longrightarrow> f x = f' x\<rbrakk> \<Longrightarrow> rbind m f = rbind m' f'"
  by (cases m') auto

lemma assert_that_eq_Ok [simp]: "assert_that b p = Ok u \<longleftrightarrow> b"
  by (simp add: assert_that_def)

lemma ensure_that_eq_Ok [simp]: "ensure_that b e = Ok u \<longleftrightarrow> b"
  by (simp add: ensure_that_def)

lemma assert_that_True [simp]: "assert_that True p = Ok ()"
  by (simp add: assert_that_def)

lemma ensure_that_True [simp]: "ensure_that True e = Ok ()"
  by (simp add: ensure_that_def)

lemma is_Panic_ensure_that [simp]: "\<not> is_Panic (ensure_that b e)"
  by (simp add: ensure_that_def)

subsection \<open>Vectors and slices\<close>

text \<open>\<open>v[i]\<close> panics out of range, \<open>v.get(i)\<close> answers \<open>None\<close>; \<open>&v[a..b]\<close> panics unless
  \<open>a \<le> b \<le> v.len()\<close>, \<open>v.get(a..b)\<close> answers \<open>None\<close> there.\<close>

definition vec_index :: "'a list \<Rightarrow> nat \<Rightarrow> 'a res" where
  "vec_index xs i = (if i < length xs then Ok (xs ! i) else Panic ''index out of bounds'')"

definition vec_get :: "'a list \<Rightarrow> nat \<Rightarrow> 'a option" where
  "vec_get xs i = (if i < length xs then Some (xs ! i) else None)"

definition slice :: "'a list \<Rightarrow> nat \<Rightarrow> nat \<Rightarrow> 'a list" where
  "slice xs a b = take (b - a) (drop a xs)"

definition slice_index :: "'a list \<Rightarrow> nat \<Rightarrow> nat \<Rightarrow> 'a list res" where
  "slice_index xs a b =
     (if a \<le> b \<and> b \<le> length xs then Ok (slice xs a b) else Panic ''slice out of range'')"

definition slice_get :: "'a list \<Rightarrow> nat \<Rightarrow> nat \<Rightarrow> 'a list option" where
  "slice_get xs a b = (if a \<le> b \<and> b \<le> length xs then Some (slice xs a b) else None)"

text \<open>Overwriting the slice \<open>v[a..a+len ys]\<close>, as \<open>copy_from_slice\<close> through \<open>get_mut\<close> does.\<close>

definition overwrite :: "'a list \<Rightarrow> nat \<Rightarrow> 'a list \<Rightarrow> 'a list" where
  "overwrite xs a ys = take a xs @ ys @ drop (a + length ys) xs"

lemma length_slice [simp]: "length (slice xs a b) = min (length xs - a) (b - a)"
  by (simp add: slice_def)

lemma nth_slice: "i < b - a \<Longrightarrow> a + i < length xs \<Longrightarrow> slice xs a b ! i = xs ! (a + i)"
  by (simp add: slice_def)

lemma slice_full [simp]: "slice xs 0 (length xs) = xs"
  by (simp add: slice_def)

lemma slice_append_left: "b \<le> length xs \<Longrightarrow> slice (xs @ ys) a b = slice xs a b"
  by (simp add: slice_def)

lemma slice_slice:
  "a + d \<le> b \<Longrightarrow> b \<le> length xs \<Longrightarrow> slice (slice xs a b) c d = slice xs (a + c) (a + d)"
  by (auto simp: slice_def drop_take min_def add.commute)

lemma length_overwrite [simp]:
  "a + length ys \<le> length xs \<Longrightarrow> length (overwrite xs a ys) = length xs"
  by (simp add: overwrite_def)

lemma nth_overwrite:
  "a + length ys \<le> length xs \<Longrightarrow> i < length xs \<Longrightarrow>
     overwrite xs a ys ! i = (if a \<le> i \<and> i < a + length ys then ys ! (i - a) else xs ! i)"
  by (auto simp: overwrite_def nth_append min_def)

text \<open>\<open>chunks(n)\<close> of a slice: pieces of \<open>n\<close> elements, the last one possibly shorter.\<close>

function chunks :: "nat \<Rightarrow> 'a list \<Rightarrow> 'a list list" where
  "chunks n xs = (if n = 0 \<or> xs = [] then [] else take n xs # chunks n (drop n xs))"
  by pat_completeness auto
termination
  by (relation "measure (\<lambda>(n, xs). length xs)") auto

declare chunks.simps [simp del]

lemma chunks_Nil [simp]: "chunks n [] = []"
  by (simp add: chunks.simps)

lemma chunks_rec: "0 < n \<Longrightarrow> xs \<noteq> [] \<Longrightarrow> chunks n xs = take n xs # chunks n (drop n xs)"
  by (subst chunks.simps) simp

lemma chunks_append: "0 < n \<Longrightarrow> length w = n \<Longrightarrow> chunks n (w @ xs) = w # chunks n xs"
  by (subst chunks_rec) auto

lemma concat_chunks [simp]: "0 < n \<Longrightarrow> concat (chunks n xs) = xs"
proof (induction n xs rule: chunks.induct)
  case (1 n xs)
  show ?case
  proof (cases "xs = []")
    case False
    with 1 have "concat (chunks n (drop n xs)) = drop n xs" by simp
    with 1 False show ?thesis by (subst chunks_rec) simp_all
  qed simp
qed

lemma chunks_exact_length:
  "0 < n \<Longrightarrow> n dvd length xs \<Longrightarrow> w \<in> set (chunks n xs) \<Longrightarrow> length w = n"
proof (induction n xs rule: chunks.induct)
  case (1 n xs)
  then have ne: "xs \<noteq> []" by auto
  with 1 have le: "n \<le> length xs" by (simp add: dvd_imp_le)
  with 1(3) have dvd: "n dvd length (drop n xs)" by (simp add: dvd_minus_self)
  from 1(2,4) ne consider "w = take n xs" | "w \<in> set (chunks n (drop n xs))"
    by (subst (asm) chunks_rec) auto
  then show ?case
  proof cases
    case 1
    with le show ?thesis by simp
  next
    case 2
    with "1.IH" "1.prems"(1) ne dvd show ?thesis by blast
  qed
qed

lemma drop_chunks: "0 < n \<Longrightarrow> drop i (chunks n xs) = chunks n (drop (n * i) xs)"
proof (induction i arbitrary: xs)
  case (Suc i)
  show ?case
  proof (cases "xs = []")
    case False
    with Suc show ?thesis by (subst chunks_rec) (simp_all add: add.commute)
  qed simp
qed simp

lemma take_chunks: "0 < n \<Longrightarrow> take i (chunks n xs) = chunks n (take (n * i) xs)"
proof (induction i arbitrary: xs)
  case (Suc i)
  show ?case
  proof (cases "xs = []")
    case False
    have ne: "take (n * Suc i) xs \<noteq> []" using False Suc.prems by simp
    have t: "take n (take (n * Suc i) xs) = take n xs" by simp
    have d: "drop n (take (n * Suc i) xs) = take (n * i) (drop n xs)" by (simp add: drop_take)
    have "chunks n (take (n * Suc i) xs) = take n xs # chunks n (take (n * i) (drop n xs))"
      by (subst chunks_rec [OF Suc.prems ne]) (simp only: t d)
    moreover have "chunks n xs = take n xs # chunks n (drop n xs)" by (rule chunks_rec [OF Suc.prems False])
    ultimately show ?thesis using Suc by simp
  qed simp
qed simp

lemma length_chunks: "0 < n \<Longrightarrow> n dvd length xs \<Longrightarrow> length (chunks n xs) = length xs div n"
proof (induction n xs rule: chunks.induct)
  case (1 n xs)
  show ?case
  proof (cases "xs = []")
    case False
    with 1 have le: "n \<le> length xs" by (simp add: dvd_imp_le)
    with 1 have "n dvd length (drop n xs)" by (simp add: dvd_minus_self)
    with 1 False have "length (chunks n (drop n xs)) = (length xs - n) div n" by simp
    with False 1(2) le show ?thesis
      by (subst chunks_rec [OF 1(2) False]) (simp add: le_div_geq)
  qed simp
qed

lemma nth_chunks:
  assumes "0 < n" and "i < length (chunks n xs)"
  shows "chunks n xs ! i = take n (drop (n * i) xs)"
proof -
  have "chunks n xs ! i = hd (chunks n (drop (n * i) xs))"
    using assms by (metis drop_chunks hd_drop_conv_nth)
  moreover have "chunks n (drop (n * i) xs) \<noteq> []" using assms by (simp flip: drop_chunks)
  then have "drop (n * i) xs \<noteq> []" by (metis chunks_Nil)
  then have "chunks n (drop (n * i) xs) = take n (drop (n * i) xs) # chunks n (drop n (drop (n * i) xs))"
    by (rule chunks_rec [OF assms(1)])
  ultimately show ?thesis by simp
qed

lemma concat_drop_exact: "\<forall>w \<in> set ws. length w = n \<Longrightarrow> concat (drop i ws) = drop (n * i) (concat ws)"
proof (induction i arbitrary: ws)
  case (Suc i)
  then show ?case by (cases ws) auto
qed simp

lemma concat_take_exact: "\<forall>w \<in> set ws. length w = n \<Longrightarrow> concat (take i ws) = take (n * i) (concat ws)"
proof (induction i arbitrary: ws)
  case (Suc i)
  then show ?case by (cases ws) auto
qed simp

subsection \<open>Hash maps\<close>

type_synonym ('k, 'v) hmap = "('k \<times> 'v) list"

abbreviation hm_get :: "('k, 'v) hmap \<Rightarrow> 'k \<Rightarrow> 'v option" where
  "hm_get m k \<equiv> map_of m k"

abbreviation hm_insert :: "'k \<Rightarrow> 'v \<Rightarrow> ('k, 'v) hmap \<Rightarrow> ('k, 'v) hmap" where
  "hm_insert k v m \<equiv> AList.update k v m"

abbreviation hm_remove :: "'k \<Rightarrow> ('k, 'v) hmap \<Rightarrow> ('k, 'v) hmap" where
  "hm_remove k m \<equiv> AList.delete k m"

abbreviation hm_wf :: "('k, 'v) hmap \<Rightarrow> bool" where
  "hm_wf m \<equiv> distinct (map fst m)"

lemma hm_get_insert [simp]: "hm_get (hm_insert k v m) k' = (if k' = k then Some v else hm_get m k')"
  by (simp add: update_conv')

lemma hm_get_remove [simp]: "hm_get (hm_remove k m) k' = (if k' = k then None else hm_get m k')"
  by (simp add: delete_conv')

lemma hm_remove_length: "hm_get m k \<noteq> None \<Longrightarrow> length (hm_remove k m) < length m"
  by (induction m) (auto simp: AList.delete_eq less_Suc_eq_le split: if_splits)

lemma hm_remove_length_le: "length (hm_remove k m) \<le> length m"
  by (simp add: AList.delete_eq)

subsection \<open>Halving\<close>

lemma ceil_half: "(n + 1) div 2 = n - n div 2" for n :: nat
  by presburger

lemma div2_less: "0 < n \<Longrightarrow> n div 2 < n" for n :: nat
  by simp

lemma div_pow_Suc: "n div 2 ^ Suc k = (n div 2 ^ k) div 2" for n :: nat
  by (metis div_mult2_eq power_Suc2)

lemma div_pow_Suc': "n div 2 ^ Suc k = (n div 2) div 2 ^ k" for n :: nat
  by (metis div_mult2_eq power_Suc)

lemma div_pow_diff: "k \<le> m \<Longrightarrow> n div 2 ^ k div 2 ^ (m - k) = n div 2 ^ m" for n :: nat
  by (metis div_mult2_eq le_add_diff_inverse power_add)

lemma complete_iff: "(a + 1) * 2 ^ m \<le> n \<longleftrightarrow> a < n div 2 ^ m" for n :: nat
  by (simp add: less_eq_div_iff_mult_less_eq Suc_le_eq [symmetric])

lemma less_next_multiple: "n < (n div 2 ^ m + 1) * 2 ^ m" for n :: nat
  using dividend_less_times_div [of "2 ^ m" n] by (simp add: algebra_simps)

text \<open>Rounding down and up to a multiple of \<open>n\<close>.\<close>

lemma div_le_iff: "0 < n \<Longrightarrow> a div n \<le> x \<longleftrightarrow> a < (x + 1) * n" for n :: nat
  by (simp add: less_Suc_eq_le [symmetric] div_less_iff_less_mult)

lemma less_div_iff: "0 < n \<Longrightarrow> x < a div n \<longleftrightarrow> (x + 1) * n \<le> a" for n :: nat
  by (simp add: Suc_le_eq [symmetric] less_eq_div_iff_mult_less_eq)

lemma ceil_div_le_iff: "0 < n \<Longrightarrow> (a + n - 1) div n \<le> x \<longleftrightarrow> a \<le> x * n" for n :: nat
  by (subst div_le_iff) auto

lemma less_ceil_div_iff: "0 < n \<Longrightarrow> x < (a + n - 1) div n \<longleftrightarrow> x * n < a" for n :: nat
  by (subst less_div_iff) auto

end
