(* ===== verification/Merkle_Hash.thy ===== *)
theory Merkle_Hash
  imports Rust_Prelude
begin

text \<open>
  The hash interface of the append-only Merkle tree (\<^verbatim>\<open>common/append_merkle/src/merkle_tree.rs\<close>
  and \<^verbatim>\<open>sha3.rs\<close>) and the reference tree.

  \<^item> \<open>'e algo\<close> is the pair of traits \<^verbatim>\<open>HashElement\<close> and \<^verbatim>\<open>Algorithm\<close> as a dictionary; the
    instance of the node is \<open>sha3_algo keccak\<close>, with the external Keccak-256 as a parameter.
  \<^item> \<open>layer_at A h xs k\<close> is the reference: the \<open>k\<close>-th layer above the leaves \<open>xs\<close> when every
    leaf is known, with \<open>h\<close> the height of the leaves. The operations of
    \<open>Append_Merkle\<close> are proved to maintain exactly these layers.
  \<^item> \<open>tree_depth d n\<close> is the number of layers of a tree with \<open>n\<close> leaves and at least \<open>d\<close> layers.
\<close>

subsection \<open>The hash interface\<close>

type_synonym byte = "8 word"
type_synonym h256 = "byte list"

record 'e algo =
  a_null :: 'e
  a_end_pad :: "nat \<Rightarrow> 'e"
  a_parent :: "'e \<Rightarrow> 'e \<Rightarrow> 'e"
  a_leaf :: "byte list \<Rightarrow> 'e"

definition parent_single :: "'e algo \<Rightarrow> 'e \<Rightarrow> nat \<Rightarrow> 'e" where
  "parent_single A r height = a_parent A r (a_end_pad A height)"

text \<open>
  The instance for \<^verbatim>\<open>H256\<close>. The source tabulates the padding hashes in an array of 64
  entries; \<open>zero_hash\<close> is the recurrence that fills it, and a tree with more than 64 layers
  would hold more than \<open>2 ^ 63\<close> leaves.
\<close>

definition h256_zero :: h256 where
  "h256_zero = replicate 32 0"

definition h256_null :: h256 where
  "h256_null = replicate 32 1"

fun zero_hash :: "(byte list \<Rightarrow> h256) \<Rightarrow> nat \<Rightarrow> h256" where
  "zero_hash keccak 0 = keccak (replicate 256 0)"
| "zero_hash keccak (Suc i) = keccak (zero_hash keccak i @ zero_hash keccak i)"

definition sha3_algo :: "(byte list \<Rightarrow> h256) \<Rightarrow> h256 algo" where
  "sha3_algo keccak =
     \<lparr>a_null = h256_null,
      a_end_pad = zero_hash keccak,
      a_parent = (\<lambda>l r. keccak (l @ r)),
      a_leaf = keccak\<rparr>"

text \<open>
  What the code relies on of the hash: the digest of two nodes is never the marker
  \<^verbatim>\<open>null\<close> that stands for an unknown node.
\<close>

definition null_free :: "'e algo \<Rightarrow> bool" where
  "null_free A \<longleftrightarrow> (\<forall>l r. a_parent A l r \<noteq> a_null A)"

text \<open>Collision resistance, idealised: a digest determines the two nodes it was made of.\<close>

definition collision_free :: "'e algo \<Rightarrow> bool" where
  "collision_free A \<longleftrightarrow>
     (\<forall>l r l' r'. a_parent A l r = a_parent A l' r' \<longrightarrow> l = l' \<and> r = r')"

lemma null_freeD [simp]:
  "null_free A \<Longrightarrow> a_parent A l r \<noteq> a_null A"
  "null_free A \<Longrightarrow> a_null A \<noteq> a_parent A l r"
  by (simp_all add: null_free_def eq_commute)

lemma null_free_single [simp]:
  "null_free A \<Longrightarrow> parent_single A r h \<noteq> a_null A"
  "null_free A \<Longrightarrow> a_null A \<noteq> parent_single A r h"
  by (simp_all add: parent_single_def)

subsection \<open>The reference layers\<close>

fun pair_up :: "'e algo \<Rightarrow> nat \<Rightarrow> 'e list \<Rightarrow> 'e list" where
  "pair_up A h [] = []"
| "pair_up A h [r] = [parent_single A r h]"
| "pair_up A h (l # r # xs) = a_parent A l r # pair_up A h xs"

primrec layer_at :: "'e algo \<Rightarrow> nat \<Rightarrow> 'e list \<Rightarrow> nat \<Rightarrow> 'e list" where
  "layer_at A h xs 0 = xs"
| "layer_at A h xs (Suc k) = pair_up A (k + h) (layer_at A h xs k)"

primrec layer_size :: "nat \<Rightarrow> nat \<Rightarrow> nat" where
  "layer_size n 0 = n"
| "layer_size n (Suc k) = (layer_size n k + 1) div 2"

function tree_depth :: "nat \<Rightarrow> nat \<Rightarrow> nat" where
  "tree_depth d n = (if n \<le> 1 \<and> d \<le> 1 then 1 else Suc (tree_depth (d - 1) ((n + 1) div 2)))"
  by pat_completeness auto
termination
  by (relation "measure (\<lambda>(d, n). d + n)") auto

declare tree_depth.simps [simp del]

definition canon :: "'e algo \<Rightarrow> nat \<Rightarrow> nat \<Rightarrow> 'e list \<Rightarrow> 'e list list" where
  "canon A h d xs = map (layer_at A h xs) [0..<tree_depth d (length xs)]"

lemma length_pair_up [simp]: "length (pair_up A h xs) = (length xs + 1) div 2"
  by (induction A h xs rule: pair_up.induct) auto

lemma nth_pair_up:
  "i < (length xs + 1) div 2 \<Longrightarrow>
     pair_up A h xs ! i =
       (if 2 * i + 1 < length xs then a_parent A (xs ! (2 * i)) (xs ! (2 * i + 1))
        else parent_single A (xs ! (2 * i)) h)"
proof (induction A h xs arbitrary: i rule: pair_up.induct)
  case (3 A h l r xs)
  then show ?case by (cases i) auto
qed auto

lemma pair_up_not_null: "null_free A \<Longrightarrow> x \<in> set (pair_up A h xs) \<Longrightarrow> x \<noteq> a_null A"
  by (induction A h xs rule: pair_up.induct) auto

lemma length_layer_at [simp]: "length (layer_at A h xs k) = layer_size (length xs) k"
  by (induction k) auto

lemma layer_size_ge: "n div 2 ^ k \<le> layer_size n k"
proof (induction k)
  case (Suc k)
  have "n div 2 ^ Suc k = (n div 2 ^ k) div 2" by (rule div_pow_Suc)
  also have "\<dots> \<le> (layer_size n k + 1) div 2" using Suc by (intro div_le_mono) simp
  finally show ?case by simp
qed simp

lemma layer_size_le: "layer_size n k \<le> n div 2 ^ k + 1"
proof (induction k)
  case (Suc k)
  have "(layer_size n k + 1) div 2 \<le> (n div 2 ^ k + 1 + 1) div 2"
    using Suc by (intro div_le_mono) simp
  also have "\<dots> = n div 2 ^ Suc k + 1" by (simp add: div_pow_Suc del: power_Suc)
  finally show ?case by simp
qed simp

lemma layer_size_mono: "m \<le> n \<Longrightarrow> layer_size m k \<le> layer_size n k"
  by (induction k) (auto intro: div_le_mono)

lemma layer_size_0 [simp]: "layer_size 0 k = 0"
  by (induction k) auto

lemma layer_size_pos [simp]: "0 < layer_size n k \<longleftrightarrow> 0 < n"
  by (induction k) auto

lemma layer_size_Suc_le: "layer_size n (Suc k) \<le> layer_size n k"
  by (cases "layer_size n k") auto

lemma layer_size_add: "layer_size n (j + k) = layer_size (layer_size n j) k"
  by (induction k) auto

lemma layer_size_antimono: "j \<le> k \<Longrightarrow> layer_size n k \<le> layer_size n j"
  by (induction rule: dec_induct) (auto intro: order_trans [OF layer_size_Suc_le, simplified])

lemma layer_size_bound: "i < layer_size n k \<longleftrightarrow> i * 2 ^ k < n"
proof (induction k arbitrary: i)
  case (Suc k)
  have "i < layer_size n (Suc k) \<longleftrightarrow> 2 * i < layer_size n k" by auto
  also have "\<dots> \<longleftrightarrow> 2 * i * 2 ^ k < n" by (rule Suc)
  also have "2 * i * 2 ^ k = i * 2 ^ Suc k" by simp
  finally show ?case .
qed simp

lemma nth_layer_at_Suc:
  assumes "i < layer_size (length xs) (Suc k)"
  shows "layer_at A h xs (Suc k) ! i =
           (if 2 * i + 1 < layer_size (length xs) k
            then a_parent A (layer_at A h xs k ! (2 * i)) (layer_at A h xs k ! (2 * i + 1))
            else parent_single A (layer_at A h xs k ! (2 * i)) (k + h))"
  using assms by (simp add: nth_pair_up)

lemma tree_depth_pos [simp]: "0 < tree_depth d n"
  by (subst tree_depth.simps) simp

lemma tree_depth_ge: "d \<le> tree_depth d n"
proof (induction d n rule: tree_depth.induct)
  case (1 d n)
  show ?case
  proof (cases "n \<le> 1 \<and> d \<le> 1")
    case True
    then show ?thesis by (subst tree_depth.simps) simp
  next
    case False
    with 1 show ?thesis by (subst tree_depth.simps) auto
  qed
qed

lemma tree_depth_more:
  "Suc k < tree_depth d n \<longleftrightarrow> 1 < layer_size n k \<or> Suc k < d"
proof (induction d n arbitrary: k rule: tree_depth.induct)
  case (1 d n)
  show ?case
  proof (cases "n \<le> 1 \<and> d \<le> 1")
    case True
    moreover have "layer_size n k \<le> n"
      using layer_size_antimono [of 0 k n] by simp
    ultimately show ?thesis by (subst tree_depth.simps) auto
  next
    case False
    note unfold = tree_depth.simps [of d n]
    show ?thesis
    proof (cases k)
      case 0
      with False show ?thesis by (auto simp: unfold)
    next
      case (Suc j)
      have "layer_size n (Suc j) = layer_size ((n + 1) div 2) j"
        using layer_size_add [of n 1 j] by simp
      with False 1 [of j] Suc show ?thesis by (auto simp: unfold)
    qed
  qed
qed

lemma tree_depth_top: "layer_size n (tree_depth d n - 1) \<le> 1"
  using tree_depth_more [of "tree_depth d n - 1" d n] by (simp add: not_less)

lemma tree_depth_mono: "m \<le> n \<Longrightarrow> tree_depth d m \<le> tree_depth d n"
proof -
  assume le: "m \<le> n"
  show ?thesis
  proof (rule ccontr)
    assume "\<not> tree_depth d m \<le> tree_depth d n"
    then have lt: "tree_depth d n < tree_depth d m" by simp
    define k where "k = tree_depth d n - 1"
    have Suc_k: "Suc k = tree_depth d n" by (simp add: k_def)
    with lt have "Suc k < tree_depth d m" by simp
    then have "1 < layer_size m k \<or> Suc k < d" by (simp only: tree_depth_more)
    with layer_size_mono [OF le, of k] have "1 < layer_size n k \<or> Suc k < d" by auto
    then have "Suc k < tree_depth d n" by (simp add: tree_depth_more)
    with Suc_k show False by simp
  qed
qed

lemma length_canon [simp]: "length (canon A h d xs) = tree_depth d (length xs)"
  by (simp add: canon_def)

lemma nth_canon [simp]: "k < tree_depth d (length xs) \<Longrightarrow> canon A h d xs ! k = layer_at A h xs k"
  by (simp add: canon_def)

subsection \<open>Complete subtrees never change\<close>

lemma layer_at_append_nth:
  "i < length xs div 2 ^ k \<Longrightarrow> layer_at A h (xs @ ys) k ! i = layer_at A h xs k ! i"
proof (induction k arbitrary: i)
  case 0
  then show ?case by (simp add: nth_append)
next
  case (Suc k)
  let ?n = "length xs" and ?m = "length (xs @ ys)"
  from Suc.prems have lt: "2 * i + 1 < ?n div 2 ^ k" by (simp add: div_pow_Suc del: power_Suc)
  have n: "2 * i + 1 < layer_size ?n k" using lt layer_size_ge [of ?n k] by linarith
  have m: "2 * i + 1 < layer_size ?m k" using n layer_size_mono [of ?n ?m k] by simp
  have "i < layer_size ?n (Suc k)" "i < layer_size ?m (Suc k)" using n m by simp_all
  moreover have "layer_at A h (xs @ ys) k ! (2 * i) = layer_at A h xs k ! (2 * i)"
    and "layer_at A h (xs @ ys) k ! (2 * i + 1) = layer_at A h xs k ! (2 * i + 1)"
    using lt by (auto intro!: Suc.IH)
  ultimately show ?case using n m by (simp only: nth_layer_at_Suc if_True)
qed

lemma layer_at_not_null:
  assumes "null_free A" and "\<forall>x \<in> set xs. x \<noteq> a_null A" and "i < layer_size (length xs) k"
  shows "layer_at A h xs k ! i \<noteq> a_null A"
  using assms(3)
proof (cases k)
  case 0
  with assms show ?thesis by simp
next
  case (Suc j)
  with assms(1,3) show ?thesis by (simp only: nth_layer_at_Suc) simp
qed

end
