(* ===== verification/Append_Merkle.thy ===== *)
theory Append_Merkle
  imports Merkle_Hash
begin

text \<open>
  The append-only Merkle tree, \<^verbatim>\<open>common/append_merkle/src/lib.rs\<close>: the struct
  \<^verbatim>\<open>AppendMerkleTree\<close>, the loop \<^verbatim>\<open>recompute\<close> and every operation that changes the tree.
  The struct's \<^verbatim>\<open>layers\<close> is the list of layers with the leaves first; \<^verbatim>\<open>A::null()\<close> marks a node
  whose hash is not known yet. Operations take the hash interface \<open>A\<close> first.

  An operation that can only succeed or panic, or that returns its error before it writes
  anything, has the type \<open>\<dots> \<Rightarrow> 'e amt res\<close>: after an \<open>Err\<close> the tree is the old one.
  \<open>append_subtree_list\<close> may fail after some subtrees were appended and so returns the tree
  beside the outcome.
\<close>

subsection \<open>State\<close>

record 'e delta_nodes =
  right_most_nodes :: "(nat \<times> 'e) list"

record 'e amt =
  layers :: "'e list list"
  delta_nodes_map :: "(nat, 'e delta_nodes) hmap"
  root_to_tx_seq_map :: "('e, nat) hmap"
  min_depth :: "nat option"
  leaf_height :: nat

text \<open>The parts of \<^verbatim>\<open>MerkleTreeRead\<close> the operations below use.\<close>

definition amt_node :: "'e amt \<Rightarrow> nat \<Rightarrow> nat \<Rightarrow> 'e res" where
  "amt_node t layer index = rbind (vec_index (layers t) layer) (\<lambda>l. vec_index l index)"

definition amt_layer_len :: "'e amt \<Rightarrow> nat \<Rightarrow> nat res" where
  "amt_layer_len t h = rbind (vec_index (layers t) h) (\<lambda>l. Ok (length l))"

definition amt_leaves :: "'e amt \<Rightarrow> nat res" where
  "amt_leaves t = amt_layer_len t 0"

definition amt_root :: "'e amt \<Rightarrow> 'e res" where
  "amt_root t =
     (if layers t = [] then Panic ''attempt to subtract with overflow''
      else amt_node t (length (layers t) - 1) 0)"

subsection \<open>Recomputing the inner nodes\<close>

definition node_parent :: "'e algo \<Rightarrow> 'e \<Rightarrow> 'e \<Rightarrow> 'e" where
  "node_parent A l r = (if l = a_null A \<or> r = a_null A then a_null A else a_parent A l r)"

definition single_parent :: "'e algo \<Rightarrow> 'e \<Rightarrow> nat \<Rightarrow> 'e" where
  "single_parent A r h = (if r = a_null A then a_null A else parent_single A r h)"

text \<open>The loop over \<open>chunks_exact(2)\<close> of the changed slice, and its remainder.\<close>

fun chunk_parents :: "'e algo \<Rightarrow> nat \<Rightarrow> 'e list \<Rightarrow> 'e list" where
  "chunk_parents A h [] = []"
| "chunk_parents A h [r] = [single_parent A r h]"
| "chunk_parents A h (l # r # xs) = node_parent A l r # chunk_parents A h xs"

text \<open>
  The loop over \<open>parent_update\<close>: parent \<open>p\<close> goes to index \<open>i\<close> of the layer above. The last
  argument is \<open>last_changed_parent_index\<close>.
\<close>

fun apply_updates ::
  "'e algo \<Rightarrow> nat \<Rightarrow> 'e list \<Rightarrow> 'e list \<Rightarrow> nat option \<Rightarrow> ('e list \<times> nat option) res" where
  "apply_updates A i [] layer lc = Ok (layer, lc)"
| "apply_updates A i (p # ps) layer lc =
     (if i < length layer then
        (if p \<noteq> a_null A then
           (if layer ! i \<noteq> a_null A \<and> layer ! i \<noteq> p \<and> i \<noteq> length layer - 1
            then Panic ''Invalid append merkle tree!''
            else apply_updates A (Suc i) ps (layer[i := p]) (Some i))
         else apply_updates A (Suc i) ps layer lc)
      else if i = length layer then apply_updates A (Suc i) ps (layer @ [p]) (Some i)
      else Panic ''unreachable'')"

definition before_extend_layer :: "nat \<Rightarrow> 'e list list \<Rightarrow> 'e list list" where
  "before_extend_layer height ls = (if height = length ls then ls @ [[]] else ls)"

text \<open>One iteration of the loop of \<open>recompute\<close>: the new layers, the next \<open>start_index\<close> and
  the next \<open>maybe_end_index\<close>.\<close>

definition recompute_layer ::
  "'e algo \<Rightarrow> nat \<Rightarrow> 'e list list \<Rightarrow> nat \<Rightarrow> nat \<Rightarrow> nat option \<Rightarrow>
     ('e list list \<times> nat \<times> nat option) res" where
  "recompute_layer A lh ls height start_index maybe_end_index =
     (let layer = ls ! height;
          next_layer_start_index = start_index div 2;
          start = (if odd start_index then start_index - 1 else start_index);
          end_index = (case maybe_end_index of None \<Rightarrow> length layer | Some e \<Rightarrow> e);
          end' = (if odd end_index \<and> end_index \<noteq> length layer then end_index + 1 else end_index)
      in rbind (slice_index layer start end') (\<lambda>changed.
           let parent_update = chunk_parents A (height + lh) changed
           in if parent_update = [] then Ok (ls, next_layer_start_index, None)
              else let ls' = before_extend_layer (height + 1) ls
                   in rbind (apply_updates A next_layer_start_index parent_update
                               (ls' ! (height + 1)) None)
                        (\<lambda>(parent_layer, last_changed).
                           Ok (ls'[height + 1 := parent_layer], next_layer_start_index,
                               map_option Suc last_changed))))"

lemma length_chunk_parents [simp]: "length (chunk_parents A h xs) = (length xs + 1) div 2"
  by (induction A h xs rule: chunk_parents.induct) auto

lemma chunk_parents_Nil_iff [simp]: "chunk_parents A h xs = [] \<longleftrightarrow> xs = []"
  by (cases "(A, h, xs)" rule: chunk_parents.cases) auto

lemma apply_updates_length:
  "apply_updates A i ps layer lc = Ok (layer', lc') \<Longrightarrow>
     length layer' = max (length layer) (if ps = [] then 0 else i + length ps)"
  by (induction A i ps layer lc rule: apply_updates.induct) (auto split: if_splits)

lemma recompute_layer_Ok_cases:
  assumes "recompute_layer A lh ls h s me = Ok (ls', s', me')" and "h < length ls"
  obtains (same) "ls' = ls"
  | (wrote) "length ls' = max (length ls) (Suc (Suc h))"
      "length ls = Suc h \<Longrightarrow> length (ls' ! Suc h) \<le> (length (ls ! h) + 1) div 2"
proof -
  let ?up = "before_extend_layer (h + 1) ls"
  from assms(1) consider "ls' = ls"
    | a b ps l lc where "ps = chunk_parents A (h + lh) (slice (ls ! h) a b)"
      "apply_updates A (s div 2) ps (?up ! (h + 1)) None = Ok (l, lc)"
      "ls' = ?up[h + 1 := l]" "ps \<noteq> []"
    by (fastforce simp: recompute_layer_def Let_def slice_index_def split: if_splits)
  then show thesis
  proof cases
    case 1
    then show ?thesis by (rule same)
  next
    case 2
    show ?thesis
    proof (rule wrote)
      show "length ls' = max (length ls) (Suc (Suc h))"
        using 2(3) assms(2) by (auto simp: before_extend_layer_def)
      assume len: "length ls = Suc h"
      then have up: "?up ! (h + 1) = []" by (simp add: before_extend_layer_def nth_append)
      from 2(2,4) up have s0: "s div 2 = 0"
        by (cases ps) (auto split: if_splits)
      have "length l = length ps"
        using apply_updates_length [OF 2(2)] 2(4) s0 up by simp
      also have "\<dots> \<le> (length (ls ! h) + 1) div 2"
        unfolding 2(1) by (auto intro!: div_le_mono)
      finally show "length (ls' ! Suc h) \<le> (length (ls ! h) + 1) div 2"
        using 2(3) len by (simp add: before_extend_layer_def)
    qed
  qed
qed

text \<open>
  The loop. It stops: below the top layer the distance to the top shrinks; at the top a new
  layer is pushed only above two or more nodes, and it has at most half as many, rounded up.
\<close>

function recompute_loop ::
  "'e algo \<Rightarrow> nat \<Rightarrow> 'e list list \<Rightarrow> nat \<Rightarrow> nat \<Rightarrow> nat option \<Rightarrow> 'e list list res" where
  "recompute_loop A lh ls height start_index maybe_end_index =
     (if height < length ls then
        (if 1 < length (ls ! height) \<or> height < length ls - 1 then
           rbind (recompute_layer A lh ls height start_index maybe_end_index)
             (\<lambda>(ls', s', me'). recompute_loop A lh ls' (Suc height) s' me')
         else Ok ls)
      else Panic ''index out of bounds'')"
  by pat_completeness auto
termination
proof (relation "measures [\<lambda>(A, lh, ls, h, s, me). length ls - h,
                           \<lambda>(A, lh, ls, h, s, me). if h < length ls then length (ls ! h) else 0]",
       goal_cases)
  case 1
  then show ?case by simp
next
  case (2 A lh ls h s me x ls' y s' me')
  then have step: "recompute_layer A lh ls h s me = Ok (ls', s', me')" by simp
  show ?case
  proof (rule recompute_layer_Ok_cases [OF step 2(1)], goal_cases)
    case 1
    with 2(1) show ?thesis by auto
  next
    case wrote: 2
    show ?thesis
    proof (cases "length ls = Suc h")
      case True
      with wrote 2(2) have "length (ls' ! Suc h) < length (ls ! h)" by fastforce
      with True wrote(1) show ?thesis by simp
    next
      case False
      with 2(1) wrote(1) show ?thesis by auto
    qed
  qed
qed

declare recompute_loop.simps [simp del]

definition recompute ::
  "'e algo \<Rightarrow> 'e amt \<Rightarrow> nat \<Rightarrow> nat option \<Rightarrow> 'e amt res" where
  "recompute A t start_index maybe_end_index =
     rbind (recompute_loop A (leaf_height t) (layers t) 0 start_index maybe_end_index)
       (\<lambda>ls. Ok (t\<lparr>layers := ls\<rparr>))"

definition recompute_after_append :: "'e algo \<Rightarrow> 'e amt \<Rightarrow> nat \<Rightarrow> 'e amt res" where
  "recompute_after_append A t start_index = recompute A t start_index None"

definition recompute_after_fill_leaves :: "'e algo \<Rightarrow> 'e amt \<Rightarrow> nat \<Rightarrow> nat \<Rightarrow> 'e amt res" where
  "recompute_after_fill_leaves A t start_index end_index = recompute A t start_index (Some end_index)"

subsection \<open>Versions\<close>

definition delta_height :: "'e delta_nodes \<Rightarrow> nat" where
  "delta_height d = length (right_most_nodes d)"

definition delta_layer_len :: "'e delta_nodes \<Rightarrow> nat \<Rightarrow> nat res" where
  "delta_layer_len d height = rbind (vec_index (right_most_nodes d) height) (\<lambda>p. Ok (fst p + 1))"

definition delta_get :: "'e delta_nodes \<Rightarrow> nat \<Rightarrow> nat \<Rightarrow> 'e option res" where
  "delta_get d height position =
     (if height \<ge> length (right_most_nodes d) \<or> position > fst (right_most_nodes d ! height)
      then Err ''position out of tree range''
      else if position = fst (right_most_nodes d ! height)
      then Ok (Some (snd (right_most_nodes d ! height)))
      else Ok None)"

definition delta_root :: "'e delta_nodes \<Rightarrow> 'e res" where
  "delta_root d = (if right_most_nodes d = [] then Panic ''unwrap on None''
                   else Ok (snd (last (right_most_nodes d))))"

definition empty_delta :: "'e delta_nodes" where
  "empty_delta = \<lparr>right_most_nodes = []\<rparr>"

text \<open>The loop of \<open>commit\<close> over the layers: the index and the value of each last node.\<close>

fun collect_right_most :: "'e list list \<Rightarrow> (nat \<times> 'e) list res" where
  "collect_right_most [] = Ok []"
| "collect_right_most (l # ls) =
     (if l = [] then Panic ''attempt to subtract with overflow''
      else rbind (collect_right_most ls) (\<lambda>r. Ok ((length l - 1, last l) # r)))"

definition commit :: "'e amt \<Rightarrow> nat option \<Rightarrow> 'e amt res" where
  "commit t maybe_tx_seq =
     (case maybe_tx_seq of
        None \<Rightarrow> Ok t
      | Some tx_seq \<Rightarrow>
          rbind (amt_leaves t) (\<lambda>n.
            if n = 0
            then Ok (t\<lparr>delta_nodes_map := hm_insert tx_seq empty_delta (delta_nodes_map t)\<rparr>)
            else rbind (collect_right_most (layers t)) (\<lambda>rm.
                 rbind (amt_root t) (\<lambda>root.
                 rbind (assert_that (root = snd (last rm)) ''assertion failed'') (\<lambda>_.
                   Ok (t\<lparr>delta_nodes_map :=
                           hm_insert tx_seq \<lparr>right_most_nodes = rm\<rparr> (delta_nodes_map t),
                         root_to_tx_seq_map :=
                           hm_insert root tx_seq (root_to_tx_seq_map t)\<rparr>))))))"

text \<open>\<open>clear_after\<close> forgets the versions \<open>tx_seq + 1, tx_seq + 2, \<dots>\<close> up to the first gap.\<close>

function clear_loop ::
  "nat \<Rightarrow> (nat, 'e delta_nodes) hmap \<Rightarrow> ('e, nat) hmap \<Rightarrow> (nat, 'e delta_nodes) hmap \<times> ('e, nat) hmap"
where
  "clear_loop tx_seq deltas roots =
     (case hm_get deltas tx_seq of
        None \<Rightarrow> (deltas, roots)
      | Some nodes \<Rightarrow>
          clear_loop (tx_seq + 1) (hm_remove tx_seq deltas)
            (if delta_height nodes \<noteq> 0
             then hm_remove (snd (last (right_most_nodes nodes))) roots else roots))"
  by pat_completeness auto
termination
  by (relation "measure (\<lambda>(s, d, r). length d)") (auto intro: hm_remove_length)

declare clear_loop.simps [simp del]

definition clear_after :: "'e amt \<Rightarrow> nat \<Rightarrow> 'e amt" where
  "clear_after t tx_seq =
     (let (d, r) = clear_loop (tx_seq + 1) (delta_nodes_map t) (root_to_tx_seq_map t)
      in t\<lparr>delta_nodes_map := d, root_to_tx_seq_map := r\<rparr>)"

text \<open>The loop of \<open>revert_to\<close>: cut each layer after the saved right-most node and restore it.\<close>

fun restore_layers :: "(nat \<times> 'e) list \<Rightarrow> 'e list list \<Rightarrow> 'e list list res" where
  "restore_layers [] ls = Ok ls"
| "restore_layers (p # ps) [] = Panic ''index out of bounds''"
| "restore_layers ((last_index, node) # ps) (l # ls) =
     (if last_index < length (take (last_index + 1) l)
      then rbind (restore_layers ps ls)
             (\<lambda>r. Ok ((take (last_index + 1) l)[last_index := node] # r))
      else Panic ''index out of bounds'')"

definition revert_to :: "'e amt \<Rightarrow> nat \<Rightarrow> 'e amt res" where
  "revert_to t tx_seq =
     rbind (amt_leaves t) (\<lambda>n.
       if n = 0 then Ok t
       else case hm_get (delta_nodes_map t) tx_seq of
              None \<Rightarrow> Err ''tx_seq unavailable''
            | Some delta \<Rightarrow>
                rbind (restore_layers (right_most_nodes delta)
                         (take (length (right_most_nodes delta)) (layers t)))
                  (\<lambda>ls. Ok (clear_after (t\<lparr>layers := ls\<rparr>) tx_seq)))"

definition reset :: "'e amt \<Rightarrow> 'e amt" where
  "reset t =
     t\<lparr>layers := (case min_depth t of None \<Rightarrow> [[]] | Some depth \<Rightarrow> replicate depth [])\<rparr>"

subsection \<open>Operations on the current tree\<close>

definition set_layer :: "nat \<Rightarrow> 'e list \<Rightarrow> 'e amt \<Rightarrow> 'e amt" where
  "set_layer h l t = t\<lparr>layers := (layers t)[h := l]\<rparr>"

definition append_leaf :: "'e algo \<Rightarrow> 'e amt \<Rightarrow> 'e \<Rightarrow> 'e amt res" where
  "append_leaf A t new_leaf =
     rbind (vec_index (layers t) 0) (\<lambda>l.
       recompute_after_append A (set_layer 0 (l @ [new_leaf]) t) (length (l @ [new_leaf]) - 1))"

definition append_list :: "'e algo \<Rightarrow> 'e amt \<Rightarrow> 'e list \<Rightarrow> 'e amt res" where
  "append_list A t leaf_list =
     rbind (vec_index (layers t) 0) (\<lambda>l.
       recompute_after_append A (set_layer 0 (l @ leaf_list) t) (length l))"

text \<open>\<open>append_subtree_inner\<close>: the subtree's root goes to its layer, the nodes below it are
  unknown. Both errors are returned before the tree changes.\<close>

definition extend_null :: "'e algo \<Rightarrow> nat \<Rightarrow> nat \<Rightarrow> 'e list list \<Rightarrow> 'e list list" where
  "extend_null A subtree_depth height ls =
     (let ls' = before_extend_layer height ls
      in ls'[height := ls' ! height @ replicate (2 ^ (subtree_depth - 1 - height)) (a_null A)])"

definition append_subtree_inner :: "'e algo \<Rightarrow> 'e amt \<Rightarrow> nat \<Rightarrow> 'e \<Rightarrow> 'e amt res" where
  "append_subtree_inner A t subtree_depth subtree_root =
     (if subtree_depth = 0 then Err ''Subtree depth should not be zero!''
      else rbind (amt_leaves t) (\<lambda>n.
        if n mod 2 ^ (subtree_depth - 1) \<noteq> 0 then Err ''The current leaves count is not aligned''
        else let ls = fold (extend_null A subtree_depth) [0..<subtree_depth - 1] (layers t);
                 ls' = before_extend_layer (subtree_depth - 1) ls
             in Ok (t\<lparr>layers :=
                  ls'[subtree_depth - 1 := ls' ! (subtree_depth - 1) @ [subtree_root]]\<rparr>)))"

definition append_subtree :: "'e algo \<Rightarrow> 'e amt \<Rightarrow> nat \<Rightarrow> 'e \<Rightarrow> 'e amt res" where
  "append_subtree A t subtree_depth subtree_root =
     rbind (amt_leaves t) (\<lambda>start_index.
     rbind (append_subtree_inner A t subtree_depth subtree_root) (\<lambda>t'.
       recompute_after_append A t' start_index))"

fun append_subtrees_inner :: "'e algo \<Rightarrow> 'e amt \<Rightarrow> (nat \<times> 'e) list \<Rightarrow> 'e amt \<times> unit res" where
  "append_subtrees_inner A t [] = (t, Ok ())"
| "append_subtrees_inner A t ((d, r) # rest) =
     (case append_subtree_inner A t d r of
        Ok t' \<Rightarrow> append_subtrees_inner A t' rest
      | Err e \<Rightarrow> (t, Err e)
      | Panic p \<Rightarrow> (t, Panic p))"

definition append_subtree_list :: "'e algo \<Rightarrow> 'e amt \<Rightarrow> (nat \<times> 'e) list \<Rightarrow> 'e amt \<times> unit res" where
  "append_subtree_list A t subtree_list =
     (case amt_leaves t of
        Ok start_index \<Rightarrow>
          (case append_subtrees_inner A t subtree_list of
             (t', Ok _) \<Rightarrow>
               (case recompute_after_append A t' start_index of
                  Ok t'' \<Rightarrow> (t'', Ok ())
                | Err e \<Rightarrow> (t', Err e)
                | Panic p \<Rightarrow> (t', Panic p))
           | (t', r) \<Rightarrow> (t', r))
      | Err e \<Rightarrow> (t, Err e)
      | Panic p \<Rightarrow> (t, Panic p))"

definition update_last :: "'e algo \<Rightarrow> 'e amt \<Rightarrow> 'e \<Rightarrow> 'e amt res" where
  "update_last A t updated_leaf =
     rbind (vec_index (layers t) 0) (\<lambda>l.
       let l' = (if l = [] then [updated_leaf] else l[length l - 1 := updated_leaf])
       in recompute_after_append A (set_layer 0 l' t) (length l' - 1))"

definition fill_leaf :: "'e algo \<Rightarrow> 'e amt \<Rightarrow> nat \<Rightarrow> 'e \<Rightarrow> 'e amt res" where
  "fill_leaf A t index leaf =
     rbind (vec_index (layers t) 0) (\<lambda>l.
     rbind (vec_index l index) (\<lambda>old.
       if old = a_null A
       then recompute_after_fill_leaves A (set_layer 0 (l[index := leaf]) t) index (index + 1)
       else if old \<noteq> leaf then Panic ''Fill with invalid leaf''
       else Ok t))"

definition check_root :: "'e amt \<Rightarrow> 'e \<Rightarrow> bool" where
  "check_root t root = (hm_get (root_to_tx_seq_map t) root \<noteq> None)"

definition leaf_at :: "'e algo \<Rightarrow> 'e amt \<Rightarrow> nat \<Rightarrow> 'e option res" where
  "leaf_at A t position =
     rbind (amt_leaves t) (\<lambda>n.
       if position \<ge> n then Err ''Out of bound''
       else if layers t ! 0 ! position \<noteq> a_null A then Ok (Some (layers t ! 0 ! position))
       else Ok None)"

subsection \<open>Constructors\<close>

definition new_amt :: "'e algo \<Rightarrow> 'e list \<Rightarrow> nat \<Rightarrow> nat option \<Rightarrow> 'e amt res" where
  "new_amt A leaves lh start_tx_seq =
     (let merkle = \<lparr>layers = [leaves], delta_nodes_map = [], root_to_tx_seq_map = [],
                    min_depth = None, leaf_height = lh\<rparr>
      in if leaves = []
         then Ok (case start_tx_seq of
                    Some seq \<Rightarrow> merkle\<lparr>delta_nodes_map := hm_insert seq empty_delta []\<rparr>
                  | None \<Rightarrow> merkle)
         else rbind (recompute A merkle 0 None) (\<lambda>t. commit t start_tx_seq))"

definition new_with_subtrees ::
  "'e algo \<Rightarrow> (nat \<times> 'e) list \<Rightarrow> nat \<Rightarrow> nat option \<Rightarrow> 'e amt res" where
  "new_with_subtrees A subtree_root_list lh start_tx_seq =
     (let merkle = \<lparr>layers = [[]], delta_nodes_map = [], root_to_tx_seq_map = [],
                    min_depth = None, leaf_height = lh\<rparr>
      in if subtree_root_list = []
         then Ok (case start_tx_seq of
                    Some seq \<Rightarrow> merkle\<lparr>delta_nodes_map := hm_insert seq empty_delta []\<rparr>
                  | None \<Rightarrow> merkle)
         else case append_subtree_list A merkle subtree_root_list of
                (t, r) \<Rightarrow> rbind r (\<lambda>_. commit t start_tx_seq))"

definition new_with_depth :: "'e algo \<Rightarrow> 'e list \<Rightarrow> nat \<Rightarrow> nat option \<Rightarrow> 'e amt res" where
  "new_with_depth A leaves depth start_tx_seq =
     (if leaves = []
      then let merkle = \<lparr>layers = replicate depth [], delta_nodes_map = [],
                         root_to_tx_seq_map = [], min_depth = Some depth, leaf_height = 0\<rparr>
           in Ok (case start_tx_seq of
                    Some seq \<Rightarrow> merkle\<lparr>delta_nodes_map := hm_insert seq empty_delta []\<rparr>
                  | None \<Rightarrow> merkle)
      else if depth = 0 then Panic ''index out of bounds''
      else let merkle = \<lparr>layers = (replicate depth [])[0 := leaves], delta_nodes_map = [],
                         root_to_tx_seq_map = [], min_depth = Some depth, leaf_height = 0\<rparr>
           in rbind (recompute A merkle 0 None) (\<lambda>t. commit t start_tx_seq))"

end
