(* ===== verification/Append_Merkle_Laws.thy ===== *)
theory Append_Merkle_Laws
  imports Append_Merkle
begin

text \<open>
  Correctness of \<open>recompute\<close> and of the operations built on it.

  \<^item> \<open>knows A h xs ls\<close>: every node of the layers \<open>ls\<close> is unknown or is the node of the
    reference tree over the leaves \<open>xs\<close>, and the layers have the reference's sizes.
  \<^item> \<open>tree_inv A t xs\<close> is the invariant of the tree: \<open>knows\<close>, plus that every unknown node lies
    below a known node whose subtree is complete (so the root is always known) and that a node
    with known children is known.
  \<^item> \<open>recompute_extend\<close> and \<open>recompute_refine\<close> say what the loop does after an append and after
    a fill; the operations' lemmas rest on these two.
\<close>

subsection \<open>One layer\<close>

lemma nth_chunk_parents:
  "i < (length xs + 1) div 2 \<Longrightarrow>
     chunk_parents A h xs ! i =
       (if 2 * i + 1 < length xs then node_parent A (xs ! (2 * i)) (xs ! (2 * i + 1))
        else single_parent A (xs ! (2 * i)) h)"
proof (induction A h xs arbitrary: i rule: chunk_parents.induct)
  case (3 A h l r xs)
  then show ?case by (cases i) auto
qed auto

lemma chunk_parents_known:
  "\<forall>x \<in> set xs. x \<noteq> a_null A \<Longrightarrow> chunk_parents A h xs = pair_up A h xs"
  by (induction A h xs rule: chunk_parents.induct) (auto simp: node_parent_def single_parent_def)

lemma chunk_parents_null:
  "chunk_parents A h (replicate n (a_null A)) = replicate ((n + 1) div 2) (a_null A)"
proof (induction n rule: induct_nat_012)
  case (ge2 n)
  then show ?case by (simp add: node_parent_def)
qed (simp_all add: single_parent_def)

lemma pair_up_drop: "even s \<Longrightarrow> s \<le> length xs \<Longrightarrow> pair_up A h (drop s xs) = drop (s div 2) (pair_up A h xs)"
proof (induction A h xs arbitrary: s rule: pair_up.induct)
  case (3 A h l r xs)
  show ?case
  proof (cases "s = 0")
    case False
    with 3(2) obtain s' where s: "s = Suc (Suc s')" "even s'"
      by (metis even_Suc not0_implies_Suc even_zero)
    with 3 show ?thesis by simp
  qed simp
next
  case (2 A h r)
  then show ?case by (cases s) auto
qed auto

text \<open>Appending: the layer above ends at the first changed index or one past it.\<close>

lemma apply_updates_push:
  "apply_updates A (length layer) ps layer lc =
     Ok (layer @ ps, if ps = [] then lc else Some (length layer + length ps - 1))"
proof (induction ps arbitrary: layer lc)
  case (Cons p ps)
  from Cons [of "layer @ [p]" "Some (length layer)"] show ?case by simp
qed simp

lemma apply_updates_extend:
  assumes "ps \<noteq> []" and "\<forall>p \<in> set ps. p \<noteq> a_null A"
    and "i \<le> length layer" and "length layer \<le> i + 1"
  shows "apply_updates A i ps layer lc = Ok (take i layer @ ps, Some (i + length ps - 1))"
proof (cases "i = length layer")
  case True
  with assms(1) show ?thesis by (simp add: apply_updates_push)
next
  case False
  with assms have len: "length layer = Suc i" by simp
  obtain p qs where ps: "ps = p # qs" using assms(1) by (cases ps) auto
  have upd: "layer[i := p] = take i layer @ [p]"
    using len by (simp add: upd_conv_take_nth_drop)
  have "apply_updates A i ps layer lc = apply_updates A (length (take i layer @ [p])) qs (take i layer @ [p]) (Some i)"
    using ps assms(2) len upd by simp
  also have "\<dots> = Ok (take i layer @ ps, Some (i + length ps - 1))"
    using apply_updates_push [of A "take i layer @ [p]" qs "Some i"] ps len by (cases qs) auto
  finally show ?thesis .
qed

text \<open>Filling: every written index exists already and the new value agrees with a known old one.\<close>

lemma apply_updates_refine:
  assumes "i + length ps \<le> length layer"
    and "\<And>m. m < length ps \<Longrightarrow> ps ! m = a_null A \<or> layer ! (i + m) = a_null A \<or> layer ! (i + m) = ps ! m"
  shows "\<exists>layer' lc'. apply_updates A i ps layer lc = Ok (layer', lc') \<and> length layer' = length layer
           \<and> (\<forall>m < length layer. layer' ! m =
                (if i \<le> m \<and> m < i + length ps \<and> ps ! (m - i) \<noteq> a_null A then ps ! (m - i) else layer ! m))
           \<and> ((lc' = lc \<and> (\<forall>p \<in> set ps. p = a_null A)) \<or>
              (\<exists>m. lc' = Some m \<and> i \<le> m \<and> m < i + length ps \<and>
                   (\<forall>m'. m - i < m' \<longrightarrow> m' < length ps \<longrightarrow> ps ! m' = a_null A)))"
  using assms
proof (induction ps arbitrary: i layer lc)
  case Nil
  then show ?case by auto
next
  case (Cons p ps)
  let ?null = "a_null A"
  define L where "L = (if p \<noteq> ?null then layer[i := p] else layer)"
  define c where "c = (if p \<noteq> ?null then Some i else lc)"
  have len: "length L = length layer" by (simp add: L_def)
  have i: "i < length layer" using Cons.prems(1) by simp
  have step: "apply_updates A i (p # ps) layer lc = apply_updates A (Suc i) ps L c"
    using i Cons.prems(2) [of 0] by (auto simp: L_def c_def)
  have "\<And>m. m < length ps \<Longrightarrow> ps ! m = ?null \<or> L ! (Suc i + m) = ?null \<or> L ! (Suc i + m) = ps ! m"
    subgoal for m using Cons.prems(2) [of "Suc m"] by (simp add: L_def)
    done
  with Cons.IH [of "Suc i" L c] Cons.prems(1) len
  obtain layer' lc' where IH: "apply_updates A (Suc i) ps L c = Ok (layer', lc')"
      "length layer' = length layer"
      "\<forall>m < length layer. layer' ! m =
         (if Suc i \<le> m \<and> m < Suc i + length ps \<and> ps ! (m - Suc i) \<noteq> ?null then ps ! (m - Suc i) else L ! m)"
      "(lc' = c \<and> (\<forall>p \<in> set ps. p = ?null)) \<or>
       (\<exists>m. lc' = Some m \<and> Suc i \<le> m \<and> m < Suc i + length ps \<and>
            (\<forall>m'. m - Suc i < m' \<longrightarrow> m' < length ps \<longrightarrow> ps ! m' = ?null))"
    by fastforce
  have vals: "\<forall>m < length layer. layer' ! m =
      (if i \<le> m \<and> m < i + length (p # ps) \<and> (p # ps) ! (m - i) \<noteq> ?null then (p # ps) ! (m - i) else layer ! m)"
  proof (intro allI impI)
    fix m assume m: "m < length layer"
    consider "m < i" | "m = i" | j where "m = Suc i + j"
      by (metis less_imp_Suc_add add_Suc linorder_neqE_nat)
    then show "layer' ! m =
      (if i \<le> m \<and> m < i + length (p # ps) \<and> (p # ps) ! (m - i) \<noteq> ?null then (p # ps) ! (m - i) else layer ! m)"
      by cases (use IH(3) [rule_format, OF m] i in \<open>auto simp: L_def Suc_diff_le\<close>)
  qed
  have "(lc' = lc \<and> (\<forall>q \<in> set (p # ps). q = ?null)) \<or>
        (\<exists>m. lc' = Some m \<and> i \<le> m \<and> m < i + length (p # ps) \<and>
             (\<forall>m'. m - i < m' \<longrightarrow> m' < length (p # ps) \<longrightarrow> (p # ps) ! m' = ?null))"
    using IH(4)
  proof
    assume a: "lc' = c \<and> (\<forall>p \<in> set ps. p = ?null)"
    then show ?thesis by (auto simp: c_def nth_Cons split: nat.split)
  next
    assume "\<exists>m. lc' = Some m \<and> Suc i \<le> m \<and> m < Suc i + length ps \<and>
            (\<forall>m'. m - Suc i < m' \<longrightarrow> m' < length ps \<longrightarrow> ps ! m' = ?null)"
    then obtain m where m: "lc' = Some m" "Suc i \<le> m" "m < Suc i + length ps"
      "\<forall>m'. m - Suc i < m' \<longrightarrow> m' < length ps \<longrightarrow> ps ! m' = ?null" by blast
    then have "\<forall>m'. m - i < m' \<longrightarrow> m' < length (p # ps) \<longrightarrow> (p # ps) ! m' = ?null"
      by (auto simp: nth_Cons split: nat.split)
    with m show ?thesis by auto
  qed
  with step IH(1,2) vals show ?case by auto
qed

subsection \<open>The loop after an append\<close>

definition lay :: "'e list list \<Rightarrow> nat \<Rightarrow> 'e list" where
  "lay ls k = (if k < length ls then ls ! k else [])"

lemma lay_nth [simp]: "k < length ls \<Longrightarrow> lay ls k = ls ! k"
  by (simp add: lay_def)

lemma before_extend_layer_nth:
  "j < length ls \<Longrightarrow> before_extend_layer (Suc j) ls ! Suc j = lay ls (Suc j)"
  by (auto simp: before_extend_layer_def lay_def nth_append)

lemma length_before_extend_layer:
  "j < length ls \<Longrightarrow> length (before_extend_layer (Suc j) ls) = max (length ls) (Suc (Suc j))"
  by (auto simp: before_extend_layer_def)

lemma recompute_layer_extend:
  fixes A :: "'e algo" and xs :: "'e list"
  defines "n \<equiv> length xs"
  assumes nf: "null_free A" and j: "j < length ls" and len: "length (ls ! j) = layer_size n j"
    and s: "s < layer_size n j"
    and new: "drop s (ls ! j) = drop s (layer_at A h xs j)"
    and known: "\<forall>x \<in> set (drop s (ls ! j)). x \<noteq> a_null A"
    and sib: "odd s \<Longrightarrow> ls ! j ! (s - 1) = layer_at A h xs j ! (s - 1) \<and> ls ! j ! (s - 1) \<noteq> a_null A"
    and above: "s div 2 \<le> length (lay ls (Suc j))" "length (lay ls (Suc j)) \<le> s div 2 + 1"
    and me: "me = None \<or> me = Some (length (ls ! j))"
  shows "recompute_layer A h ls j s me =
           Ok ((before_extend_layer (Suc j) ls)[Suc j :=
                 take (s div 2) (lay ls (Suc j)) @ drop (s div 2) (layer_at A h xs (Suc j))],
               s div 2, Some (layer_size n (Suc j)))"
proof -
  define s' where "s' = (if odd s then s - 1 else s)"
  have s': "even s'" "s' \<le> length (ls ! j)" "s' div 2 = s div 2"
    using s len by (auto simp: s'_def elim: oddE)
  have drop_s': "drop s' (ls ! j) = drop s' (layer_at A h xs j)"
    and known': "\<forall>x \<in> set (drop s' (ls ! j)). x \<noteq> a_null A"
  proof -
    have cons: "drop s' (ls ! j) = (ls ! j) ! (s - 1) # drop s (ls ! j)"
      "drop s' (layer_at A h xs j) = layer_at A h xs j ! (s - 1) # drop s (layer_at A h xs j)" if "odd s"
      using that s len by (simp_all add: s'_def Cons_nth_drop_Suc [symmetric] n_def)
    show "drop s' (ls ! j) = drop s' (layer_at A h xs j)"
      using cons sib new by (cases "odd s") (simp_all add: s'_def)
    show "\<forall>x \<in> set (drop s' (ls ! j)). x \<noteq> a_null A"
      using cons sib known by (cases "odd s") (auto simp: s'_def)
  qed
  have slice: "slice_index (ls ! j) s' (length (ls ! j)) = Ok (drop s' (ls ! j))"
    using s' by (simp add: slice_index_def slice_def)
  define ps where "ps = chunk_parents A (j + h) (drop s' (ls ! j))"
  have ps: "ps = drop (s div 2) (layer_at A h xs (Suc j))"
    unfolding ps_def chunk_parents_known [OF known']
    using s' len by (simp add: drop_s' pair_up_drop n_def)
  have ps_ne: "ps \<noteq> []" using s by (simp add: ps n_def)
  have ps_known: "\<forall>p \<in> set ps. p \<noteq> a_null A"
    unfolding ps by (auto dest!: in_set_dropD pair_up_not_null [OF nf])
  have up: "apply_updates A (s div 2) ps (lay ls (Suc j)) None =
      Ok (take (s div 2) (lay ls (Suc j)) @ ps, Some (s div 2 + length ps - 1))"
    by (rule apply_updates_extend [OF ps_ne ps_known above])
  have half: "s div 2 < layer_size n (Suc j)" using s by simp
  then have last: "Suc (s div 2 + length ps - 1) = layer_size n (Suc j)"
    by (simp add: ps n_def)
  have end': "(case me of None \<Rightarrow> length (ls ! j) | Some e \<Rightarrow> e) = length (ls ! j)"
    using me by auto
  have "recompute_layer A h ls j s me =
      Ok ((before_extend_layer (Suc j) ls)[Suc j := take (s div 2) (lay ls (Suc j)) @ ps],
          s div 2, Some (layer_size n (Suc j)))"
    unfolding recompute_layer_def Let_def s'_def [symmetric] end'
    using ps_ne up last half j
    by (simp add: slice ps_def [symmetric] before_extend_layer_nth
        del: chunk_parents_Nil_iff layer_size.simps)
  then show ?thesis by (simp add: ps)
qed

text \<open>
  The states of the loop: at layer \<open>j\<close> the nodes from \<open>s\<close> on are the reference's and known,
  each layer above reaches up to the changed path or one past it, and where the path is a
  right child its left sibling is known.
\<close>

definition left_known :: "'e algo \<Rightarrow> nat \<Rightarrow> 'e list \<Rightarrow> nat \<Rightarrow> 'e list \<Rightarrow> nat \<Rightarrow> bool" where
  "left_known A h xs k l m \<longleftrightarrow>
     (odd m \<longrightarrow> l ! (m - 1) = layer_at A h xs k ! (m - 1) \<and> l ! (m - 1) \<noteq> a_null A)"

definition extending :: "'e algo \<Rightarrow> nat \<Rightarrow> nat \<Rightarrow> 'e list \<Rightarrow> 'e list list \<Rightarrow> nat \<Rightarrow> nat \<Rightarrow> bool" where
  "extending A h d xs ls j s \<longleftrightarrow>
     j < length ls \<and> d \<le> length ls \<and> length ls \<le> tree_depth d (length xs) \<and>
     length (ls ! j) = layer_size (length xs) j \<and> s < layer_size (length xs) j \<and>
     drop s (ls ! j) = drop s (layer_at A h xs j) \<and>
     (\<forall>x \<in> set (drop s (ls ! j)). x \<noteq> a_null A) \<and>
     (\<forall>k. j \<le> k \<longrightarrow> k < length ls \<longrightarrow> left_known A h xs k (ls ! k) (s div 2 ^ (k - j))) \<and>
     (\<forall>k. j < k \<longrightarrow> k < length ls \<longrightarrow>
        s div 2 ^ (k - j) \<le> length (ls ! k) \<and> length (ls ! k) \<le> s div 2 ^ (k - j) + 1) \<and>
     s div 2 ^ (length ls - j) = 0"

definition extend_layer :: "nat \<Rightarrow> 'e list \<Rightarrow> 'e list \<Rightarrow> 'e list" where
  "extend_layer m old_layer new_layer = take m old_layer @ drop m new_layer"

lemma extending_guard:
  assumes "extending A h d xs ls j s"
  shows "1 < length (ls ! j) \<or> j < length ls - 1 \<longleftrightarrow> Suc j < tree_depth d (length xs)"
  using assms tree_depth_more [of j d "length xs"] by (auto simp: extending_def)

lemma extending_above:
  assumes "extending A h d xs ls j s"
  shows "s div 2 \<le> length (lay ls (Suc j))" and "length (lay ls (Suc j)) \<le> s div 2 + 1"
proof -
  from assms have *: "Suc j < length ls \<Longrightarrow> s div 2 \<le> length (ls ! Suc j) \<and> length (ls ! Suc j) \<le> s div 2 + 1"
    unfolding extending_def by (metis Suc_diff_le diff_self_eq_0 lessI order_refl power_one_right One_nat_def)
  from assms have **: "length ls = Suc j \<Longrightarrow> s div 2 = 0"
    unfolding extending_def by (metis Suc_diff_le diff_self_eq_0 order_refl power_one_right One_nat_def)
  from assms have "j < length ls" by (simp add: extending_def)
  with * ** show "s div 2 \<le> length (lay ls (Suc j))" "length (lay ls (Suc j)) \<le> s div 2 + 1"
    by (cases "Suc j < length ls"; fastforce simp: lay_def)+
qed

lemma div_shift: "Suc j \<le> k \<Longrightarrow> s div 2 div 2 ^ (k - Suc j) = s div 2 ^ (k - j)" for s :: nat
  by (metis Suc_diff_le diff_Suc_Suc div_pow_Suc')

lemma extending_nth:
  fixes ls :: "'e list list" and l :: "'e list"
  assumes "j < length ls"
  defines "ls' \<equiv> (before_extend_layer (Suc j) ls)[Suc j := l]"
  shows "length ls' = max (length ls) (Suc (Suc j))"
    and "ls' ! Suc j = l" and "k \<le> j \<Longrightarrow> ls' ! k = ls ! k"
    and "Suc j < k \<Longrightarrow> lay ls' k = lay ls k"
  using assms by (auto simp: before_extend_layer_def nth_append lay_def)

lemma extending_step:
  fixes A :: "'e algo" and xs :: "'e list"
  assumes nf: "null_free A" and ext: "extending A h d xs ls j s"
    and more: "Suc j < tree_depth d (length xs)"
  defines "ls' \<equiv> (before_extend_layer (Suc j) ls)[Suc j :=
      extend_layer (s div 2) (lay ls (Suc j)) (layer_at A h xs (Suc j))]"
  shows "extending A h d xs ls' (Suc j) (s div 2)"
proof -
  let ?n = "length xs" and ?new = "extend_layer (s div 2) (lay ls (Suc j)) (layer_at A h xs (Suc j))"
  from ext have j: "j < length ls" and d: "d \<le> length ls" and D: "length ls \<le> tree_depth d ?n"
    and s: "s < layer_size ?n j" and top: "s div 2 ^ (length ls - j) = 0"
    and sib: "\<And>k. j \<le> k \<Longrightarrow> k < length ls \<Longrightarrow> left_known A h xs k (ls ! k) (s div 2 ^ (k - j))"
    and above: "\<And>k. j < k \<Longrightarrow> k < length ls \<Longrightarrow>
        s div 2 ^ (k - j) \<le> length (ls ! k) \<and> length (ls ! k) \<le> s div 2 ^ (k - j) + 1"
    by (simp_all add: extending_def)
  note above1 = extending_above [OF ext]
  note ls' = extending_nth [OF j, where l = ?new, folded ls'_def]
  have half: "s div 2 < layer_size ?n (Suc j)" using s by simp
  have len_new: "length ?new = layer_size ?n (Suc j)"
    using above1 half by (simp add: extend_layer_def)
  have drop_new: "drop (s div 2) ?new = drop (s div 2) (layer_at A h xs (Suc j))"
    using above1 by (simp add: extend_layer_def)
  have known: "\<forall>x \<in> set (drop (s div 2) ?new). x \<noteq> a_null A"
    unfolding drop_new by (auto dest!: in_set_dropD pair_up_not_null [OF nf])
  have upper: "k < length ls" "ls' ! k = ls ! k" if "Suc j < k" "k < length ls'" for k
  proof -
    show "k < length ls" using that ls'(1) by simp
    with that ls'(4) [of k] show "ls' ! k = ls ! k" by simp
  qed
  have sib': "left_known A h xs k (ls' ! k) (s div 2 div 2 ^ (k - Suc j))" if k: "Suc j \<le> k" "k < length ls'" for k
  proof (cases "k = Suc j")
    case False
    with k upper [of k] sib [of k] show ?thesis by (simp add: div_shift)
  next
    case True
    show ?thesis
    proof (cases "Suc j < length ls")
      case True
      with \<open>k = Suc j\<close> sib [of "Suc j"] above1 ls'(2) show ?thesis
        by (auto simp: left_known_def extend_layer_def nth_append elim: oddE)
    next
      case False
      with above1 \<open>k = Suc j\<close> show ?thesis by (simp add: left_known_def lay_def)
    qed
  qed
  have top': "s div 2 div 2 ^ (length ls' - Suc j) = 0"
  proof (cases "Suc j < length ls")
    case True
    with top ls'(1) show ?thesis by (simp add: div_shift)
  next
    case False
    with above1 ls'(1) show ?thesis by (simp add: lay_def)
  qed
  have above': "s div 2 div 2 ^ (k - Suc j) \<le> length (ls' ! k) \<and>
      length (ls' ! k) \<le> s div 2 div 2 ^ (k - Suc j) + 1" if "Suc j < k" "k < length ls'" for k
    using above [of k] upper [OF that] that by (simp add: div_shift)
  have bounds: "Suc j < length ls'" "d \<le> length ls'" "length ls' \<le> tree_depth d ?n"
    using d D more ls'(1) by simp_all
  show ?thesis
    unfolding extending_def ls'(2)
    by (intro conjI allI impI bounds len_new half drop_new known sib' above' top')
qed

lemma recompute_extend:
  assumes "null_free A" and "extending A h d xs ls j s"
    and "me = None \<or> me = Some (length (ls ! j))"
  shows "\<exists>ls'. recompute_loop A h ls j s me = Ok ls' \<and> length ls' = tree_depth d (length xs) \<and>
           (\<forall>k < j. ls' ! k = ls ! k) \<and>
           (\<forall>k. j \<le> k \<longrightarrow> k < tree_depth d (length xs) \<longrightarrow>
              ls' ! k = extend_layer (s div 2 ^ (k - j)) (lay ls k) (layer_at A h xs k))"
  using assms(2,3)
proof (induction "tree_depth d (length xs) - j" arbitrary: j ls s me rule: less_induct)
  case less
  let ?D = "tree_depth d (length xs)"
  note ext = less.prems(1)
  from ext have j: "j < length ls" and D: "length ls \<le> ?D"
    and new: "drop s (ls ! j) = drop s (layer_at A h xs j)" by (simp_all add: extending_def)
  have at_j: "ls ! j = extend_layer s (ls ! j) (layer_at A h xs j)"
    unfolding extend_layer_def using new by (metis append_take_drop_id)
  show ?case
  proof (cases "Suc j < ?D")
    case False
    with extending_guard [OF ext] j have "recompute_loop A h ls j s me = Ok ls"
      by (subst recompute_loop.simps) simp
    moreover from False j D have "length ls = ?D" "?D = Suc j" by auto
    ultimately show ?thesis
      using at_j by (intro exI [of _ ls]) (auto simp: less_Suc_eq_le dest: le_antisym)
  next
    case True
    let ?new = "extend_layer (s div 2) (lay ls (Suc j)) (layer_at A h xs (Suc j))"
    let ?ls = "(before_extend_layer (Suc j) ls)[Suc j := ?new]"
    note nth = extending_nth [OF j, where l = ?new]
    have step: "recompute_layer A h ls j s me = Ok (?ls, s div 2, Some (layer_size (length xs) (Suc j)))"
      unfolding extend_layer_def
      by (rule recompute_layer_extend)
        (use assms(1) ext less.prems(2) extending_above [OF ext] in
          \<open>auto simp: extending_def left_known_def\<close>)
    note ext' = extending_step [OF assms(1) ext True]
    have me': "Some (layer_size (length xs) (Suc j)) = Some (length (?ls ! Suc j))"
      using ext' by (simp only: extending_def)
    have lt: "?D - Suc j < ?D - j" using True by simp
    from less.hyps [OF lt ext' disjI2 [OF me']]
    obtain ls' where IH: "recompute_loop A h ?ls (Suc j) (s div 2) (Some (layer_size (length xs) (Suc j))) = Ok ls'"
      "length ls' = ?D" "\<forall>k < Suc j. ls' ! k = ?ls ! k"
      "\<forall>k. Suc j \<le> k \<longrightarrow> k < ?D \<longrightarrow>
         ls' ! k = extend_layer (s div 2 div 2 ^ (k - Suc j)) (lay ?ls k) (layer_at A h xs k)"
      by blast
    have run: "recompute_loop A h ls j s me = Ok ls'"
      using j extending_guard [OF ext] True step IH(1) by (subst recompute_loop.simps) simp
    have "ls' ! k = extend_layer (s div 2 ^ (k - j)) (lay ls k) (layer_at A h xs k)"
      if k: "j \<le> k" "k < ?D" for k
    proof -
      consider "k = j" | "k = Suc j" | "Suc j < k" using k(1) by linarith
      then show ?thesis
      proof cases
        case 1
        with IH(3) nth(3) [of j] at_j j show ?thesis by simp
      next
        case 2
        with IH(4) k nth(1,2) extending_above [OF ext] show ?thesis
          by (simp add: extend_layer_def)
      next
        case 3
        with IH(4) k nth(4) show ?thesis by (simp add: div_shift)
      qed
    qed
    with run IH(2,3) nth(3) show ?thesis by auto
  qed
qed

subsection \<open>The invariant\<close>

definition knows :: "'e algo \<Rightarrow> nat \<Rightarrow> 'e list \<Rightarrow> 'e list list \<Rightarrow> bool" where
  "knows A h xs ls \<longleftrightarrow>
     (\<forall>k < length ls. length (ls ! k) = layer_size (length xs) k \<and>
        (\<forall>i < layer_size (length xs) k. ls ! k ! i = a_null A \<or> ls ! k ! i = layer_at A h xs k ! i))"

definition covered :: "'e algo \<Rightarrow> 'e list \<Rightarrow> 'e list list \<Rightarrow> bool" where
  "covered A xs ls \<longleftrightarrow>
     (\<forall>k < length ls. \<forall>i < layer_size (length xs) k. ls ! k ! i = a_null A \<longrightarrow>
        (\<exists>m. k < m \<and> m < length ls \<and> ls ! m ! (i div 2 ^ (m - k)) \<noteq> a_null A \<and>
             (i div 2 ^ (m - k) + 1) * 2 ^ m \<le> length xs))"

definition closed_up :: "'e algo \<Rightarrow> 'e list \<Rightarrow> 'e list list \<Rightarrow> bool" where
  "closed_up A xs ls \<longleftrightarrow>
     (\<forall>k. Suc k < length ls \<longrightarrow> (\<forall>i < layer_size (length xs) (Suc k).
        ls ! k ! (2 * i) \<noteq> a_null A \<longrightarrow>
        (2 * i + 1 < layer_size (length xs) k \<longrightarrow> ls ! k ! (2 * i + 1) \<noteq> a_null A) \<longrightarrow>
        ls ! Suc k ! i \<noteq> a_null A))"

definition layers_ok :: "'e algo \<Rightarrow> nat \<Rightarrow> nat \<Rightarrow> 'e list \<Rightarrow> 'e list list \<Rightarrow> bool" where
  "layers_ok A h d xs ls \<longleftrightarrow>
     length ls = tree_depth d (length xs) \<and> knows A h xs ls \<and> covered A xs ls \<and> closed_up A xs ls"

definition depth_of :: "'e amt \<Rightarrow> nat" where
  "depth_of t = (case min_depth t of None \<Rightarrow> 1 | Some d \<Rightarrow> d)"

definition tree_inv :: "'e algo \<Rightarrow> 'e amt \<Rightarrow> 'e list \<Rightarrow> bool" where
  "tree_inv A t xs \<longleftrightarrow>
     null_free A \<and> (\<forall>x \<in> set xs. x \<noteq> a_null A) \<and>
     layers_ok A (leaf_height t) (depth_of t) xs (layers t)"

lemma layers_okD:
  assumes "layers_ok A h d xs ls"
  shows "length ls = tree_depth d (length xs)"
    and "k < length ls \<Longrightarrow> length (ls ! k) = layer_size (length xs) k"
    and "k < length ls \<Longrightarrow> i < layer_size (length xs) k \<Longrightarrow>
           ls ! k ! i = a_null A \<or> ls ! k ! i = layer_at A h xs k ! i"
  using assms by (auto simp: layers_ok_def knows_def)

lemma layers_ok_cover:
  assumes "layers_ok A h d xs ls" and "k < length ls" and "i < layer_size (length xs) k"
    and "ls ! k ! i = a_null A"
  obtains m where "k < m" "m < length ls" "ls ! m ! (i div 2 ^ (m - k)) \<noteq> a_null A"
    "(i div 2 ^ (m - k) + 1) * 2 ^ m \<le> length xs"
  using assms unfolding layers_ok_def covered_def by blast

lemma leaf_beyond_top: "n div 2 ^ tree_depth d n = 0"
proof -
  have "n div 2 ^ (tree_depth d n - 1) \<le> 1"
    using layer_size_ge [of n "tree_depth d n - 1"] tree_depth_top [of n d] by simp
  then have "n div 2 ^ (tree_depth d n - 1) div 2 = 0" by simp
  then show ?thesis by (metis div_pow_Suc Suc_diff_1 tree_depth_pos)
qed

lemma path_index_known:
  assumes ok: "layers_ok A h d xs ls" and k: "k < length ls"
    and odd: "odd (length xs div 2 ^ k)"
  shows "ls ! k ! (length xs div 2 ^ k - 1) \<noteq> a_null A"
proof
  let ?n = "length xs"
  define q where "q = ?n div 2 ^ k"
  assume null: "ls ! k ! (?n div 2 ^ k - 1) = a_null A"
  from odd have q: "odd q" "0 < q" by (auto simp: q_def intro: odd_pos)
  have "q - 1 < layer_size ?n k" using layer_size_ge [of ?n k] q by (simp add: q_def)
  with layers_ok_cover [OF ok k _ null [folded q_def]]
  obtain m where m: "k < m" "((q - 1) div 2 ^ (m - k) + 1) * 2 ^ m \<le> ?n" by metis
  have "(q - 1) div 2 ^ (m - k) = (q - 1) div 2 div 2 ^ (m - Suc k)"
    using m(1) by (simp add: div_shift [of k m])
  also have "(q - 1) div 2 = q div 2" using q by (auto elim: oddE)
  also have "q div 2 div 2 ^ (m - Suc k) = q div 2 ^ (m - k)" using m(1) by (simp add: div_shift)
  also have "\<dots> = ?n div 2 ^ m" using m(1) by (simp add: q_def div_pow_diff)
  finally have "(?n div 2 ^ m + 1) * 2 ^ m \<le> ?n" using m(2) by simp
  with less_next_multiple [of ?n m] show False by simp
qed

lemma layer_at_prefix:
  assumes "take s xs' = take s xs" and "s \<le> length xs" and "s \<le> length xs'" and "i < s div 2 ^ k"
  shows "layer_at A h xs' k ! i = layer_at A h xs k ! i"
proof -
  have "layer_at A h ys k ! i = layer_at A h (take s ys) k ! i" if "s \<le> length ys" for ys
    using layer_at_append_nth [of i "take s ys" k A h "drop s ys"] that assms(4) by simp
  with assms(1-3) show ?thesis by metis
qed

lemma div_pow_pos_depth: "0 < n div 2 ^ k \<Longrightarrow> k < tree_depth d n"
proof (rule ccontr)
  assume pos: "0 < n div 2 ^ k" and "\<not> k < tree_depth d n"
  then have "n div 2 ^ k = n div 2 ^ tree_depth d n div 2 ^ (k - tree_depth d n)"
    by (simp add: div_pow_diff)
  with pos show False by (simp add: leaf_beyond_top)
qed

text \<open>
  How an operation that changes the leaves from index \<open>s\<close> on keeps the invariant: below layer
  \<open>K\<close> the new nodes are unknown and belong to one complete subtree, from layer \<open>K\<close> on they are
  the reference's.
\<close>

definition grown ::
  "'e algo \<Rightarrow> nat \<Rightarrow> nat \<Rightarrow> nat \<Rightarrow> 'e list \<Rightarrow> 'e list list \<Rightarrow> 'e list \<Rightarrow> 'e list list \<Rightarrow> bool" where
  "grown A h s K xs ls xs' ls' \<longleftrightarrow>
     take s xs' = take s xs \<and> s \<le> length xs \<and> length xs \<le> length xs' \<and> s < length xs' \<and>
     (\<forall>k < length ls'. length (ls' ! k) = layer_size (length xs') k \<and>
        (\<forall>i < s div 2 ^ k. ls' ! k ! i = ls ! k ! i) \<and>
        (\<forall>i < layer_size (length xs') k. s div 2 ^ k \<le> i \<longrightarrow>
           ls' ! k ! i = (if K \<le> k then layer_at A h xs' k ! i else a_null A))) \<and>
     (0 < K \<longrightarrow> K < length ls' \<and> s = length xs \<and> 2 ^ K dvd s \<and> length xs' = s + 2 ^ K)"

lemma grownD:
  assumes "grown A h s K xs ls xs' ls'"
  shows "k < length ls' \<Longrightarrow> length (ls' ! k) = layer_size (length xs') k"
    and "k < length ls' \<Longrightarrow> i < s div 2 ^ k \<Longrightarrow> ls' ! k ! i = ls ! k ! i"
    and "k < length ls' \<Longrightarrow> s div 2 ^ k \<le> i \<Longrightarrow> i < layer_size (length xs') k \<Longrightarrow> K \<le> k \<Longrightarrow>
           ls' ! k ! i = layer_at A h xs' k ! i"
    and "k < length ls' \<Longrightarrow> s div 2 ^ k \<le> i \<Longrightarrow> i < layer_size (length xs') k \<Longrightarrow> k < K \<Longrightarrow>
           ls' ! k ! i = a_null A"
    and "take s xs' = take s xs" "s \<le> length xs" "length xs \<le> length xs'" "s < length xs'"
    and "0 < K \<Longrightarrow> K < length ls' \<and> s = length xs \<and> 2 ^ K dvd s \<and> length xs' = s + 2 ^ K"
  using assms by (auto simp: grown_def)

lemma grown_subtree_index:
  assumes g: "grown A h s K xs ls xs' ls'" and "k < K" and "i < layer_size (length xs') k"
    and "s div 2 ^ k \<le> i"
  shows "i div 2 ^ (K - k) = s div 2 ^ K"
proof -
  from assms(2) have "0 < K" by simp
  from grownD(9) [OF g this] have K: "2 ^ K dvd s" "length xs' = s + 2 ^ K" by blast+
  then obtain q where q: "s = 2 ^ K * q" by blast
  have pow: "(2::nat) ^ K = 2 ^ k * 2 ^ (K - k)" using assms(2) by (simp add: power_add [symmetric])
  have "s div 2 ^ k = 2 ^ (K - k) * q" using q pow by (simp add: mult.assoc)
  with assms(4) have ge: "2 ^ (K - k) * q \<le> i" by simp
  from assms(3) K q have "i * 2 ^ k < 2 ^ K * (q + 1)"
    by (simp add: layer_size_bound algebra_simps)
  then have "2 ^ k * i < 2 ^ k * (2 ^ (K - k) * (q + 1))"
    unfolding pow by (simp only: mult.assoc mult.commute [of i])
  then have "i < 2 ^ (K - k) * (q + 1)" by simp
  with ge have "i div 2 ^ (K - k) = q"
    by (intro div_nat_eqI) (simp_all add: algebra_simps)
  with q show ?thesis by simp
qed

lemma grown_old:
  assumes ok: "layers_ok A h d xs ls" and g: "grown A h s K xs ls xs' ls'" and i: "i < s div 2 ^ k"
  shows "k < length ls" and "i < layer_size (length xs) k"
    and "layer_at A h xs' k ! i = layer_at A h xs k ! i"
proof -
  let ?n = "length xs"
  have le_n: "s div 2 ^ k \<le> ?n div 2 ^ k" using grownD(6) [OF g] by (simp add: div_le_mono)
  show "i < layer_size ?n k" using i le_n layer_size_ge [of ?n k] by linarith
  show "k < length ls" using i le_n layers_okD(1) [OF ok] div_pow_pos_depth [of ?n k d] by simp
  show "layer_at A h xs' k ! i = layer_at A h xs k ! i"
    by (rule layer_at_prefix) (use grownD [OF g] i in auto)
qed

lemma grown_knows:
  assumes ok: "layers_ok A h d xs ls" and g: "grown A h s K xs ls xs' ls'"
  shows "knows A h xs' ls'"
  unfolding knows_def
proof (intro allI impI conjI)
  note G = grownD [OF g]
  fix k i assume k: "k < length ls'" and i: "i < layer_size (length xs') k"
  show "ls' ! k ! i = a_null A \<or> ls' ! k ! i = layer_at A h xs' k ! i"
  proof (cases "i < s div 2 ^ k")
    case True
    with layers_okD(3) [OF ok] grown_old [OF ok g True] G(2) [OF k] show ?thesis by simp
  next
    case False
    with G(3,4) [OF k _ i] show ?thesis by (cases "K \<le> k") auto
  qed
qed (rule grownD(1) [OF g])

lemma grown_covered:
  assumes ok: "layers_ok A h d xs ls" and nf: "null_free A" and nn: "\<forall>x \<in> set xs'. x \<noteq> a_null A"
    and le: "length ls \<le> length ls'" and g: "grown A h s K xs ls xs' ls'"
  shows "covered A xs' ls'"
  unfolding covered_def
proof (intro allI impI)
  let ?n = "length xs" and ?n' = "length xs'"
  note G = grownD [OF g]
  note new_known = layer_at_not_null [OF nf nn]
  fix k i assume k: "k < length ls'" and i: "i < layer_size ?n' k" and null: "ls' ! k ! i = a_null A"
  show "\<exists>m. k < m \<and> m < length ls' \<and> ls' ! m ! (i div 2 ^ (m - k)) \<noteq> a_null A \<and>
            (i div 2 ^ (m - k) + 1) * 2 ^ m \<le> ?n'"
  proof (cases "i < s div 2 ^ k")
    case True
    from null G(2) [OF k True] have "ls ! k ! i = a_null A" by simp
    from layers_ok_cover [OF ok grown_old(1,2) [OF ok g True] this] obtain m where m: "k < m" "m < length ls"
      "ls ! m ! (i div 2 ^ (m - k)) \<noteq> a_null A" "(i div 2 ^ (m - k) + 1) * 2 ^ m \<le> ?n" .
    let ?a = "i div 2 ^ (m - k)"
    from m(4) have a: "?a < ?n div 2 ^ m" by (simp only: complete_iff)
    have a': "?a < layer_size ?n' m"
      using a layer_size_ge [of ?n m] layer_size_mono [OF G(7), of m] by linarith
    have "K = 0 \<or> s = ?n" using G(9) by blast
    then have "s div 2 ^ m \<le> ?a \<Longrightarrow> K \<le> m" using a by (elim disjE) simp_all
    then have "ls' ! m ! ?a \<noteq> a_null A"
      using m(2,3) le G(2,3) [of m ?a] a' new_known [OF a'] by (cases "?a < s div 2 ^ m") auto
    with m G(7) le show ?thesis by (intro exI [of _ m]) simp
  next
    case False
    then have kK: "k < K" using G(3) [OF k _ i] new_known [OF i] null by (cases "k < K") auto
    then have "0 < K" by simp
    from G(9) [OF this] have K: "K < length ls'" "2 ^ K dvd s" "?n' = s + 2 ^ K" by blast+
    have size: "(s div 2 ^ K + 1) * 2 ^ K \<le> ?n'" using K(2,3) by (simp add: algebra_simps)
    then have "s div 2 ^ K < ?n' div 2 ^ K" by (simp only: complete_iff)
    then have q: "s div 2 ^ K < layer_size ?n' K" using layer_size_ge [of ?n' K] by linarith
    have "ls' ! K ! (s div 2 ^ K) \<noteq> a_null A" using G(3) [OF K(1) _ q] new_known [OF q] by simp
    with kK K(1) grown_subtree_index [OF g kK i] False size show ?thesis by (intro exI [of _ K]) simp
  qed
qed

lemma grown_closed_up:
  assumes ok: "layers_ok A h d xs ls" and nf: "null_free A" and nn: "\<forall>x \<in> set xs'. x \<noteq> a_null A"
    and g: "grown A h s K xs ls xs' ls'"
  shows "closed_up A xs' ls'"
  unfolding closed_up_def
proof (intro allI impI)
  let ?n = "length xs" and ?n' = "length xs'"
  note G = grownD [OF g]
  fix k i assume k: "Suc k < length ls'" and i: "i < layer_size ?n' (Suc k)"
    and left: "ls' ! k ! (2 * i) \<noteq> a_null A"
    and right: "2 * i + 1 < layer_size ?n' k \<longrightarrow> ls' ! k ! (2 * i + 1) \<noteq> a_null A"
  from i have i2: "2 * i < layer_size ?n' k" by auto
  show "ls' ! Suc k ! i \<noteq> a_null A"
  proof (cases "i < s div 2 ^ Suc k")
    case True
    then have lt: "2 * i < s div 2 ^ k" "2 * i + 1 < s div 2 ^ k" by (auto simp: div_pow_Suc simp del: power_Suc)
    have r: "2 * i + 1 < layer_size ?n' k"
      using grown_old(2) [OF ok g lt(2)] layer_size_mono [OF G(7), of k] by linarith
    from left right r G(2) [of k] lt k have "ls ! k ! (2 * i) \<noteq> a_null A" "ls ! k ! (2 * i + 1) \<noteq> a_null A"
      by auto
    with ok grown_old(1,2) [OF ok g True] have "ls ! Suc k ! i \<noteq> a_null A"
      unfolding layers_ok_def closed_up_def by blast
    with G(2) [OF k True] show ?thesis by simp
  next
    case False
    have "K \<le> Suc k"
    proof (rule ccontr)
      assume "\<not> K \<le> Suc k"
      then have kK: "Suc k < K" by simp
      then have "0 < K" by simp
      from G(9) [OF this] have "2 ^ K dvd s" by blast
      moreover have "(2::nat) ^ Suc k dvd 2 ^ K" using kK by (intro le_imp_power_dvd) simp
      ultimately have "2 * 2 ^ k dvd s" using dvd_trans by auto
      then have "even (s div 2 ^ k)" by (rule dvd_mult_imp_div)
      then have "s div 2 ^ k = 2 * (s div 2 ^ Suc k)" by (simp only: div_pow_Suc dvd_mult_div_cancel)
      with False have "s div 2 ^ k \<le> 2 * i" by linarith
      with G(4) [of k "2 * i"] k kK i2 left show False by simp
    qed
    with False G(3) [OF k _ i] layer_at_not_null [OF nf nn i] show ?thesis by simp
  qed
qed

lemma layers_ok_grow:
  assumes "layers_ok A h d xs ls" and "null_free A" and "\<forall>x \<in> set xs'. x \<noteq> a_null A"
    and "length ls' = tree_depth d (length xs')" and "grown A h s K xs ls xs' ls'"
  shows "layers_ok A h d xs' ls'"
proof -
  have "length ls \<le> length ls'"
    using layers_okD(1) [OF assms(1)] assms(4) tree_depth_mono [OF grownD(7) [OF assms(5)]] by simp
  with grown_knows [OF assms(1,5)] grown_covered [OF assms(1-3) _ assms(5)]
    grown_closed_up [OF assms(1-3,5)] assms(4)
  show ?thesis unfolding layers_ok_def [of _ _ _ xs'] by blast
qed

subsection \<open>Changing the leaves from an index on\<close>

lemma layer_size_Suc: "layer_size (Suc s) k = s div 2 ^ k + 1"
proof -
  have "i < layer_size (Suc s) k \<longleftrightarrow> i < s div 2 ^ k + 1" for i
    by (simp add: layer_size_bound less_Suc_eq_le less_eq_div_iff_mult_less_eq)
  then show ?thesis by (metis linorder_neqE_nat less_irrefl)
qed

text \<open>
  Later layers that still hold an earlier version: only the last node of each earlier layer may
  have changed.
\<close>

definition extends_version :: "'e list list \<Rightarrow> 'e list list \<Rightarrow> bool" where
  "extends_version ls ls' \<longleftrightarrow>
     length ls \<le> length ls' \<and>
     (\<forall>k < length ls. length (ls ! k) \<le> length (ls' ! k) \<and>
        (\<forall>i. Suc i < length (ls ! k) \<longrightarrow> ls' ! k ! i = ls ! k ! i))"

lemma extends_version_refl [simp]: "extends_version ls ls"
  by (simp add: extends_version_def)

lemma extends_version_trans:
  assumes "extends_version ls ls'" and "extends_version ls' ls''"
  shows "extends_version ls ls''"
  unfolding extends_version_def
proof (intro conjI allI impI)
  show "length ls \<le> length ls''" using assms by (simp add: extends_version_def)
  fix k assume k: "k < length ls"
  with assms have le: "k < length ls'" "length (ls ! k) \<le> length (ls' ! k)" "length (ls' ! k) \<le> length (ls'' ! k)"
    by (auto simp: extends_version_def)
  then show "length (ls ! k) \<le> length (ls'' ! k)" by simp
  fix i assume i: "Suc i < length (ls ! k)"
  with le have "Suc i < length (ls' ! k)" by simp
  with i assms k le(1) have "ls' ! k ! i = ls ! k ! i" "ls'' ! k ! i = ls' ! k ! i"
    unfolding extends_version_def by blast+
  then show "ls'' ! k ! i = ls ! k ! i" by simp
qed

lemma grown_extends:
  assumes ok: "layers_ok A h d xs ls" and g: "grown A h s K xs ls xs' ls'"
    and s: "length xs \<le> s + 1" and D: "length ls \<le> length ls'"
  shows "extends_version ls ls'"
  unfolding extends_version_def
proof (intro conjI allI impI)
  note L = layers_okD [OF ok] and G = grownD [OF g]
  fix k assume k: "k < length ls"
  with D have k': "k < length ls'" by simp
  show "length (ls ! k) \<le> length (ls' ! k)"
    using L(2) [OF k] G(1) [OF k'] layer_size_mono [OF G(7), of k] by simp
  fix i assume "Suc i < length (ls ! k)"
  then have "i < s div 2 ^ k"
    using L(2) [OF k] layer_size_mono [of "length xs" "Suc s" k] s by (simp add: layer_size_Suc)
  with G(2) [OF k'] show "ls' ! k ! i = ls ! k ! i" by simp
qed (rule D)

lemma extending_start:
  assumes ok: "layers_ok A h d xs ls" and s: "s \<le> length xs" "length xs \<le> s + 1"
    and xs': "xs' = take s xs @ ys" and ys: "ys \<noteq> []" "\<forall>y \<in> set ys. y \<noteq> a_null A"
    and le: "length xs \<le> length xs'"
    and left: "\<And>k. k < length ls \<Longrightarrow> odd (s div 2 ^ k) \<Longrightarrow> ls ! k ! (s div 2 ^ k - 1) \<noteq> a_null A"
  shows "extending A h d xs' (ls[0 := take s (ls ! 0) @ ys]) 0 s"
proof -
  let ?n = "length xs" and ?ls = "ls[0 := take s (ls ! 0) @ ys]"
  note L = layers_okD [OF ok]
  have ne: "0 < length ls" using L(1) by simp
  have len0: "length (ls ! 0) = ?n" using L(2) [OF ne] by simp
  have size: "s div 2 ^ k \<le> layer_size ?n k" "layer_size ?n k \<le> s div 2 ^ k + 1" for k
  proof -
    show "s div 2 ^ k \<le> layer_size ?n k"
      using div_le_mono [OF s(1), of "2 ^ k"] layer_size_ge [of ?n k] by linarith
    show "layer_size ?n k \<le> s div 2 ^ k + 1"
      using layer_size_mono [of ?n "Suc s" k] s(2) by (simp add: layer_size_Suc)
  qed
  have "left_known A h xs' k (?ls ! k) (s div 2 ^ k)" if k: "k < length ls" for k
    unfolding left_known_def
  proof
    let ?q = "s div 2 ^ k"
    assume odd: "odd ?q"
    then have q: "?q - 1 < ?q" by (cases ?q) auto
    have same: "?ls ! k ! (?q - 1) = ls ! k ! (?q - 1)"
      using q s(1) len0 ne by (cases k) (auto simp: nth_append)
    have "layer_at A h xs' k ! (?q - 1) = layer_at A h xs k ! (?q - 1)"
      by (rule layer_at_prefix [of s]) (use s le xs' q in auto)
    with same L(3) [OF k, of "?q - 1"] left [OF k odd] q size(1) [of k]
    show "?ls ! k ! (?q - 1) = layer_at A h xs' k ! (?q - 1) \<and> ?ls ! k ! (?q - 1) \<noteq> a_null A" by simp
  qed
  moreover have "s div 2 ^ k \<le> length (?ls ! k) \<and> length (?ls ! k) \<le> s div 2 ^ k + 1"
    if "0 < k" "k < length ls" for k
    using that L(2) size by simp
  moreover have "s div 2 ^ length ls = 0"
    using div_le_mono [OF s(1), of "2 ^ length ls"] leaf_beyond_top [of ?n d] L(1) by simp
  moreover have "d \<le> length ls" "length ls \<le> tree_depth d (length xs')"
    using L(1) tree_depth_ge tree_depth_mono [OF le] by simp_all
  ultimately show ?thesis
    using ne s(1) len0 xs' ys by (simp add: extending_def)
qed

lemma extend_leaves:
  assumes inv: "tree_inv A t xs" and s: "s \<le> length xs" "length xs \<le> s + 1"
    and xs': "xs' = take s xs @ ys" and ys: "ys \<noteq> []" "\<forall>y \<in> set ys. y \<noteq> a_null A"
    and le: "length xs \<le> length xs'"
    and left: "\<And>k. k < length (layers t) \<Longrightarrow> odd (s div 2 ^ k) \<Longrightarrow>
        layers t ! k ! (s div 2 ^ k - 1) \<noteq> a_null A"
  shows "\<exists>ls'. recompute_after_append A (set_layer 0 (take s (layers t ! 0) @ ys) t) s = Ok (t\<lparr>layers := ls'\<rparr>)
           \<and> tree_inv A (t\<lparr>layers := ls'\<rparr>) xs' \<and> ls' ! 0 = take s (layers t ! 0) @ ys
           \<and> extends_version (layers t) ls'"
proof -
  let ?h = "leaf_height t" and ?d = "depth_of t" and ?D = "tree_depth (depth_of t) (length xs')"
  let ?ls = "(layers t)[0 := take s (layers t ! 0) @ ys]"
  from inv have nf: "null_free A" and nn: "\<forall>x \<in> set xs. x \<noteq> a_null A"
    and ok: "layers_ok A ?h ?d xs (layers t)" by (simp_all add: tree_inv_def)
  from nn ys xs' have nn': "\<forall>x \<in> set xs'. x \<noteq> a_null A" by (auto dest: in_set_takeD)
  note L = layers_okD [OF ok]
  have ne: "0 < length (layers t)" using L(1) by simp
  have len0: "length (layers t ! 0) = length xs" using L(2) [OF ne] by simp
  have s': "s < length xs'" using s xs' ys by simp
  from recompute_extend [OF nf extending_start [OF ok s xs' ys le left]]
  obtain ls' where run: "recompute_loop A ?h ?ls 0 s None = Ok ls'" and len': "length ls' = ?D"
    and nth: "\<And>k. k < ?D \<Longrightarrow> ls' ! k = extend_layer (s div 2 ^ k) (lay ?ls k) (layer_at A ?h xs' k)"
    by auto
  have lay0: "take (s div 2 ^ k) (lay ?ls k) = take (s div 2 ^ k) (lay (layers t) k)" for k
    using s(1) len0 ne by (cases k) (auto simp: lay_def)
  have size: "s div 2 ^ k \<le> length (lay (layers t) k)" for k
  proof (cases "k < length (layers t)")
    case True
    then show ?thesis
      using L(2) div_le_mono [OF s(1), of "2 ^ k"] layer_size_ge [of "length xs" k] by simp
  next
    case False
    with L(1) div_pow_pos_depth [of "length xs" k ?d] div_le_mono [OF s(1), of "2 ^ k"]
    show ?thesis by (cases "length xs div 2 ^ k") auto
  qed
  have small: "s div 2 ^ k < layer_size (length xs') k" for k
    using s' by (simp add: layer_size_bound) (metis le_less_trans div_times_less_eq_dividend)
  have g: "grown A ?h s 0 xs (layers t) xs' ls'"
    unfolding grown_def
  proof (intro conjI allI impI)
    fix k assume "k < length ls'"
    then have k: "ls' ! k = take (s div 2 ^ k) (lay (layers t) k) @ drop (s div 2 ^ k) (layer_at A ?h xs' k)"
      using nth len' lay0 by (simp add: extend_layer_def)
    show "length (ls' ! k) = layer_size (length xs') k"
      using k size [of k] small [of k] by simp
    show "ls' ! k ! i = layers t ! k ! i" if "i < s div 2 ^ k" for i
      using k that size [of k] by (auto simp: nth_append lay_def split: if_splits)
    show "ls' ! k ! i = (if 0 \<le> k then layer_at A ?h xs' k ! i else a_null A)"
      if "i < layer_size (length xs') k" "s div 2 ^ k \<le> i" for i
      using k that size [of k] by (simp add: nth_append)
  qed (use xs' s le s' in auto)
  from layers_ok_grow [OF ok nf nn' len' g] have "layers_ok A ?h ?d xs' ls'" .
  moreover have "extends_version (layers t) ls'"
    by (rule grown_extends [OF ok g s(2)]) (use L(1) len' tree_depth_mono [OF le] in simp)
  moreover have "ls' ! 0 = take s (layers t ! 0) @ ys"
    using nth [of 0] ne s(1) len0 xs' by (simp add: extend_layer_def)
  ultimately show ?thesis
    using run nf nn'
    by (auto simp: tree_inv_def depth_of_def recompute_after_append_def recompute_def set_layer_def)
qed

subsection \<open>The operations keep the invariant\<close>

lemma tree_invD:
  assumes "tree_inv A t xs"
  shows "null_free A" and "\<forall>x \<in> set xs. x \<noteq> a_null A"
    and "layers_ok A (leaf_height t) (depth_of t) xs (layers t)"
    and "layers t \<noteq> []" and "length (layers t ! 0) = length xs"
    and "length (layers t) = tree_depth (depth_of t) (length xs)"
proof -
  from assms show nf: "null_free A" "\<forall>x \<in> set xs. x \<noteq> a_null A"
    and ok: "layers_ok A (leaf_height t) (depth_of t) xs (layers t)" by (simp_all add: tree_inv_def)
  from layers_okD(1) [OF ok] show "length (layers t) = tree_depth (depth_of t) (length xs)" .
  then have "0 < length (layers t)" by simp
  then show "layers t \<noteq> []" by auto
  from layers_okD(2) [OF ok \<open>0 < length (layers t)\<close>] show "length (layers t ! 0) = length xs" by simp
qed

lemma tree_inv_leaves [simp]: "tree_inv A t xs \<Longrightarrow> amt_leaves t = Ok (length xs)"
  using tree_invD(4,5) [of A t xs] by (simp add: amt_leaves_def amt_layer_len_def vec_index_def)

lemma append_list_inv:
  assumes inv: "tree_inv A t xs" and ys: "ys \<noteq> []" "\<forall>y \<in> set ys. y \<noteq> a_null A"
  shows "\<exists>ls'. append_list A t ys = Ok (t\<lparr>layers := ls'\<rparr>) \<and> tree_inv A (t\<lparr>layers := ls'\<rparr>) (xs @ ys)
           \<and> ls' ! 0 = layers t ! 0 @ ys \<and> extends_version (layers t) ls'"
proof -
  note I = tree_invD [OF inv]
  have left: "layers t ! k ! (length xs div 2 ^ k - 1) \<noteq> a_null A"
    if "k < length (layers t)" "odd (length xs div 2 ^ k)" for k
    using path_index_known [OF I(3) that] .
  have "append_list A t ys =
      recompute_after_append A (set_layer 0 (take (length xs) (layers t ! 0) @ ys) t) (length xs)"
    using I(4,5) by (simp add: append_list_def vec_index_def)
  with extend_leaves [OF inv _ _ _ ys _ left, of "xs @ ys"] I(5) show ?thesis by auto
qed

lemma append_leaf_eq: "append_leaf A t x = append_list A t [x]"
  by (simp add: append_leaf_def append_list_def)

text \<open>
  \<open>update_last\<close> overwrites the last leaf. The nodes above it are recomputed only if the left
  siblings on its path are known; this is so when the leaf was itself appended as a leaf.
\<close>

definition last_path_known :: "'e algo \<Rightarrow> 'e amt \<Rightarrow> nat \<Rightarrow> bool" where
  "last_path_known A t n \<longleftrightarrow>
     (\<forall>k < length (layers t). odd ((n - 1) div 2 ^ k) \<longrightarrow>
        layers t ! k ! ((n - 1) div 2 ^ k - 1) \<noteq> a_null A)"

lemma update_last_inv:
  assumes inv: "tree_inv A t (xs @ [x])" and y: "y \<noteq> a_null A"
    and path: "last_path_known A t (length (xs @ [x]))"
  shows "\<exists>ls'. update_last A t y = Ok (t\<lparr>layers := ls'\<rparr>) \<and> tree_inv A (t\<lparr>layers := ls'\<rparr>) (xs @ [y])
           \<and> ls' ! 0 = take (length xs) (layers t ! 0) @ [y] \<and> extends_version (layers t) ls'"
proof -
  note I = tree_invD [OF inv]
  have len: "length (layers t ! 0) = Suc (length xs)" using I(5) by simp
  have upd: "(layers t ! 0)[length xs := y] = take (length xs) (layers t ! 0) @ [y]"
    using len by (simp add: upd_conv_take_nth_drop)
  have "update_last A t y =
      recompute_after_append A (set_layer 0 (take (length xs) (layers t ! 0) @ [y]) t) (length xs)"
    using I(4) len upd by (cases "layers t ! 0 = []") (auto simp: update_last_def vec_index_def Let_def)
  moreover have "layers t ! k ! (length xs div 2 ^ k - 1) \<noteq> a_null A"
    if "k < length (layers t)" "odd (length xs div 2 ^ k)" for k
    using path that by (simp add: last_path_known_def)
  ultimately show ?thesis
    using extend_leaves [OF inv, of "length xs" "xs @ [y]" "[y]"] y by auto
qed

lemma update_last_empty:
  assumes "tree_inv A t []"
  shows "update_last A t y = append_list A t [y]"
  using tree_invD(4,5) [OF assms] by (simp add: update_last_def append_list_def vec_index_def)

subsection \<open>Appending a subtree\<close>

lemma apply_updates_nulls:
  "i + m \<le> length layer \<Longrightarrow> apply_updates A i (replicate m (a_null A)) layer lc = Ok (layer, lc)"
  by (induction m arbitrary: i) auto

lemma fold_extend_null:
  "j \<le> K \<Longrightarrow> 0 < length ls \<Longrightarrow>
     (let ls' = fold (extend_null A (Suc K)) [0..<j] ls in
        length ls' = max (length ls) j \<and>
        (\<forall>k < length ls'. ls' ! k = (if k < j then lay ls k @ replicate (2 ^ (K - k)) (a_null A) else ls ! k)))"
proof (induction j)
  case (Suc j)
  define ls' where "ls' = fold (extend_null A (Suc K)) [0..<j] ls"
  from Suc have len: "length ls' = max (length ls) j"
    and nth: "\<And>k. k < length ls' \<Longrightarrow> ls' ! k = (if k < j then lay ls k @ replicate (2 ^ (K - k)) (a_null A) else ls ! k)"
    by (auto simp: Let_def ls'_def)
  have step: "fold (extend_null A (Suc K)) [0..<Suc j] ls = extend_null A (Suc K) j ls'"
    by (simp add: ls'_def)
  show ?case
    unfolding step Let_def using len nth Suc.prems
    by (auto simp: extend_null_def before_extend_layer_def Let_def nth_append nth_list_update lay_def less_Suc_eq)
qed simp

text \<open>The layers after \<open>append_subtree_inner\<close>: \<open>K\<close> is the layer of the subtree's root.\<close>

definition with_subtree :: "'e algo \<Rightarrow> nat \<Rightarrow> 'e \<Rightarrow> 'e list list \<Rightarrow> 'e list list \<Rightarrow> bool" where
  "with_subtree A K r ls ls' \<longleftrightarrow>
     length ls' = max (length ls) (Suc K) \<and>
     (\<forall>k < length ls'. ls' ! k = lay ls k @
        (if k < K then replicate (2 ^ (K - k)) (a_null A) else if k = K then [r] else []))"

lemma append_subtree_inner_Ok:
  assumes "layers t \<noteq> []" and "2 ^ K dvd length (layers t ! 0)"
  shows "\<exists>ls'. append_subtree_inner A t (Suc K) r = Ok (t\<lparr>layers := ls'\<rparr>) \<and>
           with_subtree A K r (layers t) ls'"
proof -
  define ls where "ls = fold (extend_null A (Suc K)) [0..<K] (layers t)"
  define ls1 where "ls1 = before_extend_layer K ls"
  have len: "length ls = max (length (layers t)) K"
    and nth: "\<And>k. k < length ls \<Longrightarrow>
      ls ! k = (if k < K then lay (layers t) k @ replicate (2 ^ (K - k)) (a_null A) else layers t ! k)"
    using fold_extend_null [of K K "layers t" A] assms(1) by (auto simp: Let_def ls_def)
  have len1: "length ls1 = max (length (layers t)) (Suc K)"
    using len by (auto simp: ls1_def before_extend_layer_def)
  have nth1: "ls1 ! k = (if k < K then lay (layers t) k @ replicate (2 ^ (K - k)) (a_null A) else lay (layers t) k)"
    if "k < length ls1" for k
    using that nth [of k] len
    by (cases "length (layers t) \<le> K") (auto simp: ls1_def before_extend_layer_def nth_append lay_def)
  have "with_subtree A K r (layers t) (ls1[K := ls1 ! K @ [r]])"
    unfolding with_subtree_def using len1 nth1 by (auto simp: nth_list_update)
  moreover have "append_subtree_inner A t (Suc K) r = Ok (t\<lparr>layers := ls1[K := ls1 ! K @ [r]]\<rparr>)"
    using assms by (simp add: append_subtree_inner_def amt_leaves_def amt_layer_len_def vec_index_def
        ls_def ls1_def Let_def dvd_eq_mod_eq_0)
  ultimately show ?thesis by blast
qed

lemma chunk_parents_nulls:
  "chunk_parents A h (replicate (2 * m) (a_null A)) = replicate m (a_null A)"
  by (induction m) (simp_all add: node_parent_def)

text \<open>Below the subtree's root the loop passes the unknown nodes without a change.\<close>

lemma recompute_layer_nulls:
  assumes j: "Suc j < length ls" and s: "even s"
    and at: "ls ! j = P @ replicate (2 * m) (a_null A)" "length P = s" "0 < m"
    and above: "s div 2 + m \<le> length (ls ! Suc j)"
  shows "recompute_layer A h ls j s None = Ok (ls, s div 2, None)"
proof -
  have len: "length (ls ! j) = s + 2 * m" using at by simp
  have "slice_index (ls ! j) s (s + 2 * m) = Ok (replicate (2 * m) (a_null A))"
    using at by (simp add: slice_index_def slice_def)
  then show ?thesis
    using j s at(3) above
    by (simp add: recompute_layer_def Let_def len chunk_parents_nulls apply_updates_nulls
        before_extend_layer_def)
qed

lemma recompute_subtree_below:
  assumes sub: "with_subtree A K r ls ls'" and "j \<le> K" and dvd: "2 ^ K dvd n"
    and len: "\<And>k. k \<le> K \<Longrightarrow> length (lay ls k) = n div 2 ^ k"
  shows "recompute_loop A h ls' j (n div 2 ^ j) None = recompute_loop A h ls' K (n div 2 ^ K) None"
  using \<open>j \<le> K\<close>
proof (induction j rule: inc_induct)
  case (step j)
  note at = sub [unfolded with_subtree_def]
  have jl: "Suc j < length ls'" using at step(2) by simp
  have pow: "(2::nat) ^ (K - j) = 2 * 2 ^ (K - Suc j)" using step(2) by (simp add: Suc_diff_Suc flip: power_Suc)
  have ev: "even (n div 2 ^ j)"
  proof -
    have "(2::nat) ^ Suc j dvd 2 ^ K" using step(2) by (intro le_imp_power_dvd) simp
    then have "2 * 2 ^ j dvd n" using dvd by (metis dvd_trans power_Suc)
    then show ?thesis by (rule dvd_mult_imp_div)
  qed
  have "recompute_layer A h ls' j (n div 2 ^ j) None = Ok (ls', n div 2 ^ j div 2, None)"
  proof (rule recompute_layer_nulls [OF jl ev, of "lay ls j" "2 ^ (K - Suc j)"])
    show "ls' ! j = lay ls j @ replicate (2 * 2 ^ (K - Suc j)) (a_null A)"
      using at jl step(2) pow by simp
    show "n div 2 ^ j div 2 + 2 ^ (K - Suc j) \<le> length (ls' ! Suc j)"
      using at jl step(2) len [of "Suc j"] div_pow_Suc [of n j] by (cases "Suc j = K") simp_all
  qed (use len step(2) in auto)
  then show ?case
    using step(3) jl by (subst recompute_loop.simps) (auto simp: div_pow_Suc simp del: power_Suc)
qed simp

lemma layer_size_exact: "2 ^ k dvd n \<Longrightarrow> layer_size n k = n div 2 ^ k"
proof -
  assume "2 ^ k dvd n"
  then obtain q where q: "n = 2 ^ k * q" by blast
  have "i < layer_size n k \<longleftrightarrow> i < n div 2 ^ k" for i
    using q by (simp add: layer_size_bound mult.commute)
  then show ?thesis by (metis linorder_neqE_nat less_irrefl)
qed

lemma pair_up_append: "even (length l) \<Longrightarrow> pair_up A h (l @ m) = pair_up A h l @ pair_up A h m"
  by (induction A h l rule: pair_up.induct) auto

lemma layer_at_append:
  "2 ^ k dvd length xs \<Longrightarrow> layer_at A h (xs @ ys) k = layer_at A h xs k @ layer_at A h ys k"
proof (induction k)
  case (Suc k)
  then have dvd: "2 * 2 ^ k dvd length xs" by simp
  then have k: "2 ^ k dvd length xs" by (rule dvd_mult_right)
  have "even (length xs div 2 ^ k)" using dvd by (rule dvd_mult_imp_div)
  with Suc.IH k show ?case by (simp add: pair_up_append layer_size_exact)
qed simp

lemma lay_bounds:
  assumes ok: "layers_ok A h d xs ls"
  shows "length xs div 2 ^ k \<le> length (lay ls k)" and "length (lay ls k) \<le> length xs div 2 ^ k + 1"
proof -
  note L = layers_okD [OF ok]
  show "length xs div 2 ^ k \<le> length (lay ls k)"
    using L(1) L(2) [of k] layer_size_ge [of "length xs" k] div_pow_pos_depth [of "length xs" k d]
    by (cases "k < length ls") (auto simp: lay_def)
  show "length (lay ls k) \<le> length xs div 2 ^ k + 1"
    using L(2) [of k] layer_size_mono [of "length xs" "Suc (length xs)" k]
    by (cases "k < length ls") (auto simp: lay_def layer_size_Suc)
qed

lemma lay_exact:
  assumes ok: "layers_ok A h d xs ls" and "2 ^ k dvd length xs"
  shows "length (lay ls k) = length xs div 2 ^ k"
  using layers_okD(2) [OF ok, of k] layer_size_exact [OF assms(2)] lay_bounds(1) [OF ok, of k]
  by (cases "k < length ls") (auto simp: lay_def)

lemma lay_left_known:
  assumes ok: "layers_ok A h d xs ls" and "length xs \<le> length xs'" "take (length xs) xs' = xs"
    and odd: "odd (length xs div 2 ^ k)"
  shows "left_known A h xs' k (lay ls k @ l) (length xs div 2 ^ k)"
proof -
  let ?q = "length xs div 2 ^ k"
  from odd have q: "?q - 1 < ?q" "0 < ?q" by (cases ?q; auto)+
  have k: "k < length ls" using div_pow_pos_depth [OF q(2), of d] layers_okD(1) [OF ok] by simp
  have lt: "?q - 1 < layer_size (length xs) k" using q layer_size_ge [of "length xs" k] by linarith
  have "layer_at A h xs' k ! (?q - 1) = layer_at A h xs k ! (?q - 1)"
    by (rule layer_at_prefix [of "length xs"]) (use assms(2,3) q in auto)
  moreover have "ls ! k ! (?q - 1) \<noteq> a_null A" by (rule path_index_known [OF ok k odd])
  ultimately show ?thesis
    using layers_okD(2,3) [OF ok k] lt k by (auto simp: left_known_def nth_append)
qed

lemma extending_subtree:
  assumes ok: "layers_ok A h d xs ls" and nf: "null_free A"
    and dvd: "2 ^ K dvd length xs" and ys: "length ys = 2 ^ K" "\<forall>y \<in> set ys. y \<noteq> a_null A"
    and sub: "with_subtree A K (layer_at A h ys K ! 0) ls ls'"
  shows "extending A h d (xs @ ys) ls' K (length xs div 2 ^ K)"
proof -
  let ?n = "length xs" and ?r = "layer_at A h ys K ! 0"
  note S = sub [unfolded with_subtree_def, THEN conjunct1] sub [unfolded with_subtree_def, THEN conjunct2, rule_format]
  note L = layers_okD [OF ok]
  have one: "layer_size (2 ^ K) K = 1" by (simp add: layer_size_exact)
  have r: "?r \<noteq> a_null A" using layer_at_not_null [OF nf ys(2), of 0 K] ys(1) one by simp
  have "length (layer_at A h ys K) = 1" using ys(1) one by simp
  then have ysK: "layer_at A h ys K = [?r]" by (cases "layer_at A h ys K") auto
  have lenK: "length (lay ls K) = ?n div 2 ^ K" by (rule lay_exact [OF ok dvd])
  have K: "K < length ls'" "ls' ! K = lay ls K @ [?r]" using S(1) S(2) [of K] by auto
  have atK: "layer_at A h (xs @ ys) K = layer_at A h xs K @ [?r]"
    using layer_at_append [OF dvd] ysK by simp
  have sizeK: "layer_size (length (xs @ ys)) K = ?n div 2 ^ K + 1"
    using dvd ys(1) by (subst layer_size_exact) auto
  have depth: "length ls' \<le> tree_depth d (length (xs @ ys))" "d \<le> length ls'"
  proof -
    have "K < tree_depth d (length (xs @ ys))" using ys(1) by (intro div_pow_pos_depth) (simp add: div_greater_zero_iff)
    with S(1) L(1) tree_depth_mono [of ?n "length (xs @ ys)" d]
    show "length ls' \<le> tree_depth d (length (xs @ ys))" by simp
    show "d \<le> length ls'" using S(1) L(1) tree_depth_ge [of d ?n] by simp
  qed
  have sib: "left_known A h (xs @ ys) k (ls' ! k) (?n div 2 ^ K div 2 ^ (k - K))"
    if "K \<le> k" "k < length ls'" for k
    using lay_left_known [OF ok, of "xs @ ys" k] S(2) [OF that(2)] that(1)
    by (cases "odd (?n div 2 ^ k)") (auto simp: left_known_def div_pow_diff)
  have above: "?n div 2 ^ K div 2 ^ (k - K) \<le> length (ls' ! k) \<and> length (ls' ! k) \<le> ?n div 2 ^ K div 2 ^ (k - K) + 1"
    if "K < k" "k < length ls'" for k
    using lay_bounds [OF ok, of k] S(2) [OF that(2)] that(1) by (simp add: div_pow_diff)
  have top: "?n div 2 ^ K div 2 ^ (length ls' - K) = 0"
    using div_pow_pos_depth [of ?n "length ls'" d] S(1) L(1) K(1) by (simp add: div_pow_diff del: div_eq_0_iff) auto
  have xsK: "length (layer_at A h xs K) = ?n div 2 ^ K" using dvd by (simp add: layer_size_exact)
  show ?thesis
    unfolding extending_def
    by (intro conjI allI impI depth sib above top K(1)) (use K(2) lenK sizeK atK xsK r in simp_all)
qed

lemma append_subtree_inv:
  assumes inv: "tree_inv A t xs" and dvd: "2 ^ K dvd length xs"
    and ys: "length ys = 2 ^ K" "\<forall>y \<in> set ys. y \<noteq> a_null A"
  shows "\<exists>ls'. append_subtree A t (Suc K) (layer_at A (leaf_height t) ys K ! 0) = Ok (t\<lparr>layers := ls'\<rparr>)
           \<and> tree_inv A (t\<lparr>layers := ls'\<rparr>) (xs @ ys) \<and> extends_version (layers t) ls'"
proof -
  let ?h = "leaf_height t" and ?d = "depth_of t" and ?n = "length xs" and ?xs = "xs @ ys"
  let ?r = "layer_at A ?h ys K ! 0" and ?D = "tree_depth (depth_of t) (length (xs @ ys))"
  note I = tree_invD [OF inv]
  have dvdk: "2 ^ k dvd ?n" if "k \<le> K" for k
    using dvd le_imp_power_dvd [OF that, of "2::nat"] by (rule dvd_trans [rotated])
  from append_subtree_inner_Ok [OF I(4), of K A ?r] dvd I(5)
  obtain ls where inner: "append_subtree_inner A t (Suc K) ?r = Ok (t\<lparr>layers := ls\<rparr>)"
    and sub: "with_subtree A K ?r (layers t) ls" by auto
  note S = sub [unfolded with_subtree_def, THEN conjunct1] sub [unfolded with_subtree_def, THEN conjunct2, rule_format]
  note ext = extending_subtree [OF I(3,1) dvd ys sub]
  from recompute_extend [OF I(1) ext, of None]
  obtain ls' where run: "recompute_loop A ?h ls K (?n div 2 ^ K) None = Ok ls'" and len': "length ls' = ?D"
    and below: "\<And>k. k < K \<Longrightarrow> ls' ! k = ls ! k"
    and nth: "\<And>k. K \<le> k \<Longrightarrow> k < ?D \<Longrightarrow> ls' ! k = extend_layer (?n div 2 ^ k) (lay ls k) (layer_at A ?h ?xs k)"
    by (auto simp: div_pow_diff)
  have "recompute_loop A ?h ls 0 (?n div 2 ^ 0) None = Ok ls'"
    using recompute_subtree_below [OF sub le0 dvd lay_exact [OF I(3) dvdk]] run by simp
  moreover have "amt_leaves t = Ok ?n" using inv by simp
  ultimately have app: "append_subtree A t (Suc K) ?r = Ok (t\<lparr>layers := ls'\<rparr>)"
    using inner by (simp add: append_subtree_def recompute_after_append_def recompute_def)
  have K: "K < ?D" using ys(1) by (intro div_pow_pos_depth) (simp add: div_greater_zero_iff)
  have nn: "\<forall>x \<in> set ?xs. x \<noteq> a_null A" using I(2) ys(2) by auto
  have g: "grown A ?h ?n K xs (layers t) ?xs ls'"
    unfolding grown_def
  proof (intro conjI allI impI)
    fix k assume k: "k < length ls'"
    note lb = lay_bounds [OF I(3), of k]
    have small: "?n div 2 ^ k \<le> layer_size (length ?xs) k"
      using layer_size_ge [of "length ?xs" k] div_le_mono [of ?n "length ?xs" "2 ^ k"] by simp
    have lo: "ls' ! k = lay (layers t) k @ replicate (2 ^ (K - k)) (a_null A)" "length (lay (layers t) k) = ?n div 2 ^ k"
      "layer_size (length ?xs) k = ?n div 2 ^ k + 2 ^ (K - k)" if "k < K"
    proof -
      show "ls' ! k = lay (layers t) k @ replicate (2 ^ (K - k)) (a_null A)" using that below S(1) S(2) [of k] by simp
      show "length (lay (layers t) k) = ?n div 2 ^ k" by (rule lay_exact [OF I(3) dvdk]) (use that in simp)
      have "(2::nat) ^ K = 2 ^ k * 2 ^ (K - k)" using that by (simp add: power_add [symmetric])
      with dvdk [of k] that ys(1) show "layer_size (length ?xs) k = ?n div 2 ^ k + 2 ^ (K - k)"
        by (subst layer_size_exact) auto
    qed
    have hi: "ls' ! k = take (?n div 2 ^ k) (lay (layers t) k) @ drop (?n div 2 ^ k) (layer_at A ?h ?xs k)" if "K \<le> k"
    proof -
      have "take (?n div 2 ^ k) (lay ls k) = take (?n div 2 ^ k) (lay (layers t) k)"
        using S lb(1) that by (cases "k < length ls") (auto simp: lay_def)
      with nth [OF that] k len' show ?thesis by (simp add: extend_layer_def)
    qed
    show "length (ls' ! k) = layer_size (length ?xs) k"
      using lo hi lb small by (cases "k < K") auto
    show "ls' ! k ! i = layers t ! k ! i" if "i < ?n div 2 ^ k" for i
      using lo hi lb that by (cases "k < K") (auto simp: nth_append lay_def split: if_splits)
    show "ls' ! k ! i = (if K \<le> k then layer_at A ?h ?xs k ! i else a_null A)"
      if "i < layer_size (length ?xs) k" "?n div 2 ^ k \<le> i" for i
      using lo hi lb that by (cases "k < K") (auto simp: nth_append)
  qed (use K dvd ys len' in auto)
  have "extends_version (layers t) ls'"
    by (rule grown_extends [OF I(3) g]) (use len' I(6) tree_depth_mono [of ?n "length ?xs"] in simp_all)
  with layers_ok_grow [OF I(3,1) nn len' g] app I(1) nn show ?thesis
    by (auto simp: tree_inv_def depth_of_def)
qed

end
