(* ===== verification/Append_Merkle_Fill.thy ===== *)
theory Append_Merkle_Fill
  imports Append_Merkle_Laws
begin

text \<open>
  The second use of the loop \<open>recompute\<close>: after \<open>fill_leaf\<close> replaced an unknown leaf by its
  value, the nodes above are recomputed as far as they have become known. \<open>recompute_refine\<close>
  says that the loop never fails on a tree that agrees with the reference, that it only turns
  unknown nodes into the reference's, and that afterwards a node with known children is known
  again. The root and the fully known tree are at the end.
\<close>

subsection \<open>One layer\<close>

definition children_known :: "'e algo \<Rightarrow> nat \<Rightarrow> 'e list list \<Rightarrow> nat \<Rightarrow> nat \<Rightarrow> bool" where
  "children_known A n ls k i \<longleftrightarrow>
     ls ! k ! (2 * i) \<noteq> a_null A \<and> (2 * i + 1 < layer_size n k \<longrightarrow> ls ! k ! (2 * i + 1) \<noteq> a_null A)"

lemma closed_up_iff:
  "closed_up A xs ls \<longleftrightarrow>
     (\<forall>k. Suc k < length ls \<longrightarrow> (\<forall>i < layer_size (length xs) (Suc k).
        children_known A (length xs) ls k i \<longrightarrow> ls ! Suc k ! i \<noteq> a_null A))"
  by (auto simp: closed_up_def children_known_def)

lemma chunk_parents_window:
  fixes xs :: "'e list" and ls :: "'e list list"
  assumes kn: "knows A h xs ls" and j: "j < length ls"
    and e': "e' \<le> layer_size (length xs) j" "even e' \<or> e' = layer_size (length xs) j"
    and m: "2 * (p + m) < e'"
  shows "chunk_parents A (j + h) (slice (ls ! j) (2 * p) e') ! m =
           (if children_known A (length xs) ls j (p + m) then layer_at A h xs (Suc j) ! (p + m) else a_null A)"
proof -
  let ?L = "layer_size (length xs) j" and ?l = "ls ! j" and ?i = "p + m"
  from kn j have len: "length ?l = ?L"
    and val: "\<And>i. i < ?L \<Longrightarrow> ?l ! i = a_null A \<or> ?l ! i = layer_at A h xs j ! i" by (auto simp: knows_def)
  have size: "length (slice ?l (2 * p) e') = e' - 2 * p" using len e' by simp
  have at: "slice ?l (2 * p) e' ! (2 * m) = ?l ! (2 * ?i)"
    using m len e' by (subst nth_slice) (auto simp: algebra_simps)
  have at1: "slice ?l (2 * p) e' ! (2 * m + 1) = ?l ! (2 * ?i + 1)" if "2 * ?i + 1 < e'"
    using that len e' by (subst nth_slice) (auto simp: algebra_simps)
  have pair: "2 * m + 1 < e' - 2 * p \<longleftrightarrow> 2 * ?i + 1 < ?L" "2 * ?i + 1 < e' \<longleftrightarrow> 2 * ?i + 1 < ?L"
    using m e' by presburger+
  have up: "?i < layer_size (length xs) (Suc j)" using m e'(1) by simp
  have "chunk_parents A (j + h) (slice ?l (2 * p) e') ! m =
      (if 2 * ?i + 1 < ?L then node_parent A (?l ! (2 * ?i)) (?l ! (2 * ?i + 1))
       else single_parent A (?l ! (2 * ?i)) (j + h))"
    using m pair at at1 by (subst nth_chunk_parents) (simp_all only: size, auto)
  also have "\<dots> = (if children_known A (length xs) ls j ?i then layer_at A h xs (Suc j) ! ?i else a_null A)"
    unfolding nth_layer_at_Suc [OF up]
    using val [of "2 * ?i"] val [of "2 * ?i + 1"] m e'(1)
    by (auto simp: children_known_def node_parent_def single_parent_def)
  finally show ?thesis .
qed

lemma recompute_layer_refine:
  fixes xs :: "'e list" and ls :: "'e list list"
  defines "n \<equiv> length xs"
  assumes nf: "null_free A" and kn: "knows A h xs ls" and j: "Suc j < length ls"
    and s: "s < e" "e \<le> layer_size n j" and me: "me = None \<and> e = layer_size n j \<or> me = Some e"
  shows "\<exists>l' me'. recompute_layer A h ls j s me = Ok (ls[Suc j := l'], s div 2, me') \<and>
           length l' = layer_size n (Suc j) \<and>
           (\<forall>i < layer_size n (Suc j). l' ! i =
              (if s div 2 \<le> i \<and> 2 * i < e \<and> children_known A n ls j i
               then layer_at A h xs (Suc j) ! i else ls ! Suc j ! i)) \<and>
           (me' = None \<and> (\<forall>i. s div 2 \<le> i \<longrightarrow> 2 * i < e \<longrightarrow> \<not> children_known A n ls j i) \<or>
            (\<exists>m. me' = Some (Suc m) \<and> s div 2 \<le> m \<and> m < layer_size n (Suc j) \<and>
               (\<forall>i. m < i \<longrightarrow> 2 * i < e \<longrightarrow> \<not> children_known A n ls j i)))"
proof -
  let ?L = "layer_size n j" and ?up = "ls ! Suc j" and ?p = "s div 2"
  define e' where "e' = (if odd e \<and> e \<noteq> ?L then e + 1 else e)"
  have e': "e' \<le> ?L" "even e' \<or> e' = ?L" "2 * i < e' \<longleftrightarrow> 2 * i < e" for i
    using s(2) by (auto simp: e'_def) presburger+
  from kn j have len: "length (ls ! j) = ?L" "length ?up = layer_size n (Suc j)"
    and val: "\<And>i. i < layer_size n (Suc j) \<Longrightarrow> ?up ! i = a_null A \<or> ?up ! i = layer_at A h xs (Suc j) ! i"
    by (auto simp: knows_def n_def simp del: layer_at.simps layer_size.simps)
  define ps where "ps = chunk_parents A (j + h) (slice (ls ! j) (2 * ?p) e')"
  have start: "(if odd s then s - 1 else s) = 2 * ?p" by (auto elim: oddE)
  have lenps: "m < length ps \<longleftrightarrow> 2 * (?p + m) < e" for m
    unfolding e'(3) [symmetric] using len e'(1) by (auto simp: ps_def)
  have nth_ps: "ps ! m = (if children_known A n ls j (?p + m) then layer_at A h xs (Suc j) ! (?p + m) else a_null A)"
    if "m < length ps" for m
    unfolding ps_def n_def
    by (rule chunk_parents_window [OF kn _ e'(1,2) [unfolded n_def]])
      (use j lenps [of m] that e'(3) [of "?p + m"] in simp_all)
  have known: "layer_at A h xs (Suc j) ! i \<noteq> a_null A" if "i < layer_size n (Suc j)" for i
    using that by (auto simp: n_def intro!: pair_up_not_null [OF nf] nth_mem)
  have fit: "?p + m < layer_size n (Suc j)" if "m < length ps" for m
    using lenps [of m] that s(2) by simp
  have ne: "0 < length ps" using lenps [of 0] s(1) by simp
  then have fits: "?p + length ps \<le> length ?up"
    using fit [of "length ps - 1"] len(2) by simp
  have agree: "ps ! m = a_null A \<or> ?up ! (?p + m) = a_null A \<or> ?up ! (?p + m) = ps ! m" if "m < length ps" for m
    using nth_ps [OF that] val [OF fit [OF that]] by auto
  from apply_updates_refine [OF fits agree, of None]
  obtain l' lc where run: "apply_updates A ?p ps ?up None = Ok (l', lc)" and len': "length l' = length ?up"
    and l': "\<forall>m < length ?up. l' ! m = (if ?p \<le> m \<and> m < ?p + length ps \<and> ps ! (m - ?p) \<noteq> a_null A
                                       then ps ! (m - ?p) else ?up ! m)"
    and lc: "(lc = None \<and> (\<forall>p \<in> set ps. p = a_null A)) \<or>
              (\<exists>m. lc = Some m \<and> ?p \<le> m \<and> m < ?p + length ps \<and>
                   (\<forall>m'. m - ?p < m' \<longrightarrow> m' < length ps \<longrightarrow> ps ! m' = a_null A))"
    by auto
  have in_win: "?p \<le> i \<and> i < ?p + length ps \<longleftrightarrow> ?p \<le> i \<and> 2 * i < e" for i
    using lenps [of "i - ?p"] by auto
  have nullps: "ps ! (i - ?p) = a_null A \<longleftrightarrow> \<not> children_known A n ls j i"
    if "?p \<le> i" "2 * i < e" for i
    using nth_ps [of "i - ?p"] known [of i] fit [of "i - ?p"] lenps [of "i - ?p"] that by auto
  have vals: "l' ! i = (if ?p \<le> i \<and> 2 * i < e \<and> children_known A n ls j i
        then layer_at A h xs (Suc j) ! i else ?up ! i)" if "i < layer_size n (Suc j)" for i
    using l' [rule_format, of i] that len(2) in_win [of i] nullps [of i] nth_ps [of "i - ?p"] lenps [of "i - ?p"]
    by (auto split: if_splits)
  have marks: "lc = None \<and> (\<forall>i. ?p \<le> i \<longrightarrow> 2 * i < e \<longrightarrow> \<not> children_known A n ls j i) \<or>
      (\<exists>m. lc = Some m \<and> ?p \<le> m \<and> m < layer_size n (Suc j) \<and>
         (\<forall>i. m < i \<longrightarrow> 2 * i < e \<longrightarrow> \<not> children_known A n ls j i))"
    using lc
  proof (elim disjE exE conjE)
    assume "lc = None" "\<forall>p \<in> set ps. p = a_null A"
    with nullps lenps show ?thesis by (metis le_add_diff_inverse nth_mem)
  next
    fix m assume m: "lc = Some m" "?p \<le> m" "m < ?p + length ps"
      "\<forall>m'. m - ?p < m' \<longrightarrow> m' < length ps \<longrightarrow> ps ! m' = a_null A"
    have "\<not> children_known A n ls j i" if "m < i" "2 * i < e" for i
      using m(2,4) that nullps [of i] lenps [of "i - ?p"] by auto
    with m fits len(2) show ?thesis by (metis less_le_trans)
  qed
  have slice: "slice_index (ls ! j) (2 * ?p) e' = Ok (slice (ls ! j) (2 * ?p) e')"
    using s e'(1) len(1) e'(3) [of ?p] by (auto simp: slice_index_def)
  have end_index: "(case me of None \<Rightarrow> ?L | Some e \<Rightarrow> e) = e" using me by auto
  have layer: "before_extend_layer (j + 1) ls = ls" using j by (simp add: before_extend_layer_def)
  have "ps \<noteq> []" using ne by simp
  then have run': "recompute_layer A h ls j s me = Ok (ls[Suc j := l'], ?p, map_option Suc lc)"
    unfolding recompute_layer_def Let_def start len(1) end_index e'_def [symmetric] slice rbind.simps
      ps_def [symmetric] layer
    using run by simp
  have marks': "map_option Suc lc = None \<and> (\<forall>i. ?p \<le> i \<longrightarrow> 2 * i < e \<longrightarrow> \<not> children_known A n ls j i) \<or>
      (\<exists>m. map_option Suc lc = Some (Suc m) \<and> ?p \<le> m \<and> m < layer_size n (Suc j) \<and>
         (\<forall>i. m < i \<longrightarrow> 2 * i < e \<longrightarrow> \<not> children_known A n ls j i))"
    using marks by auto
  have size': "length l' = layer_size n (Suc j)" using len' len(2) by simp
  show ?thesis
    by (rule exI [of _ l'], rule exI [of _ "map_option Suc lc"])
      (intro conjI allI impI run' vals marks' size')
qed

subsection \<open>The loop after a fill\<close>

text \<open>All nodes whose children are known are known, except parents of the nodes from \<open>s\<close> to
  \<open>e\<close> of layer \<open>j\<close>, which the loop is about to visit.\<close>

definition closed_but ::
  "'e algo \<Rightarrow> nat \<Rightarrow> 'e list list \<Rightarrow> nat \<Rightarrow> nat \<Rightarrow> nat \<Rightarrow> bool" where
  "closed_but A n ls j s e \<longleftrightarrow>
     (\<forall>k i. Suc k < length ls \<longrightarrow> i < layer_size n (Suc k) \<longrightarrow> children_known A n ls k i \<longrightarrow>
        ls ! Suc k ! i \<noteq> a_null A \<or> k = j \<and> s div 2 \<le> i \<and> 2 * i < e)"

lemma closed_but_top: "Suc j \<ge> length ls \<Longrightarrow> closed_but A (length xs) ls j s e \<Longrightarrow> closed_up A xs ls"
  by (fastforce simp: closed_but_def closed_up_iff)

definition refines :: "'e algo \<Rightarrow> nat \<Rightarrow> 'e list list \<Rightarrow> 'e list list \<Rightarrow> bool" where
  "refines A n ls ls' \<longleftrightarrow>
     length ls' = length ls \<and>
     (\<forall>k < length ls. \<forall>i < layer_size n k. ls ! k ! i \<noteq> a_null A \<longrightarrow> ls' ! k ! i \<noteq> a_null A)"

lemma refines_refl [simp]: "refines A n ls ls"
  by (simp add: refines_def)

lemma refines_trans: "refines A n ls ls' \<Longrightarrow> refines A n ls' ls'' \<Longrightarrow> refines A n ls ls''"
  by (simp add: refines_def)

lemma refine_step:
  fixes xs :: "'e list" and ls :: "'e list list"
  defines "n \<equiv> length xs"
  assumes nf: "null_free A" and kn: "knows A h xs ls" and j: "Suc j < length ls"
    and cb: "closed_but A n ls j s e"
    and l': "length l' = layer_size n (Suc j)"
      "\<forall>i < layer_size n (Suc j). l' ! i =
         (if s div 2 \<le> i \<and> 2 * i < e \<and> children_known A n ls j i
          then layer_at A h xs (Suc j) ! i else ls ! Suc j ! i)"
    and e': "\<And>i. s div 2 \<le> i \<Longrightarrow> 2 * i < e \<Longrightarrow> children_known A n ls j i \<Longrightarrow> i < e'"
  shows "knows A h xs (ls[Suc j := l'])" and "refines A n ls (ls[Suc j := l'])"
    and "closed_but A n (ls[Suc j := l']) (Suc j) (s div 2) e'"
proof -
  let ?ls = "ls[Suc j := l']"
  have known: "layer_at A h xs (Suc j) ! i \<noteq> a_null A" if "i < layer_size n (Suc j)" for i
    using that by (auto simp: n_def intro!: pair_up_not_null [OF nf] nth_mem)
  have at: "?ls ! k = (if k = Suc j then l' else ls ! k)" for k using j by simp
  have newval: "l' ! i = ls ! Suc j ! i \<or> l' ! i = layer_at A h xs (Suc j) ! i" if "i < layer_size n (Suc j)" for i
    using l'(2) that by (simp del: layer_size.simps layer_at.simps)
  show "knows A h xs ?ls"
    unfolding knows_def n_def [symmetric]
  proof (intro allI impI conjI)
    fix k assume k: "k < length ?ls"
    show "length (?ls ! k) = layer_size n k" using kn k l'(1) at [of k] by (simp add: knows_def n_def)
    fix i assume i: "i < layer_size n k"
    have "ls ! k ! i = a_null A \<or> ls ! k ! i = layer_at A h xs k ! i" using kn k i by (simp add: knows_def n_def)
    with newval [of i] i at [of k] show "?ls ! k ! i = a_null A \<or> ?ls ! k ! i = layer_at A h xs k ! i"
      by (cases "k = Suc j") (auto simp del: layer_size.simps layer_at.simps)
  qed
  show "refines A n ls ?ls"
    unfolding refines_def
  proof (intro conjI allI impI)
    fix k i assume "k < length ls" "i < layer_size n k" "ls ! k ! i \<noteq> a_null A"
    with newval [of i] known [of i] at [of k] show "?ls ! k ! i \<noteq> a_null A"
      by (cases "k = Suc j") (auto simp del: layer_size.simps layer_at.simps)
  qed simp
  show "closed_but A n ?ls (Suc j) (s div 2) e'"
    unfolding closed_but_def
  proof (intro allI impI)
    fix k i assume k: "Suc k < length ?ls" and i: "i < layer_size n (Suc k)" and ch: "children_known A n ?ls k i"
    have old: "ls ! Suc k ! i \<noteq> a_null A \<or> k = j \<and> s div 2 \<le> i \<and> 2 * i < e" if "children_known A n ls k i"
      using cb k i that unfolding closed_but_def length_list_update by blast
    consider "k = j" | "k = Suc j" | "k \<noteq> j" "k \<noteq> Suc j" by blast
    then show "?ls ! Suc k ! i \<noteq> a_null A \<or> k = Suc j \<and> s div 2 div 2 \<le> i \<and> 2 * i < e'"
    proof cases
      case 1
      with ch at [of j] have ch': "children_known A n ls j i" by (simp add: children_known_def)
      with 1 old l'(2) [rule_format, of i] i known [of i] at [of "Suc j"] show ?thesis
        by (cases "s div 2 \<le> i \<and> 2 * i < e") (simp_all del: layer_size.simps layer_at.simps)
    next
      case 3
      with ch at [of k] have "children_known A n ls k i" by (simp add: children_known_def)
      with 3 old at [of "Suc k"] show ?thesis by simp
    next
      case 2
      show ?thesis
      proof (cases "children_known A n ls (Suc j) i")
        case True
        with 2 old at [of "Suc k"] show ?thesis by simp
      next
        case False
        have lt: "2 * i < layer_size n (Suc j)" using i 2 by auto
        from ch 2 at [of k] have ch': "children_known A n ?ls (Suc j) i" "?ls ! Suc j = l'" by simp_all
        from False ch' lt obtain c where c: "c = 2 * i \<or> c = 2 * i + 1" "c < layer_size n (Suc j)"
          "ls ! Suc j ! c = a_null A" "l' ! c \<noteq> a_null A"
          unfolding children_known_def by metis
        with l'(2) [rule_format, of c] have win: "s div 2 \<le> c" "2 * c < e" "children_known A n ls j c"
          by (auto split: if_splits)
        from e' [OF this] have "c < e'" .
        with c(1) win(1) 2 show ?thesis by auto
      qed
    qed
  qed
qed

lemma recompute_refine:
  fixes xs :: "'e list" and ls :: "'e list list"
  assumes nf: "null_free A" and len: "length ls = tree_depth d (length xs)" and kn: "knows A h xs ls"
    and j: "j < length ls" and s: "s < e" "e \<le> layer_size (length xs) j"
    and me: "me = None \<and> e = layer_size (length xs) j \<or> me = Some e"
    and cb: "closed_but A (length xs) ls j s e"
  shows "\<exists>ls'. recompute_loop A h ls j s me = Ok ls' \<and> knows A h xs ls' \<and> closed_up A xs ls' \<and>
           refines A (length xs) ls ls' \<and> (\<forall>k \<le> j. ls' ! k = ls ! k)"
  using assms(2-8)
proof (induction "length ls - j" arbitrary: ls j s e me rule: less_induct)
  case less
  let ?n = "length xs"
  note len = less.prems(1) and kn = less.prems(2) and j = less.prems(3) and s = less.prems(4,5)
    and me = less.prems(6) and cb = less.prems(7)
  have lenj: "length (ls ! j) = layer_size ?n j" using kn j by (simp add: knows_def)
  have guard: "1 < length (ls ! j) \<or> j < length ls - 1 \<longleftrightarrow> Suc j < length ls"
    using tree_depth_more [of j d ?n] lenj len by auto
  show ?case
  proof (cases "Suc j < length ls")
    case False
    then have "recompute_loop A h ls j s me = Ok ls" using guard j by (subst recompute_loop.simps) simp
    with False kn closed_but_top [OF _ cb] show ?thesis by auto
  next
    case True
    from recompute_layer_refine [OF nf kn True s me]
    obtain l' me' where run: "recompute_layer A h ls j s me = Ok (ls[Suc j := l'], s div 2, me')"
      and l': "length l' = layer_size ?n (Suc j)"
        "\<forall>i < layer_size ?n (Suc j). l' ! i =
           (if s div 2 \<le> i \<and> 2 * i < e \<and> children_known A ?n ls j i
            then layer_at A h xs (Suc j) ! i else ls ! Suc j ! i)"
      and me': "me' = None \<and> (\<forall>i. s div 2 \<le> i \<longrightarrow> 2 * i < e \<longrightarrow> \<not> children_known A ?n ls j i) \<or>
            (\<exists>m. me' = Some (Suc m) \<and> s div 2 \<le> m \<and> m < layer_size ?n (Suc j) \<and>
               (\<forall>i. m < i \<longrightarrow> 2 * i < e \<longrightarrow> \<not> children_known A ?n ls j i))"
      by (elim exE conjE) (rule that)
    have half: "s div 2 < layer_size ?n (Suc j)" using s by simp
    obtain e' where e': "s div 2 < e'" "e' \<le> layer_size ?n (Suc j)"
      "me' = None \<and> e' = layer_size ?n (Suc j) \<or> me' = Some e'"
      "\<And>i. s div 2 \<le> i \<Longrightarrow> 2 * i < e \<Longrightarrow> children_known A ?n ls j i \<Longrightarrow> i < e'"
      using me'
    proof (elim disjE exE conjE)
      assume "me' = None" "\<forall>i. s div 2 \<le> i \<longrightarrow> 2 * i < e \<longrightarrow> \<not> children_known A ?n ls j i"
      with half show thesis by (intro that [of "layer_size ?n (Suc j)"]) auto
    next
      fix m assume "me' = Some (Suc m)" "s div 2 \<le> m" "m < layer_size ?n (Suc j)"
        "\<forall>i. m < i \<longrightarrow> 2 * i < e \<longrightarrow> \<not> children_known A ?n ls j i"
      then show thesis by (intro that [of "Suc m"]) (auto simp: less_Suc_eq_le not_less [symmetric])
    qed
    note step = refine_step [OF nf kn True cb l' e'(4)]
    have lt: "length (ls[Suc j := l']) - Suc j < length ls - j" using j by simp
    have len': "length (ls[Suc j := l']) = tree_depth d ?n" and j': "Suc j < length (ls[Suc j := l'])"
      using len True by simp_all
    from less.hyps [OF lt len' step(1) j' e'(1,2,3) step(3)]
    obtain ls' where IH: "recompute_loop A h (ls[Suc j := l']) (Suc j) (s div 2) me' = Ok ls'"
      "knows A h xs ls'" "closed_up A xs ls'" "refines A ?n (ls[Suc j := l']) ls'"
      "\<forall>k \<le> Suc j. ls' ! k = ls[Suc j := l'] ! k" by blast
    have "recompute_loop A h ls j s me = Ok ls'"
      using j guard True run IH(1) by (subst recompute_loop.simps) simp
    moreover have "ls' ! k = ls ! k" if "k \<le> j" for k using IH(5) that by simp
    ultimately show ?thesis
      using IH(2,3) refines_trans [OF step(2) IH(4)] by blast
  qed
qed

subsection \<open>Filling a leaf\<close>

lemma covered_refines:
  assumes "covered A xs ls" and "refines A (length xs) ls ls'"
  shows "covered A xs ls'"
  unfolding covered_def
proof (intro allI impI)
  fix k i assume k: "k < length ls'" and i: "i < layer_size (length xs) k" and null: "ls' ! k ! i = a_null A"
  with assms(2) have "k < length ls" "ls ! k ! i = a_null A" by (auto simp: refines_def)
  with assms(1) i obtain m where m: "k < m" "m < length ls" "ls ! m ! (i div 2 ^ (m - k)) \<noteq> a_null A"
    "(i div 2 ^ (m - k) + 1) * 2 ^ m \<le> length xs" unfolding covered_def by blast
  from m(4) have "i div 2 ^ (m - k) < layer_size (length xs) m"
    using layer_size_ge [of "length xs" m] by (simp only: complete_iff)
  with m assms(2) show "\<exists>m. k < m \<and> m < length ls' \<and> ls' ! m ! (i div 2 ^ (m - k)) \<noteq> a_null A \<and>
      (i div 2 ^ (m - k) + 1) * 2 ^ m \<le> length xs"
    by (intro exI [of _ m]) (simp add: refines_def)
qed

lemma fill_leaf_inv:
  assumes inv: "tree_inv A t xs" and i: "i < length xs"
  shows "\<exists>ls'. fill_leaf A t i (xs ! i) = Ok (t\<lparr>layers := ls'\<rparr>) \<and> tree_inv A (t\<lparr>layers := ls'\<rparr>) xs \<and>
           refines A (length xs) (layers t) ls' \<and> ls' ! 0 = (layers t ! 0)[i := xs ! i]"
proof -
  let ?h = "leaf_height t" and ?n = "length xs" and ?x = "xs ! i"
  let ?ls = "(layers t)[0 := (layers t ! 0)[i := ?x]]"
  note I = tree_invD [OF inv]
  from I(3) have kn: "knows A ?h xs (layers t)" and cov: "covered A xs (layers t)" and cl: "closed_up A xs (layers t)"
    by (simp_all add: layers_ok_def)
  have ne: "0 < length (layers t)" using I(4) by simp
  have x: "?x \<noteq> a_null A" using I(2) i by simp
  show ?thesis
  proof (cases "layers t ! 0 ! i = a_null A")
    case False
    with layers_okD(3) [OF I(3) ne, of i] i have at: "layers t ! 0 ! i = ?x" by simp
    with False I(4,5) i have "fill_leaf A t i ?x = Ok (t\<lparr>layers := layers t\<rparr>)"
      by (simp add: fill_leaf_def vec_index_def)
    moreover have "layers t ! 0 = (layers t ! 0)[i := ?x]" using at by (metis list_update_id)
    ultimately show ?thesis using inv by (intro exI [of _ "layers t"]) simp
  next
    case True
    have len: "length ?ls = tree_depth (depth_of t) ?n" and j: "0 < length ?ls" using I(6) ne by simp_all
    have val: "\<And>m. m < ?n \<Longrightarrow> layers t ! 0 ! m = a_null A \<or> layers t ! 0 ! m = xs ! m"
      using layers_okD(3) [OF I(3) ne] by simp
    have kn': "knows A ?h xs ?ls"
      unfolding knows_def
    proof (intro allI impI conjI)
      fix k m assume "k < length ?ls" "m < layer_size ?n k"
      then show "?ls ! k ! m = a_null A \<or> ?ls ! k ! m = layer_at A ?h xs k ! m"
        using layers_okD(3) [OF I(3), of k m] val [of m] ne i I(5)
        by (cases "k = 0") (auto simp: nth_list_update)
    next
      fix k assume "k < length ?ls"
      then show "length (?ls ! k) = layer_size ?n k"
        using layers_okD(2) [OF I(3), of k] ne by (cases "k = 0") auto
    qed
    have ref: "refines A ?n (layers t) ?ls"
      using ne i x I(5) by (auto simp: refines_def nth_list_update)
    have cb: "closed_but A ?n ?ls 0 i (i + 1)"
      unfolding closed_but_def
    proof (intro allI impI)
      fix k m assume k: "Suc k < length ?ls" and m: "m < layer_size ?n (Suc k)" and ch: "children_known A ?n ?ls k m"
      show "?ls ! Suc k ! m \<noteq> a_null A \<or> k = 0 \<and> i div 2 \<le> m \<and> 2 * m < i + 1"
      proof (cases "children_known A ?n (layers t) k m")
        case True
        with cl k m show ?thesis by (simp add: closed_up_iff)
      next
        case False
        then obtain c where c: "c = 2 * m \<or> c = 2 * m + 1" "layers t ! k ! c = a_null A" "?ls ! k ! c \<noteq> a_null A"
          using ch unfolding children_known_def by blast
        then have "k = 0" by (cases k) auto
        with c ne have "c = i" by (cases "c = i") auto
        with c(1) \<open>k = 0\<close> show ?thesis by auto
      qed
    qed
    from recompute_refine [OF I(1) len kn' j _ _ _ cb, of "Some (i + 1)"] i
    obtain ls' where run: "recompute_loop A ?h ?ls 0 i (Some (i + 1)) = Ok ls'"
      and ls': "knows A ?h xs ls'" "closed_up A xs ls'" "refines A ?n ?ls ls'" "ls' ! 0 = ?ls ! 0" by auto
    have "fill_leaf A t i ?x = Ok (t\<lparr>layers := ls'\<rparr>)"
      using True I(4,5) i run
      by (simp add: fill_leaf_def vec_index_def recompute_after_fill_leaves_def recompute_def set_layer_def)
    moreover have ref': "refines A ?n (layers t) ls'" by (rule refines_trans [OF ref ls'(3)])
    moreover have "length ls' = tree_depth (depth_of t) ?n" using ref' I(6) by (simp add: refines_def)
    then have "layers_ok A ?h (depth_of t) xs ls'"
      using ls'(1,2) covered_refines [OF cov ref'] by (simp add: layers_ok_def)
    then have "tree_inv A (t\<lparr>layers := ls'\<rparr>) xs" using I(1,2) by (simp add: tree_inv_def depth_of_def)
    moreover have "ls' ! 0 = (layers t ! 0)[i := ?x]" using ls'(4) ne by simp
    ultimately show ?thesis by blast
  qed
qed

text \<open>A leaf other than the one the tree was built for is refused where the leaf is known.\<close>

lemma fill_leaf_conflict:
  assumes "tree_inv A t xs" and "i < length xs" and "layers t ! 0 ! i \<noteq> a_null A" and "leaf \<noteq> xs ! i"
  shows "is_Panic (fill_leaf A t i leaf)"
proof -
  note I = tree_invD [OF assms(1)]
  from layers_okD(3) [OF I(3), of 0 i] I(4) assms(2,3) have "layers t ! 0 ! i = xs ! i" by simp
  with I(4,5) assms(2-4) show ?thesis by (simp add: fill_leaf_def vec_index_def)
qed

subsection \<open>The root, and trees without unknown nodes\<close>

definition merkle_root :: "'e algo \<Rightarrow> nat \<Rightarrow> nat \<Rightarrow> 'e list \<Rightarrow> 'e" where
  "merkle_root A h d xs = layer_at A h xs (tree_depth d (length xs) - 1) ! 0"

lemma top_layer:
  assumes inv: "tree_inv A t xs" and xs: "xs \<noteq> []"
  shows "layers t ! (length (layers t) - 1) = [merkle_root A (leaf_height t) (depth_of t) xs]"
proof -
  note I = tree_invD [OF inv]
  let ?k = "length (layers t) - 1"
  have k: "?k < length (layers t)" using I(4) by simp
  have one: "layer_size (length xs) ?k = 1"
  proof (rule antisym)
    show "layer_size (length xs) ?k \<le> 1" using tree_depth_top [of "length xs" "depth_of t"] I(6) by simp
    have "0 < layer_size (length xs) ?k" using xs by simp
    then show "1 \<le> layer_size (length xs) ?k" by linarith
  qed
  have "layers t ! ?k ! 0 \<noteq> a_null A"
  proof
    assume null: "layers t ! ?k ! 0 = a_null A"
    show False by (rule layers_ok_cover [OF I(3) k _ null]) (use one in simp_all)
  qed
  with layers_okD(3) [OF I(3) k, of 0] one
  have "layers t ! ?k ! 0 = merkle_root A (leaf_height t) (depth_of t) xs" using I(6) xs by (simp add: merkle_root_def)
  with layers_okD(2) [OF I(3) k] one show ?thesis by (cases "layers t ! ?k") auto
qed

lemma tree_root:
  assumes "tree_inv A t xs" and "xs \<noteq> []"
  shows "amt_root t = Ok (merkle_root A (leaf_height t) (depth_of t) xs)"
  using top_layer [OF assms] tree_invD(4) [OF assms(1)] by (simp add: amt_root_def amt_node_def vec_index_def)

lemma known_leaves_canon:
  assumes inv: "tree_inv A t xs" and known: "\<forall>x \<in> set (layers t ! 0). x \<noteq> a_null A"
  shows "layers t = canon A (leaf_height t) (depth_of t) xs"
proof -
  let ?h = "leaf_height t" and ?ls = "layers t" and ?n = "length xs"
  note I = tree_invD [OF inv]
  have "\<forall>i < layer_size ?n k. ?ls ! k ! i \<noteq> a_null A" if "k < length ?ls" for k
    using that
  proof (induction k)
    case 0
    with known I(5) show ?case by simp
  next
    case (Suc k)
    show ?case
    proof (intro allI impI)
      fix i assume i: "i < layer_size ?n (Suc k)"
      with Suc have "children_known A ?n ?ls k i" by (auto simp: children_known_def)
      with Suc.prems i I(3) show "?ls ! Suc k ! i \<noteq> a_null A" by (simp add: layers_ok_def closed_up_iff)
    qed
  qed
  with layers_okD [OF I(3)] have "?ls ! k = layer_at A ?h xs k" if "k < length ?ls" for k
    using that by (intro nth_equalityI) auto
  with I(6) show ?thesis by (intro nth_equalityI) simp_all
qed

lemma canon_known:
  assumes "tree_inv A t xs" and "layers t ! 0 = xs"
  shows "layers t = canon A (leaf_height t) (depth_of t) xs"
  by (rule known_leaves_canon [OF assms(1)]) (use tree_invD(2) [OF assms(1)] assms(2) in simp)

end
