(* ===== verification/Append_Merkle_Versions.thy ===== *)
theory Append_Merkle_Versions
  imports Append_Merkle_Fill
begin

text \<open>
  Committed versions of the append-only Merkle tree (\<^verbatim>\<open>common/append_merkle/src/lib.rs\<close>):
  \<open>commit\<close> saves the right-most node of every layer, \<open>at_root_version\<close> opens an old version as a
  \<open>history_tree\<close> that reads those nodes over the current layers, and \<open>revert_to\<close> cuts the layers
  back. \<open>version_of\<close> relates the saved nodes to the old layers; \<open>extends_version\<close> says that the
  current layers still hold the old nodes, which every appending operation keeps.
\<close>

subsection \<open>History trees\<close>

record 'e history_tree =
  h_layers :: "'e list list"
  h_delta_nodes :: "'e delta_nodes"
  h_leaf_height :: nat

definition at_root_version :: "'e amt \<Rightarrow> 'e \<Rightarrow> 'e history_tree res" where
  "at_root_version t root_hash =
     (case hm_get (root_to_tx_seq_map t) root_hash of
        None \<Rightarrow> Err ''old root unavailable''
      | Some tx_seq \<Rightarrow>
          (case hm_get (delta_nodes_map t) tx_seq of
             None \<Rightarrow> Err ''tx_seq unavailable''
           | Some delta \<Rightarrow>
               if delta_height delta = 0 then Err ''empty tree''
               else Ok \<lparr>h_layers = layers t, h_delta_nodes = delta, h_leaf_height = leaf_height t\<rparr>))"

definition history_node :: "'e history_tree \<Rightarrow> nat \<Rightarrow> nat \<Rightarrow> 'e res" where
  "history_node ht layer index =
     (case delta_get (h_delta_nodes ht) layer index of
        Ok (Some node) \<Rightarrow> Ok node
      | Ok None \<Rightarrow> rbind (vec_index (h_layers ht) layer) (\<lambda>l. vec_index l index)
      | _ \<Rightarrow> Panic ''range checked'')"

definition history_height :: "'e history_tree \<Rightarrow> nat" where
  "history_height ht = delta_height (h_delta_nodes ht)"

definition history_layer_len :: "'e history_tree \<Rightarrow> nat \<Rightarrow> nat res" where
  "history_layer_len ht h = delta_layer_len (h_delta_nodes ht) h"

subsection \<open>Committing\<close>

definition version_of :: "'e list list \<Rightarrow> 'e delta_nodes" where
  "version_of ls = \<lparr>right_most_nodes = map (\<lambda>l. (length l - 1, last l)) ls\<rparr>"

lemma collect_right_most_Ok:
  "\<forall>l \<in> set ls. l \<noteq> [] \<Longrightarrow> collect_right_most ls = Ok (right_most_nodes (version_of ls))"
  by (induction ls) (auto simp: version_of_def)

lemma tree_inv_nonempty_layers:
  assumes "tree_inv A t xs" and "xs \<noteq> []" and "l \<in> set (layers t)"
  shows "l \<noteq> []"
proof -
  from assms(3) obtain k where k: "k < length (layers t)" "l = layers t ! k" by (auto simp: in_set_conv_nth)
  with layers_okD(2) [OF tree_invD(3) [OF assms(1)] k(1)] layer_size_pos [of "length xs" k] assms(2)
  show ?thesis by (metis length_0_conv length_greater_0_conv)
qed

lemma commit_Some:
  assumes "tree_inv A t xs" and "xs \<noteq> []"
  shows "commit t (Some seq) =
           Ok (t\<lparr>delta_nodes_map := hm_insert seq (version_of (layers t)) (delta_nodes_map t),
                 root_to_tx_seq_map :=
                   hm_insert (merkle_root A (leaf_height t) (depth_of t) xs) seq (root_to_tx_seq_map t)\<rparr>)"
proof -
  let ?ls = "layers t"
  have ne: "?ls \<noteq> []" by (rule tree_invD(4) [OF assms(1)])
  have rm: "collect_right_most ?ls = Ok (right_most_nodes (version_of ?ls))"
    using tree_inv_nonempty_layers [OF assms] by (intro collect_right_most_Ok) blast
  have "snd (last (right_most_nodes (version_of ?ls))) = last (last ?ls)"
    using ne by (simp add: version_of_def last_map)
  also have "\<dots> = merkle_root A (leaf_height t) (depth_of t) xs"
    using top_layer [OF assms] ne by (simp add: last_conv_nth)
  finally show ?thesis
    using assms(2) rm tree_root [OF assms] tree_inv_leaves [OF assms(1)]
    by (simp add: commit_def version_of_def)
qed

lemma commit_empty:
  assumes "tree_inv A t []"
  shows "commit t (Some seq) = Ok (t\<lparr>delta_nodes_map := hm_insert seq empty_delta (delta_nodes_map t)\<rparr>)"
  using tree_inv_leaves [OF assms] by (simp add: commit_def)

lemma commit_None [simp]: "commit t None = Ok t"
  by (simp add: commit_def)

lemma commit_inv:
  assumes "tree_inv A t xs"
  shows "\<exists>t'. commit t m = Ok t' \<and> tree_inv A t' xs \<and> layers t' = layers t \<and> leaf_height t' = leaf_height t
           \<and> min_depth t' = min_depth t"
proof (cases m)
  case (Some seq)
  show ?thesis
  proof (cases "xs = []")
    case True
    with assms commit_empty [of A t seq] Some show ?thesis by (simp add: tree_inv_def depth_of_def)
  next
    case False
    with assms commit_Some [OF assms False, of seq] Some show ?thesis by (simp add: tree_inv_def depth_of_def)
  qed
qed (use assms in simp)

subsection \<open>Constructors\<close>

lemma tree_depth_0: "tree_depth d 0 = max 1 d"
proof (induction d)
  case (Suc d)
  then show ?case by (subst tree_depth.simps) auto
qed (simp add: tree_depth.simps)

lemma empty_tree_inv:
  assumes "null_free A" and "layers t = replicate (max 1 (depth_of t)) []"
  shows "tree_inv A t []"
  using assms by (auto simp: tree_inv_def layers_ok_def tree_depth_0 knows_def covered_def closed_up_def)

definition empty_amt :: "nat \<Rightarrow> nat option \<Rightarrow> 'e amt" where
  "empty_amt lh d = \<lparr>layers = replicate (case d of None \<Rightarrow> 1 | Some k \<Rightarrow> k) [], delta_nodes_map = [],
                     root_to_tx_seq_map = [], min_depth = d, leaf_height = lh\<rparr>"

lemma empty_amt_inv: "null_free A \<Longrightarrow> d \<noteq> Some 0 \<Longrightarrow> tree_inv A (empty_amt lh d) []"
  by (intro empty_tree_inv) (auto simp: empty_amt_def depth_of_def max_def split: option.split)

lemma append_list_empty_amt:
  assumes "d \<noteq> Some 0"
  shows "append_list A (empty_amt lh d) xs =
           recompute A (set_layer 0 xs (empty_amt lh d)) 0 None"
proof -
  have "(0::nat) < (case d of None \<Rightarrow> 1 | Some k \<Rightarrow> k)" using assms by (cases d) auto
  then show ?thesis by (simp add: append_list_def recompute_after_append_def empty_amt_def vec_index_def)
qed

lemma built_amt:
  fixes A :: "'e algo" and xs :: "'e list"
  assumes "null_free A" and "xs \<noteq> []" "\<forall>x \<in> set xs. x \<noteq> a_null A" and "d \<noteq> Some 0"
  shows "\<exists>t. rbind (recompute A (set_layer 0 xs (empty_amt lh d)) 0 None) (\<lambda>t. commit t m) = Ok t \<and>
           tree_inv A t xs \<and> layers t = canon A lh (case d of None \<Rightarrow> 1 | Some k \<Rightarrow> k) xs \<and>
           leaf_height t = lh \<and> min_depth t = d"
proof -
  let ?e = "empty_amt lh d :: 'e amt" and ?d = "case d of None \<Rightarrow> 1 | Some k \<Rightarrow> k"
  have "layers ?e ! 0 = []" using assms(4) by (cases d) (auto simp: empty_amt_def)
  with append_list_inv [OF empty_amt_inv [OF assms(1,4), of lh] assms(2,3)]
  obtain ls where app: "append_list A ?e xs = Ok (?e\<lparr>layers := ls\<rparr>)"
    and inv: "tree_inv A (?e\<lparr>layers := ls\<rparr>) xs" and l0: "ls ! 0 = xs" by auto
  from canon_known [OF inv] l0 have can: "ls = canon A lh ?d xs" by (simp add: empty_amt_def depth_of_def)
  from commit_inv [OF inv, of m] obtain t where "commit (?e\<lparr>layers := ls\<rparr>) m = Ok t" "tree_inv A t xs" "layers t = ls"
    "leaf_height t = lh" "min_depth t = d" by (auto simp: empty_amt_def)
  moreover have "recompute A (set_layer 0 xs ?e) 0 None = Ok (?e\<lparr>layers := ls\<rparr>)"
    using app append_list_empty_amt [OF assms(4), of A lh xs] by simp
  ultimately show ?thesis using can by auto
qed

lemma new_amt_full:
  assumes "null_free A" and "\<forall>x \<in> set xs. x \<noteq> a_null A"
  shows "\<exists>t. new_amt A xs lh m = Ok t \<and> tree_inv A t xs \<and> layers t = canon A lh 1 xs \<and>
           leaf_height t = lh \<and> depth_of t = 1"
proof (cases "xs = []")
  case True
  let ?t = "case m of Some seq \<Rightarrow> (empty_amt lh None)\<lparr>delta_nodes_map := hm_insert seq empty_delta []\<rparr> | None \<Rightarrow> empty_amt lh None"
  have "new_amt A xs lh m = Ok ?t" using True by (simp add: new_amt_def empty_amt_def split: option.split)
  moreover have "tree_inv A ?t []"
    using empty_amt_inv [OF assms(1), of None lh] by (cases m) (simp_all add: tree_inv_def depth_of_def)
  moreover have "layers ?t = canon A lh 1 []"
    by (simp add: empty_amt_def canon_def tree_depth_0 split: option.split)
  moreover have "leaf_height ?t = lh" "depth_of ?t = 1"
    by (simp_all add: empty_amt_def depth_of_def split: option.split)
  ultimately show ?thesis using True by blast
next
  case False
  then have "new_amt A xs lh m = rbind (recompute A (set_layer 0 xs (empty_amt lh None)) 0 None) (\<lambda>t. commit t m)"
    by (simp add: new_amt_def empty_amt_def set_layer_def)
  with built_amt [OF assms(1) False assms(2), of None lh m] show ?thesis by (auto simp: depth_of_def)
qed

lemma new_amt_inv:
  assumes "null_free A" and "\<forall>x \<in> set xs. x \<noteq> a_null A"
  shows "\<exists>t. new_amt A xs lh m = Ok t \<and> tree_inv A t xs \<and> layers t = canon A lh 1 xs"
  using new_amt_full [OF assms] by blast

lemma new_with_depth_inv:
  assumes "null_free A" and "\<forall>x \<in> set xs. x \<noteq> a_null A" and "0 < d"
  shows "\<exists>t. new_with_depth A xs d m = Ok t \<and> tree_inv A t xs \<and> layers t = canon A 0 d xs"
proof (cases "xs = []")
  case True
  let ?t = "case m of Some seq \<Rightarrow> (empty_amt 0 (Some d))\<lparr>delta_nodes_map := hm_insert seq empty_delta []\<rparr> | None \<Rightarrow> empty_amt 0 (Some d)"
  have "new_with_depth A xs d m = Ok ?t" using True by (simp add: new_with_depth_def empty_amt_def split: option.split)
  moreover have "tree_inv A ?t []"
    using empty_amt_inv [OF assms(1), of "Some d" 0] assms(3) by (cases m) (simp_all add: tree_inv_def depth_of_def)
  moreover have "layer_at A 0 [] k = []" for k by (induction k) auto
  then have "map (layer_at A 0 []) [0..<d] = replicate d []" by (intro nth_equalityI) simp_all
  then have "layers ?t = canon A 0 d []"
    using assms(3) by (simp add: empty_amt_def canon_def tree_depth_0 split: option.split)
  ultimately show ?thesis using True by blast
next
  case False
  then have "new_with_depth A xs d m =
      rbind (recompute A (set_layer 0 xs (empty_amt 0 (Some d))) 0 None) (\<lambda>t. commit t m)"
    using assms(3) by (simp add: new_with_depth_def empty_amt_def set_layer_def)
  with built_amt [OF assms(1) False assms(2), of "Some d" 0 m] assms(3) show ?thesis by auto
qed

subsection \<open>Reading and restoring a version\<close>

lemma extends_version_Cons:
  "extends_version (l # ls) (l' # ls') \<longleftrightarrow>
     length l \<le> length l' \<and> (\<forall>i. Suc i < length l \<longrightarrow> l' ! i = l ! i) \<and> extends_version ls ls'"
  by (auto simp: extends_version_def All_less_Suc2)

lemma restore_version:
  "extends_version ls ls' \<Longrightarrow> \<forall>l \<in> set ls. l \<noteq> [] \<Longrightarrow>
     restore_layers (right_most_nodes (version_of ls)) (take (length ls) ls') = Ok ls"
proof (induction ls arbitrary: ls')
  case (Cons l ls)
  then obtain l' rest where ls': "ls' = l' # rest" by (cases ls') (auto simp: extends_version_def)
  with Cons.prems have l: "l \<noteq> []" "length l \<le> length l'" "\<And>i. Suc i < length l \<Longrightarrow> l' ! i = l ! i"
    and rest: "extends_version ls rest" "\<forall>l \<in> set ls. l \<noteq> []" by (auto simp: extends_version_Cons)
  have "(take (length l) l')[length l - 1 := last l] = l"
  proof (rule nth_equalityI)
    fix i assume "i < length ((take (length l) l')[length l - 1 := last l])"
    then have i: "i < length l" by simp
    show "(take (length l) l')[length l - 1 := last l] ! i = l ! i"
      using i l by (cases "i = length l - 1") (auto simp: last_conv_nth)
  qed (use l in simp)
  with Cons.IH [OF rest] l ls' show ?case
    by (cases "length l") (auto simp: version_of_def)
qed (simp add: version_of_def)

lemma clear_after_layers [simp]:
  "layers (clear_after t seq) = layers t" "min_depth (clear_after t seq) = min_depth t"
  "leaf_height (clear_after t seq) = leaf_height t"
  by (simp_all add: clear_after_def split: prod.split)

lemma revert_version:
  assumes "tree_inv A t xs" and "xs \<noteq> []" and "extends_version (layers t) (layers t')"
    and "hm_get (delta_nodes_map t') seq = Some (version_of (layers t))"
  shows "revert_to t' seq = Ok (clear_after (t'\<lparr>layers := layers t\<rparr>) seq)"
proof -
  note I = tree_invD [OF assms(1)]
  have len: "length (right_most_nodes (version_of (layers t))) = length (layers t)" by (simp add: version_of_def)
  have "0 < length (layers t)" using I(4) by simp
  with assms(3) have "layers t' \<noteq> []" "length (layers t ! 0) \<le> length (layers t' ! 0)"
    by (auto simp: extends_version_def)
  moreover have "0 < length (layers t ! 0)" using I(5) assms(2) by simp
  ultimately show ?thesis
    using restore_version [OF assms(3)] tree_inv_nonempty_layers [OF assms(1,2)] assms(4) len
    by (auto simp: revert_to_def amt_leaves_def amt_layer_len_def vec_index_def)
qed

text \<open>The loss of the layers when the version was committed on an empty tree.\<close>

lemma revert_empty_version:
  assumes "layers t \<noteq> []" and "layers t ! 0 \<noteq> []" and "hm_get (delta_nodes_map t) seq = Some empty_delta"
  shows "revert_to t seq = Ok (clear_after (t\<lparr>layers := []\<rparr>) seq)"
  using assms by (simp add: revert_to_def amt_leaves_def amt_layer_len_def vec_index_def empty_delta_def)

text \<open>\<open>clear_after\<close> keeps every version up to \<open>seq\<close>.\<close>

lemma clear_loop_keeps:
  "clear_loop s d r = (d', r') \<Longrightarrow> seq < s \<Longrightarrow> hm_get d' seq = hm_get d seq"
proof (induction s d r rule: clear_loop.induct)
  case (1 s d r)
  show ?case
  proof (cases "hm_get d s")
    case None
    with 1(2) show ?thesis by (subst (asm) clear_loop.simps) simp
  next
    case (Some nodes)
    with 1(2) have "clear_loop (s + 1) (hm_remove s d)
        (if delta_height nodes \<noteq> 0 then hm_remove (snd (last (right_most_nodes nodes))) r else r) = (d', r')"
      by (subst (asm) clear_loop.simps) simp
    from 1(1) [OF Some this] 1(3) show ?thesis by simp
  qed
qed

lemma clear_after_keeps:
  "s \<le> seq \<Longrightarrow> hm_get (delta_nodes_map (clear_after t seq)) s = hm_get (delta_nodes_map t) s"
  by (auto simp: clear_after_def split: prod.split intro: clear_loop_keeps)

definition history_view :: "'e history_tree \<Rightarrow> 'e list list" where
  "history_view ht =
     map2 (\<lambda>(i, x) l. take i l @ [x]) (right_most_nodes (h_delta_nodes ht)) (h_layers ht)"

definition history_ok :: "'e history_tree \<Rightarrow> bool" where
  "history_ok ht \<longleftrightarrow>
     length (right_most_nodes (h_delta_nodes ht)) \<le> length (h_layers ht) \<and>
     (\<forall>k < length (right_most_nodes (h_delta_nodes ht)).
        fst (right_most_nodes (h_delta_nodes ht) ! k) \<le> length (h_layers ht ! k))"

lemma history_view_version:
  assumes ext: "extends_version ls ls'" and ne: "\<forall>l \<in> set ls. l \<noteq> []"
    and ht: "h_layers ht = ls'" "h_delta_nodes ht = version_of ls"
  shows "history_view ht = ls" and "history_ok ht"
proof -
  let ?rm = "right_most_nodes (version_of ls)"
  have len: "length ?rm = length ls" and rm: "\<And>k. k < length ls \<Longrightarrow> ?rm ! k = (length (ls ! k) - 1, last (ls ! k))"
    by (simp_all add: version_of_def)
  from ext have le: "length ls \<le> length ls'" by (simp add: extends_version_def)
  show "history_view ht = ls"
  proof (rule nth_equalityI)
    show "length (history_view ht) = length ls" using len le ht by (simp add: history_view_def)
    fix k assume "k < length (history_view ht)"
    then have k: "k < length ls" using len le ht by (simp add: history_view_def)
    with ne have l: "ls ! k \<noteq> []" by simp
    from ext k have l': "length (ls ! k) \<le> length (ls' ! k)" "\<And>i. Suc i < length (ls ! k) \<Longrightarrow> ls' ! k ! i = ls ! k ! i"
      by (auto simp: extends_version_def)
    have "take (length (ls ! k) - 1) (ls' ! k) = butlast (ls ! k)"
      by (rule nth_equalityI) (use l' in \<open>auto simp: nth_butlast\<close>)
    with l k le len rm ht show "history_view ht ! k = ls ! k" by (simp add: history_view_def)
  qed
  show "history_ok ht"
    using len rm le ext ht by (fastforce simp: history_ok_def extends_version_def)
qed

subsection \<open>Growing a tree\<close>

text \<open>
  The steps between two versions, with the leaves as ghost state: the four appending operations
  on leaves the tree may hold, and commits of new versions.
\<close>

inductive amt_step :: "'e algo \<Rightarrow> 'e amt \<times> 'e list \<Rightarrow> 'e amt \<times> 'e list \<Rightarrow> bool" for A :: "'e algo" where
  step_append: "append_leaf A t y = Ok t' \<Longrightarrow> y \<noteq> a_null A \<Longrightarrow> amt_step A (t, xs) (t', xs @ [y])"
| step_append_list: "append_list A t ys = Ok t' \<Longrightarrow> ys \<noteq> [] \<Longrightarrow> \<forall>y \<in> set ys. y \<noteq> a_null A \<Longrightarrow>
    amt_step A (t, xs) (t', xs @ ys)"
| step_append_subtree: "append_subtree A t (Suc K) (layer_at A (leaf_height t) ys K ! 0) = Ok t' \<Longrightarrow>
    2 ^ K dvd length xs \<Longrightarrow> length ys = 2 ^ K \<Longrightarrow> \<forall>y \<in> set ys. y \<noteq> a_null A \<Longrightarrow>
    amt_step A (t, xs) (t', xs @ ys)"
| step_update_last: "update_last A t y = Ok t' \<Longrightarrow> y \<noteq> a_null A \<Longrightarrow>
    last_path_known A t (length (xs @ [x])) \<Longrightarrow> amt_step A (t, xs @ [x]) (t', xs @ [y])"
| step_commit: "commit t (Some seq) = Ok t' \<Longrightarrow> hm_get (delta_nodes_map t) seq = None \<Longrightarrow>
    amt_step A (t, xs) (t', xs)"

lemma amt_step_inv:
  assumes "amt_step A p p'" and "tree_inv A (fst p) (snd p)"
  shows "tree_inv A (fst p') (snd p') \<and> extends_version (layers (fst p)) (layers (fst p')) \<and>
           (\<forall>seq d. hm_get (delta_nodes_map (fst p)) seq = Some d \<longrightarrow>
              hm_get (delta_nodes_map (fst p')) seq = Some d) \<and>
           leaf_height (fst p') = leaf_height (fst p) \<and> min_depth (fst p') = min_depth (fst p)"
  using assms
proof cases
  case (step_append t y t' xs)
  with assms(2) append_list_inv [of A t xs "[y]"] show ?thesis by (auto simp: append_leaf_eq)
next
  case (step_append_list t ys t' xs)
  with assms(2) append_list_inv [of A t xs ys] show ?thesis by auto
next
  case (step_append_subtree t K ys t' xs)
  with assms(2) append_subtree_inv [of A t xs K ys] show ?thesis by auto
next
  case (step_update_last t y t' xs x)
  with assms(2) update_last_inv [of A t xs x y] show ?thesis by auto
next
  case (step_commit t seq t' xs)
  show ?thesis
  proof (cases "xs = []")
    case True
    with step_commit assms(2) commit_empty [of A t seq] show ?thesis
      by (auto simp: tree_inv_def depth_of_def)
  next
    case False
    with step_commit assms(2) commit_Some [of A t xs seq] show ?thesis
      by (auto simp: tree_inv_def depth_of_def)
  qed
qed

lemma amt_steps_inv:
  assumes "(amt_step A)\<^sup>*\<^sup>* p p'" and "tree_inv A (fst p) (snd p)"
  shows "tree_inv A (fst p') (snd p') \<and> extends_version (layers (fst p)) (layers (fst p')) \<and>
           (\<forall>seq d. hm_get (delta_nodes_map (fst p)) seq = Some d \<longrightarrow>
              hm_get (delta_nodes_map (fst p')) seq = Some d) \<and>
           leaf_height (fst p') = leaf_height (fst p) \<and> min_depth (fst p') = min_depth (fst p)"
  using assms(1)
proof (induction rule: rtranclp_induct)
  case base
  show ?case using assms(2) by simp
next
  case (step q r)
  from amt_step_inv [OF step(2)] step(3) show ?case
    by (auto intro: extends_version_trans)
qed

text \<open>What is left of a committed version after further steps.\<close>

lemma committed_version:
  assumes inv: "tree_inv A t xs" and ne: "xs \<noteq> []" and com: "commit t (Some seq) = Ok t1"
    and run: "(amt_step A)\<^sup>*\<^sup>* (t1, xs) (t2, ys)"
  shows "extends_version (layers t) (layers t2)"
    and "hm_get (delta_nodes_map t2) seq = Some (version_of (layers t))"
    and "leaf_height t2 = leaf_height t" and "min_depth t2 = min_depth t"
proof -
  from com commit_Some [OF inv ne, of seq] have t1: "layers t1 = layers t" "leaf_height t1 = leaf_height t"
    "min_depth t1 = min_depth t" "hm_get (delta_nodes_map t1) seq = Some (version_of (layers t))" by auto
  with inv have "tree_inv A t1 xs" by (simp add: tree_inv_def depth_of_def)
  with amt_steps_inv [OF run] t1
  show "extends_version (layers t) (layers t2)" "hm_get (delta_nodes_map t2) seq = Some (version_of (layers t))"
    "leaf_height t2 = leaf_height t" "min_depth t2 = min_depth t" by simp_all
qed

end
