(* ===== verification/Merkle_Proof.thy ===== *)
theory Merkle_Proof
  imports Append_Merkle_Versions
begin

text \<open>
  Inclusion proofs: \<open>Proof\<close> and \<open>RangeProof\<close> of \<^verbatim>\<open>common/append_merkle/src/proof.rs\<close>, and their
  generation by the provided method \<open>gen_proof\<close> of the trait \<^verbatim>\<open>MerkleTreeRead\<close>
  (\<^verbatim>\<open>merkle_tree.rs\<close>) and by \<open>gen_range_proof\<close> (\<^verbatim>\<open>lib.rs\<close>). The trait is the record \<open>mread\<close> of
  its required methods; its two implementations are \<open>amt_reader\<close> and \<open>history_reader\<close>.
\<close>

subsection \<open>Proofs\<close>

record 'e merkle_proof =
  p_lemma :: "'e list"
  p_path :: "bool list"

definition proof_new :: "'e list \<Rightarrow> bool list \<Rightarrow> 'e merkle_proof res" where
  "proof_new hash path =
     (if length hash < 2 then Panic ''attempt to subtract with overflow''
      else if length hash - 2 \<noteq> length path then Panic ''assertion failed''
      else Ok \<lparr>p_lemma = hash, p_path = path\<rparr>)"

definition proof_new_empty :: "'e merkle_proof" where
  "proof_new_empty = \<lparr>p_lemma = [], p_path = []\<rparr>"

definition proof_item :: "'e merkle_proof \<Rightarrow> 'e res" where
  "proof_item p = (if p_lemma p = [] then Panic ''unwrap on None'' else Ok (hd (p_lemma p)))"

definition proof_root :: "'e merkle_proof \<Rightarrow> 'e res" where
  "proof_root p = (if p_lemma p = [] then Panic ''unwrap on None'' else Ok (last (p_lemma p)))"

text \<open>The loop of \<open>validate_integrity\<close>: the siblings \<open>lemma[1..size-1]\<close>, each with its bit of the path.\<close>

fun climb :: "'e algo \<Rightarrow> 'e \<Rightarrow> 'e list \<Rightarrow> bool list \<Rightarrow> 'e res" where
  "climb A h [] path = Ok h"
| "climb A h (s # ss) [] = Panic ''index out of bounds''"
| "climb A h (s # ss) (b # bs) = climb A (if b then a_parent A h s else a_parent A s h) ss bs"

definition validate_integrity :: "'e algo \<Rightarrow> 'e merkle_proof \<Rightarrow> bool res" where
  "validate_integrity A p =
     (if length (p_lemma p) < 2 then Ok False
      else rbind (climb A (hd (p_lemma p)) (butlast (tl (p_lemma p))) (p_path p))
             (\<lambda>h. Ok (h = last (p_lemma p))))"

fun path_position :: "nat \<Rightarrow> bool list \<Rightarrow> nat" where
  "path_position i [] = 0"
| "path_position i (is_left # bs) = (if is_left then 0 else 2 ^ i) + path_position (Suc i) bs"

definition proof_position :: "'e merkle_proof \<Rightarrow> nat" where
  "proof_position p = path_position 0 (p_path p)"

definition proof_validate :: "'e algo \<Rightarrow> 'e merkle_proof \<Rightarrow> 'e \<Rightarrow> nat \<Rightarrow> unit res" where
  "proof_validate A p item position =
     rbind (validate_integrity A p) (\<lambda>ok.
     if \<not> ok then Err ''Invalid proof''
     else rbind (proof_item p) (\<lambda>it.
       if item \<noteq> it then Err ''Proof item unmatch''
       else if position \<noteq> proof_position p then Err ''Proof position unmatch''
       else Ok ()))"

subsection \<open>Range proofs\<close>

record 'e range_proof =
  left_proof :: "'e merkle_proof"
  right_proof :: "'e merkle_proof"

definition range_new_empty :: "'e range_proof" where
  "range_new_empty = \<lparr>left_proof = proof_new_empty, right_proof = proof_new_empty\<rparr>"

definition range_root :: "'e range_proof \<Rightarrow> 'e res" where
  "range_root rp = proof_root (left_proof rp)"

definition range_validate_integrity :: "'e algo \<Rightarrow> 'e range_proof \<Rightarrow> bool res" where
  "range_validate_integrity A rp =
     rbind (validate_integrity A (left_proof rp)) (\<lambda>l. if \<not> l then Ok False else
     rbind (validate_integrity A (right_proof rp)) (\<lambda>r. if \<not> r then Ok False else
     rbind (proof_root (left_proof rp)) (\<lambda>lr.
     rbind (proof_root (right_proof rp)) (\<lambda>rr.
       Ok (lr = rr \<and> length (p_path (left_proof rp)) = length (p_path (right_proof rp)))))))"

text \<open>\<open>chunks_exact(2)\<close> of the children and the remainder, whose sibling is the right proof's.\<close>

fun pair_children :: "'e algo \<Rightarrow> 'e list \<Rightarrow> bool res \<Rightarrow> 'e res \<Rightarrow> 'e list res" where
  "pair_children A [] right_bit sibling = Ok []"
| "pair_children A [right_most] right_bit sibling =
     rbind right_bit (\<lambda>b.
       if b then rbind sibling (\<lambda>s. Ok [a_parent A right_most s]) else Err ''Unexpected error'')"
| "pair_children A (l # r # rest) right_bit sibling =
     rbind (pair_children A rest right_bit sibling) (\<lambda>ps. Ok (a_parent A l r # ps))"

definition range_level :: "'e algo \<Rightarrow> 'e range_proof \<Rightarrow> nat \<Rightarrow> 'e list \<Rightarrow> 'e list res" where
  "range_level A rp height children =
     rbind (vec_index (p_path (left_proof rp)) height) (\<lambda>left_bit.
     rbind (if \<not> left_bit
            then rbind (vec_index (p_lemma (left_proof rp)) (height + 1)) (\<lambda>s.
                 rbind (vec_index children 0) (\<lambda>c. Ok ([a_parent A s c], 1)))
            else Ok ([], 0))
       (\<lambda>(first, start_index).
          rbind (pair_children A (drop start_index children)
                   (vec_index (p_path (right_proof rp)) height)
                   (vec_index (p_lemma (right_proof rp)) (height + 1)))
            (\<lambda>ps. Ok (first @ ps))))"

fun range_levels :: "'e algo \<Rightarrow> 'e range_proof \<Rightarrow> nat list \<Rightarrow> 'e list \<Rightarrow> 'e list res" where
  "range_levels A rp [] children = Ok children"
| "range_levels A rp (h # hs) children =
     rbind (range_level A rp h children) (\<lambda>parents. range_levels A rp hs parents)"

definition range_validate :: "'e algo \<Rightarrow> 'e range_proof \<Rightarrow> 'e list \<Rightarrow> nat \<Rightarrow> unit res" where
  "range_validate A rp range_leaves start_position =
     rbind (range_validate_integrity A rp) (\<lambda>ok.
     if \<not> ok then Err ''Invalid range proof''
     else if range_leaves = [] then Err ''Empty range''
     else
       let end_position = start_position + length range_leaves - 1
       in rbind (proof_item (left_proof rp)) (\<lambda>li.
          rbind (ensure_that (li = hd range_leaves) ''left item'') (\<lambda>_.
          rbind (proof_item (right_proof rp)) (\<lambda>ri.
          rbind (ensure_that (ri = last range_leaves) ''right item'') (\<lambda>_.
          rbind (ensure_that (proof_position (left_proof rp) = start_position) ''left position'') (\<lambda>_.
          rbind (ensure_that (proof_position (right_proof rp) = end_position) ''right position'') (\<lambda>_.
          rbind (range_levels A rp [0..<length (p_path (left_proof rp))] range_leaves) (\<lambda>top.
          rbind (assert_that (length top = 1) ''assertion failed'') (\<lambda>_.
          rbind (range_root rp) (\<lambda>root.
            ensure_that (last top = root) ''computed root''))))))))))"

subsection \<open>Reading a tree\<close>

record 'e mread =
  rd_node :: "nat \<Rightarrow> nat \<Rightarrow> 'e res"
  rd_height :: nat
  rd_layer_len :: "nat \<Rightarrow> nat res"
  rd_padding :: "nat \<Rightarrow> 'e"

definition rd_leaves :: "'e mread \<Rightarrow> nat res" where
  "rd_leaves R = rd_layer_len R 0"

definition rd_root :: "'e mread \<Rightarrow> 'e res" where
  "rd_root R =
     (if rd_height R = 0 then Panic ''attempt to subtract with overflow''
      else rd_node R (rd_height R - 1) 0)"

text \<open>The loop of \<open>gen_proof\<close> over the heights: the siblings and the bits of the path.\<close>

definition rd_sibling :: "'e mread \<Rightarrow> nat \<Rightarrow> nat \<Rightarrow> 'e res" where
  "rd_sibling R height index_in_layer =
     (if index_in_layer mod 2 = 0
      then rbind (rd_layer_len R height) (\<lambda>len.
             if index_in_layer + 1 = len then Ok (rd_padding R height)
             else rd_node R height (index_in_layer + 1))
      else rd_node R height (index_in_layer - 1))"

fun gen_steps :: "'e mread \<Rightarrow> nat list \<Rightarrow> nat \<Rightarrow> ('e list \<times> bool list) res" where
  "gen_steps R [] index_in_layer = Ok ([], [])"
| "gen_steps R (height # hs) index_in_layer =
     rbind (rd_sibling R height index_in_layer) (\<lambda>s.
     rbind (gen_steps R hs (index_in_layer div 2)) (\<lambda>(ss, bs).
       Ok (s # ss, (index_in_layer mod 2 = 0) # bs)))"

definition gen_proof :: "'e algo \<Rightarrow> 'e mread \<Rightarrow> nat \<Rightarrow> 'e merkle_proof res" where
  "gen_proof A R leaf_index =
     rbind (rd_leaves R) (\<lambda>n.
     if leaf_index \<ge> n then Err ''leaf index out of bound''
     else rbind (rd_node R 0 leaf_index) (\<lambda>leaf.
       if leaf = a_null A then Err ''Not ready to generate proof''
       else if rd_height R = 1
       then rbind (rd_root R) (\<lambda>root. proof_new [root, root] [])
       else if rd_height R = 0 then Panic ''attempt to subtract with overflow''
       else rbind (gen_steps R [0..<rd_height R - 1] leaf_index) (\<lambda>(ss, bs).
            rbind (rd_root R) (\<lambda>root. proof_new (leaf # ss @ [root]) bs))))"

definition amt_reader :: "'e algo \<Rightarrow> 'e amt \<Rightarrow> 'e mread" where
  "amt_reader A t =
     \<lparr>rd_node = amt_node t, rd_height = length (layers t), rd_layer_len = amt_layer_len t,
      rd_padding = (\<lambda>height. a_end_pad A (height + leaf_height t))\<rparr>"

definition history_reader :: "'e algo \<Rightarrow> 'e history_tree \<Rightarrow> 'e mread" where
  "history_reader A ht =
     \<lparr>rd_node = history_node ht, rd_height = history_height ht, rd_layer_len = history_layer_len ht,
      rd_padding = (\<lambda>height. a_end_pad A (height + h_leaf_height ht))\<rparr>"

definition gen_range_proof :: "'e algo \<Rightarrow> 'e amt \<Rightarrow> nat \<Rightarrow> nat \<Rightarrow> 'e range_proof res" where
  "gen_range_proof A t start_index end_index =
     (if end_index \<le> start_index then Err ''invalid proof range''
      else rbind (gen_proof A (amt_reader A t) start_index) (\<lambda>l.
           rbind (gen_proof A (amt_reader A t) (end_index - 1)) (\<lambda>r.
             Ok \<lparr>left_proof = l, right_proof = r\<rparr>)))"

end
