(* ===== verification/Merkle_Proof_Laws.thy ===== *)
theory Merkle_Proof_Laws
  imports Merkle_Proof
begin

text \<open>
  Completeness and soundness of inclusion proofs. \<open>honest_proof\<close> is the proof of the reference
  tree. The locale \<open>merkle_read\<close> is the contract of the trait \<^verbatim>\<open>MerkleTreeRead\<close> (the four required
  methods show a list of layers); under it \<open>gen_proof\<close> returns the honest proof. It is
  interpreted for the tree and for its old versions. Soundness is a reduction: a proof that
  validates for a wrong leaf yields two different pairs of nodes with the same parent.
\<close>

subsection \<open>The honest proof\<close>

definition sibling :: "'e algo \<Rightarrow> nat \<Rightarrow> 'e list \<Rightarrow> nat \<Rightarrow> nat \<Rightarrow> 'e" where
  "sibling A h xs k j =
     (if even j
      then if j + 1 = layer_size (length xs) k then a_end_pad A (k + h) else layer_at A h xs k ! (j + 1)
      else layer_at A h xs k ! (j - 1))"

fun honest_siblings :: "'e algo \<Rightarrow> nat \<Rightarrow> 'e list \<Rightarrow> nat \<Rightarrow> nat \<Rightarrow> nat \<Rightarrow> 'e list" where
  "honest_siblings A h xs k 0 j = []"
| "honest_siblings A h xs k (Suc m) j = sibling A h xs k j # honest_siblings A h xs (Suc k) m (j div 2)"

fun path_bits :: "nat \<Rightarrow> nat \<Rightarrow> bool list" where
  "path_bits 0 j = []"
| "path_bits (Suc m) j = even j # path_bits m (j div 2)"

definition honest_proof :: "'e algo \<Rightarrow> nat \<Rightarrow> nat \<Rightarrow> 'e list \<Rightarrow> nat \<Rightarrow> 'e merkle_proof" where
  "honest_proof A h d xs i =
     (let m = tree_depth d (length xs) - 1
      in \<lparr>p_lemma = xs ! i # honest_siblings A h xs 0 m i @ [merkle_root A h d xs],
          p_path = path_bits m i\<rparr>)"

lemma length_honest_siblings [simp]: "length (honest_siblings A h xs k m j) = m"
  by (induction m arbitrary: k j) auto

lemma length_path_bits [simp]: "length (path_bits m j) = m"
  by (induction m arbitrary: j) auto

lemma parent_sibling:
  assumes "j < layer_size (length xs) k"
  shows "(if even j then a_parent A (layer_at A h xs k ! j) (sibling A h xs k j)
          else a_parent A (sibling A h xs k j) (layer_at A h xs k ! j)) = layer_at A h xs (Suc k) ! (j div 2)"
proof -
  have up: "j div 2 < layer_size (length xs) (Suc k)" using assms by simp
  show ?thesis
    unfolding nth_layer_at_Suc [OF up] using assms
    by (cases "even j") (auto simp: sibling_def parent_single_def elim!: evenE oddE)
qed

lemma climb_honest:
  "j < layer_size (length xs) k \<Longrightarrow>
     climb A (layer_at A h xs k ! j) (honest_siblings A h xs k m j) (path_bits m j) =
       Ok (layer_at A h xs (k + m) ! (j div 2 ^ m))"
proof (induction m arbitrary: k j)
  case (Suc m)
  have up: "j div 2 < layer_size (length xs) (Suc k)" using Suc.prems by simp
  have "climb A (layer_at A h xs k ! j) (honest_siblings A h xs k (Suc m) j) (path_bits (Suc m) j) =
      climb A (layer_at A h xs (Suc k) ! (j div 2)) (honest_siblings A h xs (Suc k) m (j div 2)) (path_bits m (j div 2))"
    using parent_sibling [OF Suc.prems, of A h] by (simp del: layer_at.simps)
  also have "\<dots> = Ok (layer_at A h xs (Suc k + m) ! (j div 2 div 2 ^ m))" by (rule Suc.IH [OF up])
  also have "j div 2 div 2 ^ m = j div 2 ^ Suc m" by (simp only: div_pow_Suc')
  finally show ?case by simp
qed simp

lemma path_position_Suc: "path_position (Suc i) bs = 2 * path_position i bs"
  by (induction bs arbitrary: i) auto

lemma path_position_bits: "j < 2 ^ m \<Longrightarrow> path_position 0 (path_bits m j) = j"
proof (induction m arbitrary: j)
  case (Suc m)
  then have "j div 2 < 2 ^ m" by simp
  with Suc.IH [of "j div 2"] show ?case by (simp add: path_position_Suc)
qed simp

lemma path_bits_position: "path_bits (length bs) (path_position 0 bs) = bs"
  by (induction bs) (auto simp: path_position_Suc)

lemma path_position_less: "path_position 0 bs < 2 ^ length bs"
  by (induction bs) (auto simp: path_position_Suc)

lemma leaf_index_less: "i < n \<Longrightarrow> i < 2 ^ (tree_depth d n - 1)"
proof -
  assume "i < n"
  moreover have "\<not> 1 < layer_size n (tree_depth d n - 1)" using tree_depth_top [of n d] by simp
  then have "n \<le> 2 ^ (tree_depth d n - 1)" by (simp add: layer_size_bound)
  ultimately show ?thesis by simp
qed

lemma honest_proof_root: "proof_root (honest_proof A h d xs i) = Ok (merkle_root A h d xs)"
  by (simp add: honest_proof_def proof_root_def Let_def)

lemma honest_proof_integrity:
  assumes "i < length xs"
  shows "validate_integrity A (honest_proof A h d xs i) = Ok True"
proof -
  let ?m = "tree_depth d (length xs) - 1"
  have "i div 2 ^ ?m = 0" using leaf_index_less [OF assms, of d] by simp
  with climb_honest [of i xs 0 A h ?m] assms show ?thesis
    by (simp add: validate_integrity_def honest_proof_def Let_def merkle_root_def)
qed

lemma honest_proof_position: "i < length xs \<Longrightarrow> proof_position (honest_proof A h d xs i) = i"
  using leaf_index_less [of i "length xs" d]
  by (simp add: proof_position_def honest_proof_def Let_def path_position_bits)

lemma honest_proof_valid:
  "i < length xs \<Longrightarrow> proof_validate A (honest_proof A h d xs i) (xs ! i) i = Ok ()"
  by (simp add: proof_validate_def honest_proof_integrity honest_proof_position)
    (simp add: proof_item_def honest_proof_def Let_def)

subsection \<open>Generating proofs\<close>

definition siblings_known :: "'e algo \<Rightarrow> 'e list list \<Rightarrow> nat \<Rightarrow> bool" where
  "siblings_known A ls i \<longleftrightarrow>
     (\<forall>k < length ls - 1. let j = i div 2 ^ k in
        if even j then j + 1 < length (ls ! k) \<longrightarrow> ls ! k ! (j + 1) \<noteq> a_null A
        else ls ! k ! (j - 1) \<noteq> a_null A)"

locale merkle_read =
  fixes A :: "'e algo" and reader :: "'r \<Rightarrow> 'e mread" and view :: "'r \<Rightarrow> 'e list list"
    and ok :: "'r \<Rightarrow> bool" and lh :: "'r \<Rightarrow> nat"
  assumes node: "\<lbrakk>ok r; k < length (view r); i < length (view r ! k)\<rbrakk> \<Longrightarrow> rd_node (reader r) k i = Ok (view r ! k ! i)"
    and height: "ok r \<Longrightarrow> rd_height (reader r) = length (view r)"
    and layer_len: "\<lbrakk>ok r; k < length (view r)\<rbrakk> \<Longrightarrow> rd_layer_len (reader r) k = Ok (length (view r ! k))"
    and padding: "rd_padding (reader r) k = a_end_pad A (k + lh r)"
begin

lemma sibling_read:
  assumes ok: "ok r" and kn: "knows A (lh r) xs (view r)" and k: "k < length (view r)"
    and j: "j < layer_size (length xs) k"
    and sib: "if even j then j + 1 < length (view r ! k) \<longrightarrow> view r ! k ! (j + 1) \<noteq> a_null A
              else view r ! k ! (j - 1) \<noteq> a_null A"
  shows "rd_sibling (reader r) k j = Ok (sibling A (lh r) xs k j)"
proof -
  from kn k have len: "length (view r ! k) = layer_size (length xs) k"
    and val: "\<And>i. i < layer_size (length xs) k \<Longrightarrow>
      view r ! k ! i = a_null A \<or> view r ! k ! i = layer_at A (lh r) xs k ! i" by (auto simp: knows_def)
  show ?thesis
  proof (cases "even j")
    case True
    with j sib len val [of "j + 1"] node [OF ok k, of "j + 1"] layer_len [OF ok k] padding [of r k]
    show ?thesis by (cases "j + 1 = layer_size (length xs) k") (auto simp: rd_sibling_def sibling_def)
  next
    case False
    with j sib len val [of "j - 1"] node [OF ok k, of "j - 1"]
    show ?thesis by (auto simp: rd_sibling_def sibling_def)
  qed
qed

lemma steps_read:
  assumes ok: "ok r" and kn: "knows A (lh r) xs (view r)" and i: "i < length xs"
    and sib: "siblings_known A (view r) i" and "k + m \<le> length (view r) - 1"
  shows "gen_steps (reader r) [k..<k + m] (i div 2 ^ k) =
           Ok (honest_siblings A (lh r) xs k m (i div 2 ^ k), path_bits m (i div 2 ^ k))"
  using assms(5)
proof (induction m arbitrary: k)
  case (Suc m)
  let ?j = "i div 2 ^ k"
  have k: "k < length (view r) - 1" "k < length (view r)" using Suc.prems by simp_all
  have j: "?j < layer_size (length xs) k"
    using i by (simp add: layer_size_bound) (metis div_times_less_eq_dividend le_less_trans)
  have "if even ?j then ?j + 1 < length (view r ! k) \<longrightarrow> view r ! k ! (?j + 1) \<noteq> a_null A
      else view r ! k ! (?j - 1) \<noteq> a_null A"
    using sib k(1) unfolding siblings_known_def Let_def by blast
  note here = sibling_read [OF ok kn k(2) j this]
  have "gen_steps (reader r) [Suc k..<Suc k + m] (?j div 2) =
      Ok (honest_siblings A (lh r) xs (Suc k) m (?j div 2), path_bits m (?j div 2))"
    using Suc.IH [of "Suc k"] Suc.prems by (simp add: div_pow_Suc del: power_Suc)
  with here show ?case by (subst upt_conv_Cons) (simp_all add: even_iff_mod_2_eq_zero)
qed simp

lemma gen_proof_honest:
  assumes ok: "ok r" and kn: "knows A (lh r) xs (view r)" and len: "length (view r) = tree_depth d (length xs)"
    and i: "i < length xs" and leaf: "view r ! 0 ! i \<noteq> a_null A"
    and top: "view r ! (length (view r) - 1) = [merkle_root A (lh r) d xs]"
    and sib: "siblings_known A (view r) i"
  shows "gen_proof A (reader r) i = Ok (honest_proof A (lh r) d xs i)"
proof -
  let ?D = "tree_depth d (length xs)"
  have pos: "0 < length (view r)" using len by simp
  from kn pos have len0: "length (view r ! 0) = length xs"
    and "view r ! 0 ! i = a_null A \<or> view r ! 0 ! i = xs ! i" using i by (force simp: knows_def)+
  with leaf have at: "view r ! 0 ! i = xs ! i" by simp
  have node0: "rd_node (reader r) 0 i = Ok (xs ! i)" using node [OF ok pos, of i] len0 i at by simp
  have leaves: "rd_leaves (reader r) = Ok (length xs)" using layer_len [OF ok pos] len0 by (simp add: rd_leaves_def)
  have root: "rd_root (reader r) = Ok (merkle_root A (lh r) d xs)"
    using node [OF ok, of "length (view r) - 1" 0] top height [OF ok] pos by (simp add: rd_root_def)
  have steps: "gen_steps (reader r) [0..<?D - Suc 0] i =
      Ok (honest_siblings A (lh r) xs 0 (?D - Suc 0) i, path_bits (?D - Suc 0) i)"
    using steps_read [OF ok kn i sib, of 0 "?D - 1"] len by simp
  show ?thesis
  proof (cases "?D = 1")
    case True
    with top len at len0 i have "merkle_root A (lh r) d xs = xs ! i" by (cases i) (auto simp: length_Suc_conv)
    with True show ?thesis
      using i leaf at height [OF ok] len
      by (simp add: gen_proof_def leaves node0 root proof_new_def honest_proof_def)
  next
    case False
    with i leaf at height [OF ok] len show ?thesis
      by (simp add: gen_proof_def leaves node0 root steps proof_new_def honest_proof_def Let_def)
  qed
qed

end

interpretation amt_read: merkle_read A "amt_reader A" layers "\<lambda>_. True" leaf_height for A :: "'e algo"
  by unfold_locales (simp_all add: amt_reader_def amt_node_def amt_layer_len_def vec_index_def)

lemma history_view_nth:
  assumes "history_ok ht" and "k < length (history_view ht)"
  shows "history_view ht ! k =
           take (fst (right_most_nodes (h_delta_nodes ht) ! k)) (h_layers ht ! k) @
             [snd (right_most_nodes (h_delta_nodes ht) ! k)]"
  using assms by (simp add: history_view_def split: prod.split)

lemma length_history_view: "history_ok ht \<Longrightarrow> length (history_view ht) = delta_height (h_delta_nodes ht)"
  by (simp add: history_view_def history_ok_def delta_height_def)

interpretation history_read: merkle_read A "history_reader A" history_view history_ok h_leaf_height for A :: "'e algo"
proof (unfold_locales, goal_cases)
  case (1 r k i)
  let ?rm = "right_most_nodes (h_delta_nodes r)"
  from 1 have k: "k < length ?rm" "k < length (h_layers r)" "fst (?rm ! k) \<le> length (h_layers r ! k)"
    by (auto simp: history_ok_def history_view_def)
  with 1 history_view_nth [OF 1(1,2)] show ?case
    by (auto simp: history_reader_def history_node_def delta_get_def vec_index_def nth_append)
next
  case (2 r)
  then show ?case by (simp add: history_reader_def history_height_def length_history_view)
next
  case (3 r k)
  then have "k < length (right_most_nodes (h_delta_nodes r))"
    "fst (right_most_nodes (h_delta_nodes r) ! k) \<le> length (h_layers r ! k)"
    by (auto simp: history_ok_def history_view_def)
  with history_view_nth [OF 3] show ?case
    by (simp add: history_reader_def history_layer_len_def delta_layer_len_def vec_index_def)
next
  case (4 r k)
  then show ?case by (simp add: history_reader_def)
qed

subsection \<open>Proofs of a tree and of its versions\<close>

lemma canon_siblings_known:
  assumes nf: "null_free A" and nn: "\<forall>x \<in> set xs. x \<noteq> a_null A" and i: "i < length xs"
  shows "siblings_known A (canon A h d xs) i"
  unfolding siblings_known_def Let_def
proof (intro allI impI)
  fix k assume "k < length (canon A h d xs) - 1"
  then have k: "k < tree_depth d (length xs)" by simp
  have "i div 2 ^ k < layer_size (length xs) k"
    using i by (simp add: layer_size_bound) (metis div_times_less_eq_dividend le_less_trans)
  then show "if even (i div 2 ^ k)
      then i div 2 ^ k + 1 < length (canon A h d xs ! k) \<longrightarrow> canon A h d xs ! k ! (i div 2 ^ k + 1) \<noteq> a_null A
      else canon A h d xs ! k ! (i div 2 ^ k - 1) \<noteq> a_null A"
    using k layer_at_not_null [OF nf nn, of _ k h] by simp
qed

lemma amt_gen_proof:
  assumes inv: "tree_inv A t xs" and i: "i < length xs" and leaf: "layers t ! 0 ! i \<noteq> a_null A"
    and sib: "siblings_known A (layers t) i"
  shows "gen_proof A (amt_reader A t) i = Ok (honest_proof A (leaf_height t) (depth_of t) xs i)"
proof (rule amt_read.gen_proof_honest)
  note I = tree_invD [OF inv]
  show "knows A (leaf_height t) xs (layers t)" using I(3) by (simp add: layers_ok_def)
  show "layers t ! (length (layers t) - 1) = [merkle_root A (leaf_height t) (depth_of t) xs]"
    by (rule top_layer [OF inv]) (use i in auto)
qed (use tree_invD(6) [OF inv] i leaf sib in simp_all)

lemma history_gen_proof:
  assumes inv: "tree_inv A t xs" and i: "i < length xs" and leaf: "layers t ! 0 ! i \<noteq> a_null A"
    and sib: "siblings_known A (layers t) i"
    and ext: "extends_version (layers t) (h_layers ht)" and ht: "h_delta_nodes ht = version_of (layers t)"
      "h_leaf_height ht = leaf_height t"
  shows "gen_proof A (history_reader A ht) i = Ok (honest_proof A (leaf_height t) (depth_of t) xs i)"
proof -
  note I = tree_invD [OF inv]
  have xs: "xs \<noteq> []" using i by auto
  have view: "history_view ht = layers t" and ok: "history_ok ht"
    using history_view_version [OF ext _ refl ht(1)] tree_inv_nonempty_layers [OF inv xs] by blast+
  have kn: "knows A (leaf_height t) xs (layers t)" using I(3) by (simp add: layers_ok_def)
  show ?thesis
    using history_read.gen_proof_honest [OF ok, unfolded view ht(2), OF kn I(6) i leaf top_layer [OF inv xs] sib] .
qed

subsection \<open>Soundness\<close>

definition collision :: "'e algo \<Rightarrow> bool" where
  "collision A \<longleftrightarrow> (\<exists>l r l' r'. a_parent A l r = a_parent A l' r' \<and> (l, r) \<noteq> (l', r'))"

lemma parent_inj: "a_parent A l r = a_parent A l' r' \<Longrightarrow> l = l' \<and> r = r' \<or> collision A"
  unfolding collision_def by blast

lemma climb_inj:
  assumes "climb A x ss bs = Ok z" and "climb A y ss' bs = Ok z" and "length ss = length ss'"
  shows "x = y \<and> ss = ss' \<or> collision A"
  using assms
proof (induction A x ss bs arbitrary: y ss' rule: climb.induct)
  case (3 A h s ss b bs)
  then obtain s' rest where ss': "ss' = s' # rest" by (cases ss') auto
  with 3 have "(if b then a_parent A h s else a_parent A s h) = (if b then a_parent A y s' else a_parent A s' y)
      \<and> ss = rest \<or> collision A" by simp
  with ss' show ?case by (cases b) (auto dest: parent_inj)
qed auto

lemma validate_sound:
  assumes val: "proof_validate A p item pos = Ok ()" and root: "proof_root p = Ok (merkle_root A h d xs)"
    and shape: "length (p_lemma p) = length (p_path p) + 2" "length (p_path p) = tree_depth d (length xs) - 1"
    and pos: "pos < length xs"
  shows "item = xs ! pos \<or> collision A"
proof -
  let ?m = "tree_depth d (length xs) - 1"
  from val have int: "validate_integrity A p = Ok True" and it: "item = hd (p_lemma p)"
    and at: "pos = proof_position p"
    by (auto simp: proof_validate_def proof_item_def split: if_splits)
  from int root have up: "climb A item (butlast (tl (p_lemma p))) (p_path p) = Ok (merkle_root A h d xs)"
    using shape it by (auto simp: validate_integrity_def proof_root_def split: if_splits)
  have bits: "p_path p = path_bits ?m pos" using path_bits_position [of "p_path p"] shape at by (simp add: proof_position_def)
  have "pos div 2 ^ ?m = 0" using leaf_index_less [OF pos, of d] by simp
  with climb_honest [of pos xs 0 A h ?m] pos
  have "climb A (xs ! pos) (honest_siblings A h xs 0 ?m pos) (p_path p) = Ok (merkle_root A h d xs)"
    by (simp add: bits merkle_root_def)
  from climb_inj [OF up this] shape show ?thesis by auto
qed

text \<open>The path may be longer than the lemma: the extra bits count for the position only.\<close>

lemma climb_longer_path: "climb A x ss bs = Ok z \<Longrightarrow> climb A x ss (bs @ bs') = Ok z"
  by (induction A x ss bs rule: climb.induct) auto

lemma path_position_append: "path_position i (bs @ bs') = path_position i bs + path_position (i + length bs) bs'"
  by (induction bs arbitrary: i) auto

lemma validate_longer_path:
  assumes "proof_validate A p item pos = Ok ()"
  shows "proof_validate A (p\<lparr>p_path := p_path p @ [False]\<rparr>) item (pos + 2 ^ length (p_path p)) = Ok ()"
  using assms climb_longer_path [of A _ _ "p_path p"]
  by (auto simp: proof_validate_def validate_integrity_def proof_item_def proof_position_def
      path_position_append split: if_splits)

lemma climb_panic_iff: "is_Panic (climb A x ss bs) \<longleftrightarrow> length bs < length ss"
  by (induction A x ss bs rule: climb.induct) auto

lemma climb_not_Err: "climb A x ss bs \<noteq> Err e"
  by (induction A x ss bs rule: climb.induct) auto

lemma validate_panic_iff:
  "is_Panic (proof_validate A p item pos) \<longleftrightarrow> length (p_path p) + 2 < length (p_lemma p)"
proof (cases "length (p_lemma p) < 2")
  case False
  let ?c = "climb A (hd (p_lemma p)) (butlast (tl (p_lemma p))) (p_path p)"
  have size: "is_Panic ?c \<longleftrightarrow> length (p_path p) + 2 < length (p_lemma p)"
    using False by (auto simp: climb_panic_iff)
  have item: "p_lemma p \<noteq> []" using False by auto
  show ?thesis
  proof (cases ?c)
    case (Ok z)
    with size item False show ?thesis
      by (auto simp: proof_validate_def validate_integrity_def proof_item_def split: if_splits)
  next
    case (Panic m)
    with size False show ?thesis by (simp add: proof_validate_def validate_integrity_def)
  qed (simp add: climb_not_Err)
qed (auto simp: proof_validate_def validate_integrity_def)

end
