(* ===== verification/Merkle_Light.thy ===== *)
theory Merkle_Light
  imports Merkle_Hash
begin

text \<open>
  The Merkle tree of files, \<^verbatim>\<open>common/merkle_light/src/merkle.rs\<close> and \<^verbatim>\<open>proof.rs\<close>, with the hash of
  \<^verbatim>\<open>common/merkle_tree/src/lib.rs\<close>. All layers stand in one vector; a layer of odd width is
  padded with a null node, and a null node with a link stands for the node it links to. The
  definitions follow \<^verbatim>\<open>build\<close> and \<^verbatim>\<open>gen_proof\<close> with their indices; \<open>Merkle_Light_Laws\<close> relates
  them to the tree without storage, \<open>light_root\<close>.
\<close>

unbundle bit_operations_syntax

subsection \<open>Powers of two on 64-bit numbers\<close>

definition smear :: "64 word \<Rightarrow> 64 word" where
  "smear n =
     (let n = n OR drop_bit 1 n; n = n OR drop_bit 2 n; n = n OR drop_bit 4 n;
          n = n OR drop_bit 8 n; n = n OR drop_bit 16 n
      in n OR drop_bit 32 n)"

definition next_pow2 :: "nat \<Rightarrow> nat res" where
  "next_pow2 n =
     (if n = 0 then Panic ''attempt to subtract with overflow''
      else let w = smear (of_nat (n - 1))
           in if w = - 1 then Panic ''attempt to add with overflow'' else Ok (unat w + 1))"

text \<open>\<open>trailing_zeros\<close>.\<close>

definition log2_pow2 :: "nat \<Rightarrow> nat" where
  "log2_pow2 n = length (takeWhile (\<lambda>i. \<not> bit (of_nat n :: 64 word) i) [0..<64])"

subsection \<open>The tree\<close>

text \<open>\<open>Algorithm<T>\<close> with \<open>T::default()\<close>, the null node.\<close>

record 'e light_algo =
  lt_node :: "'e \<Rightarrow> 'e \<Rightarrow> 'e"
  lt_leaf :: "'e \<Rightarrow> 'e"
  lt_null :: 'e

definition raw_leaf_sha3 :: "(byte list \<Rightarrow> h256) \<Rightarrow> h256 light_algo" where
  "raw_leaf_sha3 keccak =
     \<lparr>lt_node = (\<lambda>l r. keccak (l @ r)), lt_leaf = (\<lambda>x. x), lt_null = replicate 32 0\<rparr>"

record 'e light_tree =
  lt_data :: "'e list"
  lt_leafs :: nat
  lt_height :: nat
  lt_links :: "(nat, nat) hmap"

text \<open>One step of the parallel map of \<open>build\<close>: the parent of the nodes \<open>i\<close> and \<open>i + 1\<close>, and the
  update of the link map it asks for (from, to, remove).\<close>

definition build_node ::
  "'e light_algo \<Rightarrow> 'e list \<Rightarrow> (nat, nat) hmap \<Rightarrow> nat \<Rightarrow> nat \<Rightarrow> nat \<Rightarrow> ('e \<times> (nat \<times> nat \<times> nat option) option) res" where
  "build_node L data links layer_start layer_end i =
     rbind (vec_index data (i + 1)) (\<lambda>r.
     rbind (vec_index data i) (\<lambda>l.
       if r \<noteq> lt_null L then Ok (lt_node L l r, None)
       else
         let parent_index = (i - layer_start) div 2 + layer_end
         in if l = lt_null L then
              (case hm_get links i of
                 None \<Rightarrow> Panic ''unwrap of None''
               | Some linked_to \<Rightarrow> Ok (lt_null L, Some (parent_index, linked_to, Some i)))
            else
              (case hm_get links (i + 1) of
                 Some index \<Rightarrow>
                   rbind (vec_index data index) (\<lambda>x.
                   rbind (assert_that (x \<noteq> lt_null L) ''assert_ne'') (\<lambda>_. Ok (lt_node L l x, None)))
               | None \<Rightarrow> Ok (lt_null L, Some (parent_index, i, None)))))"

fun build_nodes ::
  "'e light_algo \<Rightarrow> 'e list \<Rightarrow> (nat, nat) hmap \<Rightarrow> nat \<Rightarrow> nat \<Rightarrow> nat list \<Rightarrow> ('e \<times> (nat \<times> nat \<times> nat option) option) list res" where
  "build_nodes L data links layer_start layer_end [] = Ok []"
| "build_nodes L data links layer_start layer_end (i # is) =
     rbind (build_node L data links layer_start layer_end i) (\<lambda>x.
     rbind (build_nodes L data links layer_start layer_end is) (\<lambda>xs. Ok (x # xs)))"

fun link_update :: "(nat, nat) hmap \<Rightarrow> (nat \<times> nat \<times> nat option) option \<Rightarrow> (nat, nat) hmap" where
  "link_update links None = links"
| "link_update links (Some (from_ix, to_ix, None)) = hm_insert from_ix to_ix links"
| "link_update links (Some (from_ix, to_ix, Some i)) = hm_remove i (hm_insert from_ix to_ix links)"

text \<open>The while loop of \<open>build\<close>. The layer is the data from \<open>layer_start\<close> to \<open>layer_end\<close>.\<close>

function build_loop ::
  "'e light_algo \<Rightarrow> nat \<Rightarrow> nat \<Rightarrow> nat \<Rightarrow> 'e list \<Rightarrow> (nat, nat) hmap \<Rightarrow> ('e list \<times> (nat, nat) hmap) res" where
  "build_loop L width layer_start layer_end data links =
     (if width \<le> 1 then Ok (data, links)
      else
        let fill = odd width;
            data' = (if fill then data @ [lt_null L] else data);
            width' = (if fill then width + 1 else width);
            layer_end' = (if fill then layer_end + 1 else layer_end);
            step = map (\<lambda>k. layer_start + 2 * k) [0..<(layer_end' - layer_start + 1) div 2]
        in rbind (build_nodes L data' links layer_start layer_end' step) (\<lambda>layer.
             build_loop L (width' div 2) layer_end' (layer_end' + width' div 2)
               (data' @ map fst layer) (foldl link_update links (map snd layer))))"
  by pat_completeness auto
termination
  by (relation "measure (\<lambda>(L, width, s, e, d, l). width)") (auto elim!: oddE)

declare build_loop.simps [simp del]

definition from_iter :: "'e light_algo \<Rightarrow> 'e list \<Rightarrow> 'e light_tree res" where
  "from_iter L items =
     rbind (next_pow2 (length items)) (\<lambda>pow.
     let data = map (lt_leaf L) items; leafs = length data; size = 2 * pow - 1
     in rbind (build_loop L leafs 0 leafs data []) (\<lambda>(data', links).
          Ok \<lparr>lt_data = data', lt_leafs = leafs, lt_height = log2_pow2 (size + 1), lt_links = links\<rparr>))"

definition light_tree_root :: "'e light_tree \<Rightarrow> 'e res" where
  "light_tree_root t =
     (if lt_data t = [] then Panic ''attempt to subtract with overflow''
      else Ok (lt_data t ! (length (lt_data t) - 1)))"

subsection \<open>Inclusion proofs\<close>

record 'e light_proof =
  lp_lemma :: "'e list"
  lp_path :: "bool list"

definition light_proof_new :: "'e list \<Rightarrow> bool list \<Rightarrow> 'e light_proof res" where
  "light_proof_new hash path =
     rbind (if 2 < length hash then assert_that (length hash - 2 = length path) ''path length''
            else assert_that (length hash = 1 \<and> path = []) ''single node'') (\<lambda>_.
       Ok \<lparr>lp_lemma = hash, lp_path = path\<rparr>)"

definition light_proof_item :: "'e light_proof \<Rightarrow> 'e res" where
  "light_proof_item p = vec_index (lp_lemma p) 0"

definition light_proof_root :: "'e light_proof \<Rightarrow> 'e res" where
  "light_proof_root p =
     (if lp_lemma p = [] then Panic ''unwrap of None'' else Ok (lp_lemma p ! (length (lp_lemma p) - 1)))"

text \<open>The loop of \<open>validate\<close> over \<open>lemma[1..size-1]\<close>.\<close>

fun light_climb :: "'e light_algo \<Rightarrow> 'e \<Rightarrow> 'e list \<Rightarrow> bool list \<Rightarrow> 'e res" where
  "light_climb L h [] path = Ok h"
| "light_climb L h (x # xs) [] = Panic ''index out of bounds''"
| "light_climb L h (x # xs) (b # path) =
     light_climb L (if b then lt_node L h x else lt_node L x h) xs path"

definition light_validate :: "'e light_algo \<Rightarrow> 'e light_proof \<Rightarrow> bool res" where
  "light_validate L p =
     (let size = length (lp_lemma p)
      in if size = 1 \<and> lp_path p = [] then Ok True
         else if size < 2 then Ok False
         else rbind (light_climb L (lp_lemma p ! 0) (slice (lp_lemma p) 1 (size - 1)) (lp_path p)) (\<lambda>h.
                Ok (h = lp_lemma p ! (size - 1))))"

text \<open>
  The sibling of node \<open>j\<close> of the layer at \<open>base\<close>: the node itself, the node its link leads to,
  or none for a padding node.
\<close>

definition proof_hash_index :: "'e light_algo \<Rightarrow> 'e light_tree \<Rightarrow> nat \<Rightarrow> nat \<Rightarrow> nat option res" where
  "proof_hash_index L t base j =
     (if even j then
        let right_index = base + j + 1
        in rbind (vec_index (lt_data t) right_index) (\<lambda>r.
             if r = lt_null L then
               (case hm_get (lt_links t) right_index of
                  Some index \<Rightarrow>
                    rbind (vec_index (lt_data t) index) (\<lambda>x.
                    rbind (assert_that (x \<noteq> lt_null L) ''assert_ne'') (\<lambda>_. Ok (Some index)))
                | None \<Rightarrow> Ok None)
             else Ok (Some right_index))
      else Ok (Some (base + j - 1)))"

text \<open>
  The loop of \<open>gen_proof\<close>, returning the siblings and the path. Its width is 2 or more in every
  round when the tree has leaves, which \<open>gen_proof\<close> has asserted; the guard on the width is
  what makes the recursion well-founded.
\<close>

function light_gen_loop ::
  "'e light_algo \<Rightarrow> 'e light_tree \<Rightarrow> nat \<Rightarrow> nat \<Rightarrow> nat \<Rightarrow> ('e list \<times> bool list) res" where
  "light_gen_loop L t base width j =
     (if base + 1 < length (lt_data t) \<and> 0 < width then
        rbind (proof_hash_index L t base j) (\<lambda>ix.
        rbind (case ix of
                 None \<Rightarrow> Ok ([], [])
               | Some index \<Rightarrow> rbind (vec_index (lt_data t) index) (\<lambda>x. Ok ([x], [even j]))) (\<lambda>(x, b).
        rbind (light_gen_loop L t (base + width) (if odd (width div 2) then width div 2 + 1 else width div 2) (j div 2))
          (\<lambda>(xs, bs). Ok (x @ xs, b @ bs))))
      else Ok ([], []))"
  by pat_completeness auto
termination
  by (relation "measure (\<lambda>(L, t, base, width, j). length (lt_data t) - base)") auto

declare light_gen_loop.simps [simp del]

definition light_gen_proof :: "'e light_algo \<Rightarrow> 'e light_tree \<Rightarrow> nat \<Rightarrow> 'e light_proof res" where
  "light_gen_proof L t i =
     (if lt_leafs t = 1 then
        rbind (assert_that (i = 0) ''assert_eq'') (\<lambda>_.
        rbind (light_tree_root t) (\<lambda>r. light_proof_new [r] []))
      else
        rbind (assert_that (i < lt_leafs t) ''i < leafs'') (\<lambda>_.
        rbind (vec_index (lt_data t) i) (\<lambda>item.
        rbind (light_gen_loop L t 0 (if odd (lt_leafs t) then lt_leafs t + 1 else lt_leafs t) i) (\<lambda>(xs, bs).
        rbind (light_tree_root t) (\<lambda>r. light_proof_new (item # xs @ [r]) bs)))))"

end
