(* ===== verification/Merkle_Light_Laws.thy ===== *)
theory Merkle_Light_Laws
  imports Merkle_Light
begin

text \<open>
  The laws of \<open>Merkle_Light\<close>: \<open>next_pow2\<close> is the least power of two, \<open>build\<close> stores the tree that
  pairs the nodes of each layer and carries an odd one up, and \<open>gen_proof\<close> reads from that
  storage the siblings on the way from a leaf to the root.
\<close>

subsection \<open>Powers of two\<close>

definition smeared :: "64 word \<Rightarrow> nat \<Rightarrow> 64 word \<Rightarrow> bool" where
  "smeared w s f \<longleftrightarrow> (\<forall>i. bit f i \<longleftrightarrow> (\<exists>j. i \<le> j \<and> j < i + s \<and> bit w j))"

lemma smeared_one: "smeared w (Suc 0) w"
  unfolding smeared_def by (auto simp: less_Suc_eq_le dest: le_antisym)

lemma smeared_double:
  assumes "smeared w s f" shows "smeared w (2 * s) (f OR drop_bit s f)"
proof -
  have "bit (f OR drop_bit s f) i \<longleftrightarrow> (\<exists>j. i \<le> j \<and> j < i + 2 * s \<and> bit w j)" for i
  proof -
    have "bit (f OR drop_bit s f) i \<longleftrightarrow> bit f i \<or> bit f (s + i)"
      by (simp add: bit_or_iff bit_drop_bit_eq)
    also have "\<dots> \<longleftrightarrow> (\<exists>j. i \<le> j \<and> j < i + s \<and> bit w j) \<or> (\<exists>j. s + i \<le> j \<and> j < s + i + s \<and> bit w j)"
      using assms unfolding smeared_def by blast
    also have "\<dots> \<longleftrightarrow> (\<exists>j. i \<le> j \<and> j < i + 2 * s \<and> bit w j)"
    proof (safe, goal_cases)
      case (1 j) then show ?case by (intro exI [of _ j]) auto
    next
      case (2 j) then show ?case by (intro exI [of _ j]) auto
    next
      case (3 j)
      show ?case
      proof (cases "j < i + s")
        case True
        with 3 show ?thesis by blast
      next
        case False
        with 3 have "s + i \<le> j" "j < s + i + s" by auto
        with 3 show ?thesis by blast
      qed
    qed
    finally show ?thesis .
  qed
  then show ?thesis unfolding smeared_def by blast
qed

lemma smeared_smear: "smeared w 64 (smear w)"
proof -
  note d = smeared_double
  have a: "smeared w 2 (w OR drop_bit 1 w)" using d [OF smeared_one] by simp
  note b = d [OF a, simplified] note c = d [OF b, simplified] note e = d [OF c, simplified]
  note f = d [OF e, simplified] note g = d [OF f, simplified]
  show ?thesis using g by (simp add: smear_def Let_def)
qed

lemma nat_bit_above: "(\<exists>j \<ge> i. bit (m::nat) j) \<longleftrightarrow> 2 ^ i \<le> m"
proof -
  have "(\<exists>j \<ge> i. bit m j) \<longleftrightarrow> (\<exists>l. bit (drop_bit i m) l)"
    by (auto simp: bit_drop_bit_eq intro: le_add1 dest: le_Suc_ex)
  also have "\<dots> \<longleftrightarrow> drop_bit i m \<noteq> 0" by (auto simp: bit_eq_iff)
  also have "\<dots> \<longleftrightarrow> 2 ^ i \<le> m" by (simp add: drop_bit_eq_div div_eq_0_iff not_less)
  finally show ?thesis .
qed

lemma bit_smear:
  assumes "m < 2 ^ 64" shows "bit (smear (of_nat m)) i \<longleftrightarrow> 2 ^ i \<le> m"
proof -
  have hi: "j < 64" if "bit m j" for j
  proof -
    have "2 ^ j \<le> m" using that nat_bit_above [of j m] by blast
    with assms have "(2::nat) ^ j < 2 ^ 64" by simp
    then show ?thesis by (rule power_less_imp_less_exp [rotated]) simp
  qed
  have b: "bit (of_nat m :: 64 word) j \<longleftrightarrow> bit m j" for j
    using hi [of j] by (auto simp: bit_of_nat_iff)
  have "bit (smear (of_nat m)) i \<longleftrightarrow> (\<exists>j. i \<le> j \<and> j < i + 64 \<and> bit (of_nat m :: 64 word) j)"
    using smeared_smear unfolding smeared_def by blast
  also have "\<dots> \<longleftrightarrow> (\<exists>j \<ge> i. bit m j)"
    unfolding b using hi by (metis trans_less_add2)
  finally show ?thesis by (simp add: nat_bit_above)
qed

lemma smear_eq_mask:
  assumes "m < 2 ^ k" and "k = 0 \<or> 2 ^ (k - 1) \<le> m" and "k \<le> 64"
  shows "smear (of_nat m) = mask k"
proof -
  have m: "m < 2 ^ 64"
    using less_le_trans [OF assms(1) power_increasing [OF assms(3), of 2]] by simp
  have iff: "2 ^ i \<le> m \<longleftrightarrow> i < k" for i
  proof
    assume "2 ^ i \<le> m"
    with assms(1) have "(2::nat) ^ i < 2 ^ k" by (rule le_less_trans [rotated])
    then show "i < k" by (rule power_less_imp_less_exp [rotated]) simp
  next
    assume "i < k"
    then have "(2::nat) ^ i \<le> 2 ^ (k - 1)" by (intro power_increasing) auto
    moreover have "2 ^ (k - 1) \<le> m" using assms(2) \<open>i < k\<close> by blast
    ultimately show "2 ^ i \<le> m" by (rule le_trans)
  qed
  show ?thesis
  proof (rule bit_word_eqI)
    fix i assume "i < LENGTH(64)"
    then show "bit (smear (of_nat m)) i = bit (mask k :: 64 word) i"
      unfolding bit_smear [OF m] iff by (simp add: bit_mask_iff)
  qed
qed

lemma pow2_above:
  assumes "0 < (n::nat)" obtains k where "n \<le> 2 ^ k" "2 ^ k < 2 * n"
proof -
  define k where "k = (LEAST k. n \<le> 2 ^ k)"
  have le: "n \<le> 2 ^ k" unfolding k_def by (rule LeastI_ex) (meson less_exp less_imp_le)
  have "2 ^ k < 2 * n"
  proof (cases k)
    case 0
    then show ?thesis using assms by simp
  next
    case (Suc j)
    then have "\<not> n \<le> 2 ^ j" using not_less_Least [of j "\<lambda>k. n \<le> 2 ^ k"] by (simp add: k_def)
    then show ?thesis using Suc by simp
  qed
  with le show ?thesis using that by blast
qed

lemma next_pow2_eq:
  assumes "n \<le> 2 ^ k" and "2 ^ k < 2 * n" and "k < 64"
  shows "next_pow2 n = Ok (2 ^ k)"
proof -
  have n: "0 < n" using assms(2) by simp
  have "n - 1 < 2 ^ k" using assms(1) n by linarith
  moreover have "k = 0 \<or> 2 ^ (k - 1) \<le> n - 1" using assms(2) by (cases k) auto
  ultimately have s: "smear (of_nat (n - 1)) = mask k" using assms(3) by (intro smear_eq_mask) auto
  have "(2::nat) ^ k < 2 ^ 64" using assms(3) by (intro power_strict_increasing) auto
  then have "(2::nat) ^ k - 1 < 2 ^ LENGTH(64)" by simp
  then have "unat (of_nat (2 ^ k - 1) :: 64 word) = 2 ^ k - 1" unfolding unat_of_nat by (rule mod_less)
  then have u: "unat (mask k :: 64 word) + 1 = 2 ^ k" by (simp add: mask_eq_exp_minus_1)
  have "mask k \<noteq> (- 1 :: 64 word)"
  proof
    assume "mask k = (- 1 :: 64 word)"
    then have "bit (mask k :: 64 word) k \<longleftrightarrow> bit (- 1 :: 64 word) k" by simp
    then show False using assms(3) by (simp add: bit_mask_iff)
  qed
  with n s u show ?thesis by (simp add: next_pow2_def Let_def)
qed

lemma next_pow2_Ok:
  assumes "0 < n" and "n \<le> 2 ^ 63"
  obtains k where "next_pow2 n = Ok (2 ^ k)" "n \<le> 2 ^ k" "2 ^ k < 2 * n" "k \<le> 63"
proof -
  obtain k where k: "n \<le> 2 ^ k" "2 ^ k < 2 * n" using pow2_above [OF assms(1)] .
  have "(2::nat) ^ k < 2 ^ 64" using k(2) assms(2) by simp
  then have "k < 64" by (rule power_less_imp_less_exp [rotated]) simp
  with next_pow2_eq [OF k] k that show ?thesis by simp
qed

lemma next_pow2_overflow:
  assumes "2 ^ 63 < n" and "n \<le> 2 ^ 64"
  shows "is_Panic (next_pow2 n)"
proof -
  have "smear (of_nat (n - 1)) = mask 64" using assms by (intro smear_eq_mask) auto
  moreover have "mask 64 = (- 1 :: 64 word)" by (auto intro!: bit_word_eqI simp: bit_mask_iff)
  ultimately show ?thesis using assms by (simp add: next_pow2_def Let_def)
qed

lemma log2_pow2_pow: "k < 64 \<Longrightarrow> log2_pow2 (2 ^ k) = k"
proof -
  assume k: "k < 64"
  have "[0..<64] = [0..<k] @ k # [Suc k..<64]" using k upt_add_eq_append [of 0 k "64 - k"] by (simp add: upt_conv_Cons)
  moreover have "bit (of_nat (2 ^ k) :: 64 word) i \<longleftrightarrow> i = k" if "i < 64" for i
    using that by (auto simp: bit_simps)
  ultimately show ?thesis using k by (simp add: log2_pow2_def takeWhile_append)
qed

subsection \<open>The tree without storage\<close>

fun up :: "'e light_algo \<Rightarrow> 'e list \<Rightarrow> 'e list" where
  "up L (x # y # zs) = lt_node L x y # up L zs"
| "up L xs = xs"

lemma length_up [simp]: "length (up L xs) = (length xs + 1) div 2"
  by (induction L xs rule: up.induct) auto

function light_root :: "'e light_algo \<Rightarrow> 'e list \<Rightarrow> 'e" where
  "light_root L xs = (if length xs \<le> 1 then hd xs else light_root L (up L xs))"
  by pat_completeness auto
termination by (relation "measure (\<lambda>(L, xs). length xs)") auto

declare light_root.simps [simp del]

lemma nth_up:
  "k < (length xs + 1) div 2 \<Longrightarrow>
     up L xs ! k = (if 2 * k + 1 < length xs then lt_node L (xs ! (2 * k)) (xs ! (2 * k + 1)) else xs ! (2 * k))"
proof (induction L xs arbitrary: k rule: up.induct)
  case (1 L x y zs)
  then show ?case by (cases k) auto
qed auto

definition null_free_light :: "'e light_algo \<Rightarrow> bool" where
  "null_free_light L \<longleftrightarrow> (\<forall>l r. lt_node L l r \<noteq> lt_null L)"

lemma up_not_null: "null_free_light L \<Longrightarrow> lt_null L \<notin> set xs \<Longrightarrow> lt_null L \<notin> set (up L xs)"
  by (induction L xs rule: up.induct) (auto simp: null_free_light_def, metis)

subsection \<open>Building\<close>

text \<open>Position \<open>p\<close> of the storage stands for the node \<open>x\<close>, itself or through its link.\<close>

definition node_at :: "'e light_algo \<Rightarrow> 'e list \<Rightarrow> (nat, nat) hmap \<Rightarrow> nat \<Rightarrow> 'e \<Rightarrow> bool" where
  "node_at L d lk p x \<longleftrightarrow>
     p < length d \<and> x \<noteq> lt_null L \<and>
     (d ! p = x \<or> d ! p = lt_null L \<and> (\<exists>q. hm_get lk p = Some q \<and> q < length d \<and> d ! q = x))"

text \<open>The topmost layer while the tree is built, and a layer with its parents in place.\<close>

definition top_layer :: "'e light_algo \<Rightarrow> 'e list \<Rightarrow> (nat, nat) hmap \<Rightarrow> nat \<Rightarrow> 'e list \<Rightarrow> bool" where
  "top_layer L d lk base ls \<longleftrightarrow>
     ls \<noteq> [] \<and> length d = base + length ls \<and> lt_null L \<notin> set ls \<and>
     (\<forall>j. j + 1 < length ls \<longrightarrow> d ! (base + j) = ls ! j) \<and>
     node_at L d lk (base + length ls - 1) (ls ! (length ls - 1)) \<and>
     (length ls = 1 \<longrightarrow> d ! base = ls ! 0) \<and>
     (\<forall>k \<ge> base. k \<noteq> base + length ls - 1 \<longrightarrow> hm_get lk k = None)"

definition even_len :: "nat \<Rightarrow> nat" where
  "even_len n = n + n mod 2"

definition built :: "'e light_algo \<Rightarrow> 'e list \<Rightarrow> (nat, nat) hmap \<Rightarrow> nat \<Rightarrow> 'e list \<Rightarrow> bool" where
  "built L d lk base ls \<longleftrightarrow>
     base + even_len (length ls) \<le> length d \<and>
     (\<forall>j. even j \<longrightarrow> j + 1 < length ls \<longrightarrow> d ! (base + j) = ls ! j) \<and>
     (\<forall>j < length ls. odd j \<longrightarrow> node_at L d lk (base + j) (ls ! j)) \<and>
     (odd (length ls) \<longrightarrow>
        d ! (base + length ls) = lt_null L \<and> hm_get lk (base + length ls) = None)"

function stored :: "'e light_algo \<Rightarrow> 'e list \<Rightarrow> (nat, nat) hmap \<Rightarrow> nat \<Rightarrow> 'e list \<Rightarrow> bool" where
  "stored L d lk base ls =
     (if length ls \<le> 1 then length d = base + 1 \<and> d ! base = hd ls
      else built L d lk base ls \<and> stored L d lk (base + even_len (length ls)) (up L ls))"
  by pat_completeness auto
termination by (relation "measure (\<lambda>(L, d, lk, base, ls). length ls)") auto

declare stored.simps [simp del]

lemma node_at_extend:
  "node_at L d lk p x \<Longrightarrow> hm_get lk' p = hm_get lk p \<Longrightarrow> node_at L (d @ e) lk' p x"
  by (auto simp: node_at_def nth_append)

lemma built_extend:
  assumes "built L d lk base ls" and "\<forall>j < even_len (length ls). odd j \<longrightarrow> hm_get lk' (base + j) = hm_get lk (base + j)"
  shows "built L (d @ e) lk' base ls"
proof -
  have lt: "j < length ls \<Longrightarrow> j < even_len (length ls)" for j by (simp add: even_len_def)
  have top: "odd (length ls) \<Longrightarrow> length ls < even_len (length ls)"
    by (auto simp: even_len_def odd_iff_mod_2_eq_one)
  show ?thesis
    unfolding built_def
  proof (intro conjI allI impI)
    fix j assume "even j" "j + 1 < length ls"
    then show "(d @ e) ! (base + j) = ls ! j"
      using assms(1) lt [of j] by (auto simp: built_def nth_append)
  next
    fix j assume "j < length ls" "odd j"
    then show "node_at L (d @ e) lk' (base + j) (ls ! j)"
      using assms lt [of j] by (auto simp: built_def intro!: node_at_extend)
  qed (use assms top in \<open>auto simp: built_def nth_append\<close>)
qed

lemma build_nodes_Ok:
  "(\<And>i. i \<in> set is \<Longrightarrow> build_node L d lk s e i = Ok (f i)) \<Longrightarrow> build_nodes L d lk s e is = Ok (map f is)"
  by (induction "is") auto

lemma foldl_link_None: "foldl link_update lk (map (\<lambda>_. None) xs) = lk"
  by (induction xs) auto

lemma build_node_pair:
  assumes top: "top_layer L d lk base ls" and k: "2 * k + 1 < length ls"
  shows "build_node L (d @ e) lk base le (base + 2 * k) = Ok (up L ls ! k, None)"
proof -
  have len: "length d = base + length ls" and nn: "lt_null L \<notin> set ls"
    and dir: "\<And>j. j + 1 < length ls \<Longrightarrow> d ! (base + j) = ls ! j"
    and last: "node_at L d lk (base + length ls - 1) (ls ! (length ls - 1))"
    using top by (auto simp: top_layer_def)
  have u: "up L ls ! k = lt_node L (ls ! (2 * k)) (ls ! (2 * k + 1))" using k by (subst nth_up) auto
  have l: "(d @ e) ! (base + 2 * k) = ls ! (2 * k)" using dir [of "2 * k"] k len by (simp add: nth_append)
  have lnn: "ls ! (2 * k) \<noteq> lt_null L" "ls ! (2 * k + 1) \<noteq> lt_null L" using nn k nth_mem by (metis add_lessD1)+
  have r: "node_at L d lk (base + 2 * k + 1) (ls ! (2 * k + 1))"
  proof (cases "2 * k + 2 < length ls")
    case True
    then show ?thesis using dir [of "2 * k + 1"] lnn len by (simp add: node_at_def)
  next
    case False
    then have "length ls = 2 * k + 2" using k by simp
    then show ?thesis using last by simp
  qed
  from r consider "(d @ e) ! (base + 2 * k + 1) = ls ! (2 * k + 1)"
    | q where "(d @ e) ! (base + 2 * k + 1) = lt_null L" "hm_get lk (base + 2 * k + 1) = Some q"
        "q < length d" "(d @ e) ! q = ls ! (2 * k + 1)"
    by (auto simp: node_at_def nth_append)
  then show ?thesis
    by cases (use l lnn len k u in \<open>simp_all add: build_node_def vec_index_def Let_def\<close>)
qed

text \<open>The last node of an odd layer: its parent is a null node linked to it, or to what it links to.\<close>

lemma build_node_last:
  assumes top: "top_layer L d lk base ls" and n: "length ls = 2 * k + 1" "0 < k"
  obtains q rm where "build_node L (d @ [lt_null L]) lk base le (base + 2 * k) = Ok (lt_null L, Some (k + le, q, rm))"
    and "q < length d" "d ! q = ls ! (2 * k)" "rm = None \<or> rm = Some (base + 2 * k)"
proof -
  have len: "length d = base + 2 * k + 1" and last: "node_at L d lk (base + 2 * k) (ls ! (2 * k))"
    and none: "hm_get lk (base + 2 * k + 1) = None"
    using top n by (auto simp: top_layer_def)
  have pad: "(d @ [lt_null L]) ! (base + 2 * k + 1) = lt_null L" using len by (simp add: nth_append)
  have l: "(d @ [lt_null L]) ! (base + 2 * k) = d ! (base + 2 * k)" using len by (simp add: nth_append)
  show ?thesis
  proof (cases "d ! (base + 2 * k) = lt_null L")
    case True
    then obtain q where "hm_get lk (base + 2 * k) = Some q" "q < length d" "d ! q = ls ! (2 * k)"
      using last by (auto simp: node_at_def)
    with True len pad l show ?thesis
      by (intro that [of q "Some (base + 2 * k)"]) (simp_all add: build_node_def vec_index_def Let_def)
  next
    case False
    then have "d ! (base + 2 * k) = ls ! (2 * k)" using last by (auto simp: node_at_def)
    with False len pad l none show ?thesis
      by (intro that [of "base + 2 * k" None]) (simp_all add: build_node_def vec_index_def Let_def)
  qed
qed

text \<open>One round of the loop: the layer gets its parents, and they are the new top layer.\<close>

lemma build_round:
  assumes nf: "null_free_light L" and top: "top_layer L d lk base ls" and n: "n = length ls" "1 < n"
    and d': "d' = (if odd n then d @ [lt_null L] else d)" and le: "le = base + even_len n"
  obtains layer where
    "build_nodes L d' lk base le (map (\<lambda>k. base + 2 * k) [0..<(le - base + 1) div 2]) = Ok layer"
    "built L (d' @ map fst layer) (foldl link_update lk (map snd layer)) base ls"
    "top_layer L (d' @ map fst layer) (foldl link_update lk (map snd layer)) le (up L ls)"
    "\<forall>k < base. hm_get (foldl link_update lk (map snd layer)) k = hm_get lk k"
proof -
  have len: "length d = base + n" and nn: "lt_null L \<notin> set ls"
    and dir: "\<And>j. j + 1 < n \<Longrightarrow> d ! (base + j) = ls ! j"
    and last: "node_at L d lk (base + n - 1) (ls ! (n - 1))"
    and keys: "\<And>k. base \<le> k \<Longrightarrow> k \<noteq> base + n - 1 \<Longrightarrow> hm_get lk k = None"
    using top n by (auto simp: top_layer_def)
  have unn: "lt_null L \<notin> set (up L ls)" using up_not_null [OF nf nn] .
  have odd_at: "node_at L d lk (base + j) (ls ! j)" if "odd j" "j < n" for j
  proof (cases "j + 1 < n")
    case True
    then have "j < length ls" using n by simp
    then have "ls ! j \<noteq> lt_null L" using nn by (metis nth_mem)
    then show ?thesis using True dir [of j] len by (simp add: node_at_def)
  next
    case False
    then have "j = n - 1" using that by simp
    then show ?thesis using last n(2) by simp
  qed
  show ?thesis
  proof (cases "even n")
    case True
    then obtain m where m: "n = 2 * m" "0 < m" using n(2) by (auto elim!: evenE)
    have le': "le = base + n" using m by (simp add: le even_len_def)
    let ?is = "map (\<lambda>k. base + 2 * k) [0..<m]"
    have "build_nodes L d lk base le ?is = Ok (map (\<lambda>i. (up L ls ! ((i - base) div 2), None)) ?is)"
    proof (rule build_nodes_Ok)
      fix i assume "i \<in> set ?is"
      then obtain k where k: "i = base + 2 * k" "k < m" by auto
      then show "build_node L d lk base le i = Ok (up L ls ! ((i - base) div 2), None)"
        using build_node_pair [OF top, of k "[]" le] m n by simp
    qed
    also have "map (\<lambda>i. (up L ls ! ((i - base) div 2), None)) ?is = map (\<lambda>k. (up L ls ! k, None)) [0..<m]"
      by simp
    finally have run: "build_nodes L d' lk base le (map (\<lambda>k. base + 2 * k) [0..<(le - base + 1) div 2]) =
        Ok (map (\<lambda>k. (up L ls ! k, None)) [0..<m])"
      using True m le' by (simp add: d')
    have ups: "map (\<lambda>k. up L ls ! k) [0..<m] = up L ls" using m n by (intro nth_equalityI) auto
    have eq: "map fst (map (\<lambda>k. (up L ls ! k, None :: (nat \<times> nat \<times> nat option) option)) [0..<m]) = up L ls"
      using ups by (simp add: o_def)
    have eq2: "foldl link_update lk (map snd (map (\<lambda>k. (up L ls ! k, None)) [0..<m])) = lk"
      using foldl_link_None [of lk "[0..<m]"] by (simp add: o_def)
    show ?thesis
    proof (rule that [OF run], unfold eq eq2)
      have "built L d lk base ls" using True len dir odd_at n by (auto simp: built_def even_len_def)
      then show "built L (d' @ up L ls) lk base ls" using True by (auto simp: d' intro: built_extend)
      have lu: "length (up L ls) = m" using m n by simp
      have "up L ls ! j \<noteq> lt_null L" if "j < m" for j using unn that by (metis lu nth_mem)
      moreover have "up L ls \<noteq> []" using lu m(2) by (metis list.size(3) less_irrefl)
      ultimately show "top_layer L (d' @ up L ls) lk le (up L ls)"
        using True m n len le' keys unn unfolding top_layer_def
        by (auto simp: d' node_at_def nth_append)
    qed simp
  next
    case False
    then obtain m where m: "n = 2 * m + 1" "0 < m" using n(2) by (auto elim!: oddE)
    have le': "le = base + n + 1" using m by (simp add: le even_len_def)
    obtain q rm where b: "build_node L (d @ [lt_null L]) lk base le (base + 2 * m) = Ok (lt_null L, Some (m + le, q, rm))"
      and q: "q < length d" "d ! q = ls ! (2 * m)" "rm = None \<or> rm = Some (base + 2 * m)"
      using build_node_last [OF top, of m le] m n by metis
    define layer where "layer = map (\<lambda>k. (up L ls ! k, None)) [0..<m] @ [(lt_null L, Some (m + le, q, rm))]"
    have run: "build_nodes L d' lk base le (map (\<lambda>k. base + 2 * k) [0..<(le - base + 1) div 2]) = Ok layer"
    proof -
      let ?f = "\<lambda>i. if i = base + 2 * m then (lt_null L, Some (m + le, q, rm)) else (up L ls ! ((i - base) div 2), None)"
      let ?is = "map (\<lambda>k. base + 2 * k) [0..<Suc m]"
      have "build_nodes L d' lk base le ?is = Ok (map ?f ?is)"
      proof (rule build_nodes_Ok)
        fix i assume "i \<in> set ?is"
        then obtain k where k: "i = base + 2 * k" "k \<le> m" by auto
        show "build_node L d' lk base le i = Ok (?f i)"
        proof (cases "k = m")
          case True
          then show ?thesis using b k False by (simp add: d')
        next
          case False
          with k \<open>odd n\<close> show ?thesis
            using build_node_pair [OF top, of k "[lt_null L]" le] m n by (simp add: d')
        qed
      qed
      also have "map ?f ?is = layer" unfolding layer_def by simp
      finally show ?thesis using le' m by simp
    qed
    define lk' where "lk' = foldl link_update lk (map snd layer)"
    have lk': "lk' = link_update lk (Some (m + le, q, rm))"
      using foldl_link_None [of lk "[0..<m]"] by (simp add: lk'_def layer_def o_def)
    have get: "hm_get lk' k = (if k = m + le then Some q else if rm = Some k then None else hm_get lk k)" for k
      using q(3) le' m unfolding lk' by (cases rm) auto
    have fst: "map fst layer = map (\<lambda>k. up L ls ! k) [0..<m] @ [lt_null L]"
      by (simp add: layer_def o_def)
    have lu: "length (up L ls) = m + 1" using m n by simp
    have ul: "up L ls ! m = ls ! (2 * m)" using m n by (subst nth_up) auto
    show ?thesis
    proof (rule that [OF run], unfold lk'_def [symmetric])
      have bu: "built L d' lk base ls"
        using False len dir odd_at [THEN node_at_extend] n keys le' m
        by (auto simp: built_def even_len_def d' nth_append odd_iff_mod_2_eq_one)
      have "hm_get lk' (base + j) = hm_get lk (base + j)" if "j < even_len (length ls)" "odd j" for j
        using that q(3) le n by (auto simp: get)
      then show "built L (d' @ map fst layer) lk' base ls" by (intro built_extend [OF bu]) blast
      have ne: "up L ls ! j \<noteq> lt_null L" if "j < m + 1" for j using unn that by (metis lu nth_mem)
      have ld: "length (d' @ map fst layer) = le + (m + 1)" using len le' False by (simp add: d' layer_def)
      have at: "(d' @ map fst layer) ! (le + j) = (if j < m then up L ls ! j else lt_null L)" if "j < m + 1" for j
        using that len le' False by (auto simp: d' fst nth_append)
      have "node_at L (d' @ map fst layer) lk' (le + m) (up L ls ! m)"
        using ld at [of m] ne [of m] q ul len le' by (auto simp: node_at_def get d' nth_append)
      moreover have "up L ls \<noteq> []" using lu by (metis list.size(3) Suc_eq_plus1 nat.distinct(1))
      ultimately show "top_layer L (d' @ map fst layer) lk' le (up L ls)"
        using ld at lu m unn keys le' unfolding top_layer_def by (auto simp: get)
      show "\<forall>k < base. hm_get lk' k = hm_get lk k" using q(3) le' by (auto simp: get)
    qed
  qed
qed

lemma even_len_half: "even_len n div 2 = (n + 1) div 2"
  by (cases "even n") (auto simp: even_len_def odd_iff_mod_2_eq_one elim!: oddE)

lemma build_loop_stored:
  assumes "null_free_light L" and "top_layer L d lk base ls"
  shows "\<exists>e lk'. build_loop L (length ls) base (base + length ls) d lk = Ok (d @ e, lk') \<and>
           stored L (d @ e) lk' base ls \<and> (\<forall>k < base. hm_get lk' k = hm_get lk k)"
  using assms(2)
proof (induction "length ls" arbitrary: d lk base ls rule: less_induct)
  case less
  show ?case
  proof (cases "length ls \<le> 1")
    case True
    moreover have "length ls = 1" using True less.prems by (cases ls) (auto simp: top_layer_def)
    ultimately show ?thesis using less.prems
      by (intro exI [of _ "[]"] exI [of _ lk]) (auto simp: build_loop.simps stored.simps top_layer_def hd_conv_nth)
  next
    case False
    define n where "n = length ls"
    define d' where "d' = (if odd n then d @ [lt_null L] else d)"
    define le where "le = base + even_len n"
    have n1: "1 < n" using False by (simp add: n_def)
    obtain layer where run: "build_nodes L d' lk base le (map (\<lambda>k. base + 2 * k) [0..<(le - base + 1) div 2]) = Ok layer"
      and bu: "built L (d' @ map fst layer) (foldl link_update lk (map snd layer)) base ls"
      and top: "top_layer L (d' @ map fst layer) (foldl link_update lk (map snd layer)) le (up L ls)"
      and keep: "\<forall>k < base. hm_get (foldl link_update lk (map snd layer)) k = hm_get lk k"
      using build_round [OF assms(1) less.prems n_def n1 d'_def le_def] by metis
    let ?d = "d' @ map fst layer" and ?lk = "foldl link_update lk (map snd layer)"
    have lu: "length (up L ls) = even_len n div 2" by (simp add: n_def even_len_half)
    have step: "build_loop L n base (base + n) d lk = build_loop L (length (up L ls)) le (le + length (up L ls)) ?d ?lk"
    proof -
      have w: "(if odd n then n + 1 else n) = even_len n" and e: "(if odd n then base + n + 1 else base + n) = le"
        by (auto simp: even_len_def le_def odd_iff_mod_2_eq_one)
      show ?thesis
        unfolding build_loop.simps [of L n base "base + n" d lk] Let_def w e d'_def [symmetric] run rbind.simps lu
        using n1 by simp
    qed
    have "length (up L ls) < length ls" using n1 by (simp add: n_def)
    from less.hyps [OF this top] obtain e lk' where IH:
      "build_loop L (length (up L ls)) le (le + length (up L ls)) ?d ?lk = Ok (?d @ e, lk')"
      "stored L (?d @ e) lk' le (up L ls)" "\<forall>k < le. hm_get lk' k = hm_get ?lk k" by blast
    have "built L (?d @ e) lk' base ls"
      using IH(3) by (intro built_extend [OF bu]) (simp add: le_def n_def)
    then have "stored L (?d @ e) lk' base ls"
      using IH(2) n1 by (subst stored.simps) (simp add: le_def n_def)
    moreover have "\<forall>k < base. hm_get lk' k = hm_get lk k" using IH(3) keep by (simp add: le_def)
    moreover have "\<exists>e'. ?d @ e = d @ e'" by (simp add: d'_def)
    ultimately show ?thesis using step IH(1) unfolding n_def by metis
  qed
qed

lemma stored_root: "stored L d lk base ls \<Longrightarrow> ls \<noteq> [] \<Longrightarrow> d \<noteq> [] \<and> d ! (length d - 1) = light_root L ls"
proof (induction L d lk base ls rule: stored.induct)
  case (1 L d lk base ls)
  show ?case
  proof (cases "length ls \<le> 1")
    case True
    then show ?thesis using 1(2) by (auto simp: stored.simps [of L d lk base ls] light_root.simps [of L ls])
  next
    case False
    have "0 < length (up L ls)" using False by simp
    then have "up L ls \<noteq> []" by (metis list.size(3) less_irrefl)
    moreover have "light_root L ls = light_root L (up L ls)" using False by (simp add: light_root.simps [of L ls])
    ultimately show ?thesis using 1 False by (simp add: stored.simps [of L d lk base ls])
  qed
qed

lemma from_iter_stored:
  assumes "null_free_light L" and "items \<noteq> []" and "length items \<le> 2 ^ 63"
    and "lt_null L \<notin> set (map (lt_leaf L) items)"
  obtains t where "from_iter L items = Ok t" "stored L (lt_data t) (lt_links t) 0 (map (lt_leaf L) items)"
    "lt_leafs t = length items" "\<And>i. i < length items \<Longrightarrow> i < length (lt_data t) \<and> lt_data t ! i = lt_leaf L (items ! i)"
proof -
  let ?ls = "map (lt_leaf L) items"
  have "?ls ! (length ?ls - 1) \<in> set ?ls" using assms(2) by (intro nth_mem) simp
  then have "?ls ! (length ?ls - 1) \<noteq> lt_null L" using assms(4) by metis
  then have "top_layer L ?ls [] 0 ?ls" using assms by (auto simp: top_layer_def node_at_def)
  from build_loop_stored [OF assms(1) this] obtain e lk where
    "build_loop L (length items) 0 (length items) ?ls [] = Ok (?ls @ e, lk)" "stored L (?ls @ e) lk 0 ?ls" by auto
  moreover obtain k where "next_pow2 (length items) = Ok (2 ^ k)"
    using next_pow2_Ok [of "length items"] assms(2,3) by auto
  ultimately show ?thesis
    by (intro that [of "\<lparr>lt_data = ?ls @ e, lt_leafs = length items, lt_height = log2_pow2 (2 * 2 ^ k), lt_links = lk\<rparr>"])
       (simp_all add: from_iter_def Let_def nth_append)
qed

subsection \<open>Proofs\<close>

text \<open>The siblings of leaf \<open>j\<close> and the side they stand on, from the leaf to the root.\<close>

definition sibling_step :: "'e list \<Rightarrow> nat \<Rightarrow> ('e \<times> bool) list" where
  "sibling_step ls j =
     (if odd j then [(ls ! (j - 1), False)] else if j + 1 < length ls then [(ls ! (j + 1), True)] else [])"

function light_path :: "'e light_algo \<Rightarrow> 'e list \<Rightarrow> nat \<Rightarrow> ('e \<times> bool) list" where
  "light_path L ls j =
     (if length ls \<le> 1 then [] else sibling_step ls j @ light_path L (up L ls) (j div 2))"
  by pat_completeness auto
termination by (relation "measure (\<lambda>(L, ls, j). length ls)") auto

declare light_path.simps [simp del]

lemma light_path_small [simp]: "length ls \<le> 1 \<Longrightarrow> light_path L ls j = []"
  by (simp add: light_path.simps)

lemma light_path_rec: "1 < length ls \<Longrightarrow> light_path L ls j = sibling_step ls j @ light_path L (up L ls) (j div 2)"
  by (subst light_path.simps) simp

lemma proof_hash_index_built:
  assumes bu: "built L d lk base ls" and nn: "lt_null L \<notin> set ls" and j: "j < length ls"
    and t: "lt_data t = d" "lt_links t = lk"
  shows "rbind (proof_hash_index L t base j) (\<lambda>ix.
           case ix of None \<Rightarrow> Ok ([], []) | Some index \<Rightarrow> rbind (vec_index (lt_data t) index) (\<lambda>x. Ok ([x], [even j])))
         = Ok (map fst (sibling_step ls j), map snd (sibling_step ls j))"
proof -
  have len: "base + even_len (length ls) \<le> length d" using bu by (simp add: built_def)
  consider "odd j" | "even j" "j + 1 < length ls" | "even j" "length ls = j + 1" using j by (metis Suc_eq_plus1 Suc_lessI)
  then show ?thesis
  proof cases
    case 1
    then obtain m where m: "j = 2 * m + 1" by (auto elim: oddE)
    then have "d ! (base + 2 * m) = ls ! (2 * m)" using bu j by (simp add: built_def)
    moreover have "length ls \<le> even_len (length ls)" by (simp add: even_len_def)
    then have "base + 2 * m < length d" using len j unfolding m by linarith
    moreover have "proof_hash_index L t base j = Ok (Some (base + 2 * m))" using 1 m by (simp add: proof_hash_index_def)
    moreover have "sibling_step ls j = [(ls ! (2 * m), False)]" using 1 m by (simp add: sibling_step_def)
    ultimately show ?thesis using t 1 by (simp add: vec_index_def)
  next
    case 2
    have "odd (j + 1)" using 2(1) by simp
    then have "node_at L d lk (base + (j + 1)) (ls ! (j + 1))" using bu 2(2) unfolding built_def by blast
    then have lt: "base + j + 1 < length d" "ls ! (j + 1) \<noteq> lt_null L"
      and at: "d ! (base + j + 1) = ls ! (j + 1) \<or>
        d ! (base + j + 1) = lt_null L \<and> (\<exists>q. hm_get lk (base + j + 1) = Some q \<and> q < length d \<and> d ! q = ls ! (j + 1))"
      by (simp_all add: node_at_def)
    have sib: "sibling_step ls j = [(ls ! (j + 1), True)]" using 2 by (simp add: sibling_step_def)
    from at show ?thesis
    proof (elim disjE conjE exE)
      assume r: "d ! (base + j + 1) = ls ! (j + 1)"
      have "proof_hash_index L t base j = Ok (Some (base + j + 1))"
        unfolding proof_hash_index_def t vec_index_def Let_def if_P [OF lt(1)] if_P [OF 2(1)] rbind.simps r
        using lt(2) by simp
      with r lt(1) show ?thesis unfolding sib using t 2(1) by (simp add: vec_index_def)
    next
      fix q assume r: "d ! (base + j + 1) = lt_null L" and q: "hm_get lk (base + j + 1) = Some q" "q < length d" "d ! q = ls ! (j + 1)"
      have "proof_hash_index L t base j = Ok (Some q)"
        unfolding proof_hash_index_def t vec_index_def Let_def if_P [OF lt(1)] if_P [OF 2(1)] rbind.simps r q(1) option.case if_P [OF q(2)]
        using lt(2) q(3) by simp
      with q show ?thesis unfolding sib using t 2(1) by (simp add: vec_index_def)
    qed
  next
    case 3
    then have o: "odd (length ls)" by simp
    then have r: "d ! (base + length ls) = lt_null L" "hm_get lk (base + length ls) = None"
      using bu by (simp_all add: built_def)
    have "even_len (length ls) = length ls + 1" using o by (simp add: even_len_def odd_iff_mod_2_eq_one)
    then have "base + length ls < length d" using len by linarith
    with r have "proof_hash_index L t base j = Ok None"
      using 3 t by (simp add: proof_hash_index_def vec_index_def)
    moreover have "sibling_step ls j = []" using 3 by (simp add: sibling_step_def)
    ultimately show ?thesis by simp
  qed
qed

lemma light_gen_loop_path:
  assumes "null_free_light L" and "stored L d lk base ls" and "lt_null L \<notin> set ls" and "j < length ls"
    and "lt_data t = d" "lt_links t = lk"
  shows "light_gen_loop L t base (even_len (length ls)) j =
           Ok (map fst (light_path L ls j), map snd (light_path L ls j))"
  using assms
proof (induction L d lk base ls arbitrary: j rule: stored.induct)
  case (1 L d lk base ls)
  show ?case
  proof (cases "length ls \<le> 1")
    case True
    then show ?thesis using 1 by (simp add: stored.simps [of L d lk base ls] light_gen_loop.simps)
  next
    case False
    then have bu: "built L d lk base ls" and st: "stored L d lk (base + even_len (length ls)) (up L ls)"
      using 1(3) by (simp_all add: stored.simps [of L d lk base ls])
    have big: "base + 1 < length (lt_data t)" "0 < even_len (length ls)"
      using bu False 1(6) by (auto simp: built_def even_len_def)
    have half: "(if odd (even_len (length ls) div 2) then even_len (length ls) div 2 + 1 else even_len (length ls) div 2)
        = even_len (length (up L ls))"
      by (simp add: even_len_half) (simp add: even_len_def odd_iff_mod_2_eq_one)
    have IH: "light_gen_loop L t (base + even_len (length ls)) (even_len (length (up L ls))) (j div 2) =
        Ok (map fst (light_path L (up L ls) (j div 2)), map snd (light_path L (up L ls) (j div 2)))"
      using 1(1) [OF False 1(2) st up_not_null [OF 1(2,4)], of "j div 2"] 1(5-7) by simp
    note sib = proof_hash_index_built [OF bu 1(4,5,6,7)]
    have "light_gen_loop L t base (even_len (length ls)) j =
        rbind (rbind (proof_hash_index L t base j) (\<lambda>ix.
           case ix of None \<Rightarrow> Ok ([], []) | Some index \<Rightarrow> rbind (vec_index (lt_data t) index) (\<lambda>x. Ok ([x], [even j])))) (\<lambda>(x, b).
        rbind (light_gen_loop L t (base + even_len (length ls)) (even_len (length (up L ls))) (j div 2))
          (\<lambda>(xs, bs). Ok (x @ xs, b @ bs)))"
      unfolding rbind_assoc using big by (subst light_gen_loop.simps) (simp only: half if_True simp_thms)
    then show ?thesis unfolding sib IH using False by (simp add: light_path_rec)
  qed
qed

fun climb_path :: "'e light_algo \<Rightarrow> 'e \<Rightarrow> ('e \<times> bool) list \<Rightarrow> 'e" where
  "climb_path L h [] = h"
| "climb_path L h ((x, b) # ps) = climb_path L (if b then lt_node L h x else lt_node L x h) ps"

lemma climb_path_append: "climb_path L h (ps @ qs) = climb_path L (climb_path L h ps) qs"
  by (induction L h ps rule: climb_path.induct) auto

lemma light_climb_path: "light_climb L h (map fst ps) (map snd ps) = Ok (climb_path L h ps)"
  by (induction L h ps rule: climb_path.induct) auto

lemma climb_light_path: "j < length ls \<Longrightarrow> climb_path L (ls ! j) (light_path L ls j) = light_root L ls"
proof (induction L ls j rule: light_path.induct)
  case (1 L ls j)
  show ?case
  proof (cases "length ls \<le> 1")
    case True
    then show ?thesis using 1(2) by (cases ls) (auto simp: light_root.simps)
  next
    case False
    have "climb_path L (ls ! j) (sibling_step ls j) = up L ls ! (j div 2)"
      using 1(2) by (auto simp: sibling_step_def nth_up elim!: oddE evenE)
    then show ?thesis
      using 1 False by (simp add: light_path_rec climb_path_append light_root.simps [of L ls])
  qed
qed

lemma light_path_nonempty: "1 < length ls \<Longrightarrow> j < length ls \<Longrightarrow> light_path L ls j \<noteq> []"
proof (induction L ls j rule: light_path.induct)
  case (1 L ls j)
  show ?case
  proof (cases "length ls = 2")
    case True
    with 1(3) show ?thesis using 1(2) by (auto simp: light_path_rec sibling_step_def elim!: evenE)
  next
    case False
    with 1 show ?thesis by (simp add: light_path_rec)
  qed
qed

end
