(* ===== verification/Example_Hash.thy ===== *)
theory Example_Hash
  imports Merkle_Light_Laws
begin

text \<open>
  The hash the examples of the other theories use: its digests are terms, so that no two of them
  collide and none is the null node. \<open>free_algo\<close> is the dictionary of the append-only tree,
  \<open>free_light\<close> the one of the file tree.
\<close>

datatype digest = D_null | D_pad nat | D_leaf "byte list" | D_node digest digest

definition free_algo :: "digest algo" where
  "free_algo = \<lparr>a_null = D_null, a_end_pad = D_pad, a_parent = D_node, a_leaf = D_leaf\<rparr>"

lemma free_algo_simps [simp]:
  "a_null free_algo = D_null" "a_end_pad free_algo = D_pad" "a_parent free_algo = D_node"
  "null_free free_algo" "parent_single free_algo r h = D_node r (D_pad h)"
  by (simp_all add: free_algo_def null_free_def parent_single_def)

abbreviation lf :: "nat \<Rightarrow> digest" where
  "lf n \<equiv> D_leaf [of_nat n]"

definition free_light :: "digest light_algo" where
  "free_light = \<lparr>lt_node = D_node, lt_leaf = (\<lambda>x. x), lt_null = D_null\<rparr>"

lemma free_light_simps [simp]:
  "lt_node free_light = D_node" "lt_leaf free_light = (\<lambda>x. x)" "lt_null free_light = D_null"
  "null_free_light free_light"
  by (simp_all add: free_light_def null_free_light_def)

end
