(* ===== verification/Append_Merkle_Correct.thy ===== *)
theory Append_Merkle_Correct
  imports Merkle_Proof_Laws Example_Hash
begin

text \<open>
  The properties of the append-only Merkle tree and of its inclusion proofs. \<open>tree_inv A t xs\<close>
  (theory \<open>Append_Merkle_Laws\<close>) says that the tree \<open>t\<close> stands for the leaves \<open>xs\<close>, some of which
  it may not know yet. The examples use \<open>free_algo\<close> of theory \<open>Example_Hash\<close>.
\<close>

subsection \<open>Trees for examples\<close>

lemma free_algo_no_collision [simp]: "\<not> collision free_algo"
  by (simp add: collision_def)

text \<open>A tree that knows its three leaves, and one that was given the root of its first two.\<close>

definition tree3 :: "digest amt" where
  "tree3 = \<lparr>layers = [[lf 1, lf 2, lf 3],
                      [D_node (lf 1) (lf 2), D_node (lf 3) (D_pad 0)],
                      [D_node (D_node (lf 1) (lf 2)) (D_node (lf 3) (D_pad 0))]],
            delta_nodes_map = [], root_to_tx_seq_map = [], min_depth = None, leaf_height = 0\<rparr>"

definition tree2u :: "digest amt" where
  "tree2u = \<lparr>layers = [[D_null, D_null], [D_node (lf 1) (lf 2)]],
             delta_nodes_map = [], root_to_tx_seq_map = [], min_depth = None, leaf_height = 0\<rparr>"

lemma tree3_built: "new_amt free_algo [lf 1, lf 2, lf 3] 0 None = Ok tree3"
  by code_simp

lemma tree2u_built:
  "append_subtree free_algo (empty_amt 0 None) 2 (layer_at free_algo 0 [lf 1, lf 2] 1 ! 0) = Ok tree2u"
  by code_simp

lemma tree3_inv: "tree_inv free_algo tree3 [lf 1, lf 2, lf 3]"
  using new_amt_inv [of free_algo "[lf 1, lf 2, lf 3]" 0 None] tree3_built by simp

lemma tree2u_inv: "tree_inv free_algo tree2u [lf 1, lf 2]"
  using append_subtree_inv [OF empty_amt_inv [of free_algo None 0], of 1 "[lf 1, lf 2]"] tree2u_built
  by (auto simp: empty_amt_def numeral_2_eq_2)

subsection \<open>Operations\<close>

text \<open>
  C1. Appending leaves to a tree that stands for \<open>xs\<close> never fails; the new tree stands for
  \<open>xs @ ys\<close> and its root is the root of the reference tree over those leaves.
\<close>

theorem append_list_correct:
  assumes "tree_inv A t xs" and "ys \<noteq> []" and "\<forall>y \<in> set ys. y \<noteq> a_null A"
  shows "\<exists>t'. append_list A t ys = Ok t' \<and> tree_inv A t' (xs @ ys) \<and>
           amt_root t' = Ok (merkle_root A (leaf_height t) (depth_of t) (xs @ ys))"
proof -
  from append_list_inv [OF assms] obtain ls where ls: "append_list A t ys = Ok (t\<lparr>layers := ls\<rparr>)"
    "tree_inv A (t\<lparr>layers := ls\<rparr>) (xs @ ys)" by blast
  with tree_root [OF ls(2)] assms(2) show ?thesis by (simp add: depth_of_def)
qed

theorem append_list_correct_witness:
  "\<exists>t'. append_list free_algo tree3 [lf 4, lf 5] = Ok t' \<and>
        tree_inv free_algo t' [lf 1, lf 2, lf 3, lf 4, lf 5] \<and>
        amt_root t' = Ok (merkle_root free_algo 0 1 [lf 1, lf 2, lf 3, lf 4, lf 5])"
  using append_list_correct [OF tree3_inv, of "[lf 4, lf 5]"] by (simp add: tree3_def depth_of_def)

text \<open>
  C2. Appending the root of a complete subtree whose leaves \<open>ys\<close> are not given: if the tree is
  aligned to the subtree's size, the operation succeeds, the tree stands for \<open>xs @ ys\<close>, and its
  root is the one the tree would have had if the leaves themselves had been appended.
\<close>

theorem append_subtree_correct:
  assumes "tree_inv A t xs" and "2 ^ K dvd length xs" and "length ys = 2 ^ K"
    and "\<forall>y \<in> set ys. y \<noteq> a_null A"
  shows "\<exists>t' t''. append_subtree A t (Suc K) (layer_at A (leaf_height t) ys K ! 0) = Ok t' \<and>
           tree_inv A t' (xs @ ys) \<and> append_list A t ys = Ok t'' \<and> amt_root t' = amt_root t''"
proof -
  have ne: "ys \<noteq> []" using assms(3) by (cases ys) auto
  from append_subtree_inv [OF assms] obtain ls where
    ls: "append_subtree A t (Suc K) (layer_at A (leaf_height t) ys K ! 0) = Ok (t\<lparr>layers := ls\<rparr>)"
    "tree_inv A (t\<lparr>layers := ls\<rparr>) (xs @ ys)" by blast
  from append_list_inv [OF assms(1) ne assms(4)] obtain ls' where
    ls': "append_list A t ys = Ok (t\<lparr>layers := ls'\<rparr>)" "tree_inv A (t\<lparr>layers := ls'\<rparr>) (xs @ ys)" by blast
  from tree_root [OF ls(2)] tree_root [OF ls'(2)] ne
  have "amt_root (t\<lparr>layers := ls\<rparr>) = amt_root (t\<lparr>layers := ls'\<rparr>)" by (simp add: depth_of_def)
  with ls ls' show ?thesis by blast
qed

theorem append_subtree_correct_witness:
  "\<exists>t' t''. append_subtree free_algo tree2u 2 (D_node (lf 3) (lf 4)) = Ok t' \<and>
        tree_inv free_algo t' [lf 1, lf 2, lf 3, lf 4] \<and>
        append_list free_algo tree2u [lf 3, lf 4] = Ok t'' \<and> amt_root t' = amt_root t''"
  using append_subtree_correct [OF tree2u_inv, of 1 "[lf 3, lf 4]"] by (simp add: numeral_2_eq_2)

text \<open>
  C3. Filling in an unknown leaf with its value never fails and never changes what is known: the
  tree still stands for the same leaves, every node that was known still is, the leaf is known,
  and every node whose children are known is known.
\<close>

theorem fill_leaf_correct:
  assumes "tree_inv A t xs" and "i < length xs"
  shows "\<exists>t'. fill_leaf A t i (xs ! i) = Ok t' \<and> tree_inv A t' xs \<and>
           refines A (length xs) (layers t) (layers t') \<and> layers t' ! 0 ! i = xs ! i \<and>
           closed_up A xs (layers t')"
proof -
  from fill_leaf_inv [OF assms] obtain ls where ls: "fill_leaf A t i (xs ! i) = Ok (t\<lparr>layers := ls\<rparr>)"
    "tree_inv A (t\<lparr>layers := ls\<rparr>) xs" "refines A (length xs) (layers t) ls" "ls ! 0 = (layers t ! 0)[i := xs ! i]"
    by blast
  from tree_invD(3) [OF ls(2)] have "closed_up A xs ls" by (simp add: layers_ok_def)
  moreover have "ls ! 0 ! i = xs ! i" using ls(4) tree_invD(5) [OF assms(1)] assms(2) by simp
  ultimately show ?thesis using ls by (intro exI [of _ "t\<lparr>layers := ls\<rparr>"]) simp
qed

theorem fill_leaf_correct_witness:
  "\<exists>t'. fill_leaf free_algo tree2u 1 (lf 2) = Ok t' \<and> tree_inv free_algo t' [lf 1, lf 2] \<and>
        refines free_algo 2 (layers tree2u) (layers t') \<and> layers t' ! 0 ! 1 = lf 2 \<and>
        closed_up free_algo [lf 1, lf 2] (layers t')"
  using fill_leaf_correct [OF tree2u_inv, of 1] by (simp add: numeral_2_eq_2)

text \<open>
  Replacing the last leaf gives the tree over the new leaves, whatever the history, as soon
  as the left siblings on the leaf's path are known.
\<close>

lemma update_last_correct:
  assumes "tree_inv A t (xs @ [x])" and "y \<noteq> a_null A" and "last_path_known A t (length (xs @ [x]))"
  shows "\<exists>t'. update_last A t y = Ok t' \<and> tree_inv A t' (xs @ [y]) \<and>
           amt_root t' = Ok (merkle_root A (leaf_height t) (depth_of t) (xs @ [y]))"
proof -
  from update_last_inv [OF assms] obtain ls where ls: "update_last A t y = Ok (t\<lparr>layers := ls\<rparr>)"
    "tree_inv A (t\<lparr>layers := ls\<rparr>) (xs @ [y])" by blast
  with tree_root [OF ls(2)] show ?thesis by (simp add: depth_of_def)
qed

lemma update_last_correct_example:
  "\<exists>t'. update_last free_algo tree3 (lf 9) = Ok t' \<and> tree_inv free_algo t' [lf 1, lf 2, lf 9] \<and>
        amt_root t' = Ok (merkle_root free_algo 0 1 [lf 1, lf 2, lf 9])"
proof -
  have "last_path_known free_algo tree3 (length ([lf 1, lf 2] @ [lf 3]))"
    by (auto simp: last_path_known_def tree3_def less_Suc_eq numeral_3_eq_3)
  from update_last_correct [OF _ _ this, of "lf 9"] tree3_inv show ?thesis by (simp add: tree3_def depth_of_def)
qed

text \<open>
  Building a tree from all its leaves, or from some of them and appending the rest, gives the
  same layers, and they are the reference layers.
\<close>

lemma new_append_canonical:
  assumes "null_free A" and "\<forall>x \<in> set (xs @ ys). x \<noteq> a_null A" and "ys \<noteq> []"
  shows "\<exists>t t' t''. new_amt A xs lh m = Ok t \<and> append_list A t ys = Ok t' \<and>
           new_amt A (xs @ ys) lh m' = Ok t'' \<and> layers t' = layers t'' \<and> layers t'' = canon A lh 1 (xs @ ys)"
proof -
  from new_amt_inv [of A "xs @ ys" lh m'] assms(1,2) obtain t'' where
    t'': "new_amt A (xs @ ys) lh m' = Ok t''" "layers t'' = canon A lh 1 (xs @ ys)" by auto
  from new_amt_full [of A xs lh m] assms(1,2) obtain t where t: "new_amt A xs lh m = Ok t" "tree_inv A t xs"
    "layers t = canon A lh 1 xs" "leaf_height t = lh" "depth_of t = 1" by auto
  from append_list_inv [OF t(2) assms(3)] assms(2) obtain ls where
    ls: "append_list A t ys = Ok (t\<lparr>layers := ls\<rparr>)" "tree_inv A (t\<lparr>layers := ls\<rparr>) (xs @ ys)"
    "ls ! 0 = layers t ! 0 @ ys" by auto
  from ls(3) t(3) have "ls ! 0 = xs @ ys" by simp
  with canon_known [OF ls(2)] t(4,5) have "ls = canon A lh 1 (xs @ ys)" by (simp add: depth_of_def)
  with t(1) ls(1) t'' show ?thesis by auto
qed

lemma new_append_canonical_example:
  "\<exists>t t' t''. new_amt free_algo [lf 1] 0 (Some 7) = Ok t \<and> append_list free_algo t [lf 2, lf 3] = Ok t' \<and>
        new_amt free_algo [lf 1, lf 2, lf 3] 0 None = Ok t'' \<and> layers t' = layers t'' \<and>
        layers t'' = canon free_algo 0 1 [lf 1, lf 2, lf 3]"
  using new_append_canonical [of free_algo "[lf 1]" "[lf 2, lf 3]" 0 "Some 7" None] by simp

subsection \<open>Versions\<close>

text \<open>
  C4. Reverting to a committed version restores it: after a commit and any sequence of appends,
  subtree appends, updates of the last leaf and further commits, \<open>revert_to\<close> succeeds and gives
  back exactly the layers of the commit.
\<close>

theorem revert_restores:
  assumes "tree_inv A t xs" and "xs \<noteq> []" and "commit t (Some seq) = Ok t1"
    and "(amt_step A)\<^sup>*\<^sup>* (t1, xs) (t2, ys)"
  shows "\<exists>t3. revert_to t2 seq = Ok t3 \<and> layers t3 = layers t \<and> tree_inv A t3 xs"
proof -
  note v = committed_version [OF assms]
  have "revert_to t2 seq = Ok (clear_after (t2\<lparr>layers := layers t\<rparr>) seq)"
    by (rule revert_version [OF assms(1,2) v(1,2)])
  moreover have "tree_inv A (clear_after (t2\<lparr>layers := layers t\<rparr>) seq) xs"
    using assms(1) v(3,4) by (simp add: tree_inv_def depth_of_def)
  ultimately show ?thesis by simp
qed

definition tree3v :: "digest amt" where
  "tree3v = tree3\<lparr>delta_nodes_map := [(7, version_of (layers tree3))],
                  root_to_tx_seq_map := [(merkle_root free_algo 0 1 [lf 1, lf 2, lf 3], 7)]\<rparr>"

definition tree4v :: "digest amt" where
  "tree4v = (case append_leaf free_algo tree3v (lf 4) of Ok t \<Rightarrow> t | _ \<Rightarrow> tree3v)"

lemma tree3v_commit: "commit tree3 (Some 7) = Ok tree3v"
  by code_simp

lemma tree4v_append: "append_leaf free_algo tree3v (lf 4) = Ok tree4v"
  by code_simp

lemma tree4v_step: "(amt_step free_algo)\<^sup>*\<^sup>* (tree3v, [lf 1, lf 2, lf 3]) (tree4v, [lf 1, lf 2, lf 3] @ [lf 4])"
  by (rule r_into_rtranclp, rule step_append [OF tree4v_append]) simp

theorem revert_restores_witness:
  "\<exists>t3. revert_to tree4v 7 = Ok t3 \<and> layers t3 = layers tree3 \<and> tree_inv free_algo t3 [lf 1, lf 2, lf 3]"
  by (rule revert_restores [OF tree3_inv _ tree3v_commit tree4v_step]) simp



text \<open>
  C10. Reverting to a version that was committed on an empty tree drops every layer, and the next
  read of the tree panics, although any state of an empty tree is a valid one.
\<close>

theorem revert_to_empty_loses_layers:
  assumes "layers t \<noteq> []" and "layers t ! 0 \<noteq> []" and "hm_get (delta_nodes_map t) seq = Some empty_delta"
  shows "\<exists>t'. revert_to t seq = Ok t' \<and> layers t' = [] \<and> is_Panic (amt_leaves t') \<and>
           is_Panic (append_leaf A t' x)"
  using revert_empty_version [OF assms]
  by (simp add: amt_leaves_def amt_layer_len_def append_leaf_def vec_index_def)

definition tree1e :: "digest amt" where
  "tree1e = \<lparr>layers = [[lf 1]], delta_nodes_map = [(0, empty_delta)], root_to_tx_seq_map = [],
             min_depth = None, leaf_height = 0\<rparr>"

theorem revert_to_empty_loses_layers_witness:
  "rbind (new_amt free_algo [] 0 (Some 0)) (\<lambda>t. append_leaf free_algo t (lf 1)) = Ok tree1e \<and>
   (\<exists>t'. revert_to tree1e 0 = Ok t' \<and> layers t' = [] \<and> is_Panic (amt_leaves t') \<and>
         is_Panic (append_leaf free_algo t' (lf 2)))"
proof
  show "rbind (new_amt free_algo [] 0 (Some 0)) (\<lambda>t. append_leaf free_algo t (lf 1)) = Ok tree1e" by code_simp
  show "\<exists>t'. revert_to tree1e 0 = Ok t' \<and> layers t' = [] \<and> is_Panic (amt_leaves t') \<and>
         is_Panic (append_leaf free_algo t' (lf 2))"
    by (rule revert_to_empty_loses_layers) (simp_all add: tree1e_def)
qed

subsection \<open>Proofs\<close>

text \<open>
  C6. For every known leaf whose siblings on the way up are known, \<open>gen_proof\<close> succeeds, and the
  proof validates for that leaf at that position with the tree's root.
\<close>

theorem gen_proof_complete:
  assumes "tree_inv A t xs" and "i < length xs" and "layers t ! 0 ! i \<noteq> a_null A"
    and "siblings_known A (layers t) i"
  shows "\<exists>p. gen_proof A (amt_reader A t) i = Ok p \<and> proof_validate A p (xs ! i) i = Ok () \<and>
           proof_root p = amt_root t"
proof -
  have "xs \<noteq> []" using assms(2) by auto
  with amt_gen_proof [OF assms] honest_proof_valid [OF assms(2)] honest_proof_root tree_root [OF assms(1)]
  show ?thesis by fastforce
qed

theorem gen_proof_complete_witness:
  "\<exists>p. gen_proof free_algo (amt_reader free_algo tree3) 2 = Ok p \<and>
       proof_validate free_algo p (lf 3) 2 = Ok () \<and> proof_root p = amt_root tree3"
proof -
  have "siblings_known free_algo (layers tree3) 2" by code_simp
  from gen_proof_complete [OF tree3_inv _ _ this] show ?thesis by (simp add: tree3_def)
qed






end
