(* ===== verification/Sealing.thy ===== *)
theory Sealing
  imports Rust_Prelude "HOL-Library.Word"
begin

text \<open>
  The constants of \<^verbatim>\<open>common/spec/src/lib.rs\<close> and the sealing cipher of
  \<^verbatim>\<open>common/ionian_seal/src/lib.rs\<close>: each 32-byte word is masked with the Keccak digest of the
  sealed word before it. Keccak-256 (the crate \<^verbatim>\<open>tiny_keccak\<close>) is the parameter \<open>keccak\<close>.

  Sealing can be undone; unsealing can start at any word if the sealed word before it is at
  hand, and can stop at any word. The partial reads and the truncation of a sealed batch in
  \<open>Entry_Batch\<close> rest on the last two.
\<close>

unbundle bit_operations_syntax

subsection \<open>Layout constants\<close>

definition BYTES_PER_SECTOR :: nat where "BYTES_PER_SECTOR = 256"
definition BYTES_PER_SEAL :: nat where "BYTES_PER_SEAL = 4 * 1024"
definition BYTES_PER_LOAD :: nat where "BYTES_PER_LOAD = 256 * 1024"
definition SECTORS_PER_LOAD :: nat where "SECTORS_PER_LOAD = BYTES_PER_LOAD div BYTES_PER_SECTOR"
definition SECTORS_PER_SEAL :: nat where "SECTORS_PER_SEAL = BYTES_PER_SEAL div BYTES_PER_SECTOR"
definition SEALS_PER_LOAD :: nat where "SEALS_PER_LOAD = BYTES_PER_LOAD div BYTES_PER_SEAL"

lemma layout_values [layout_simps]:
  "BYTES_PER_SECTOR = 256" "BYTES_PER_SEAL = 4096" "BYTES_PER_LOAD = 262144"
  "SECTORS_PER_LOAD = 1024" "SECTORS_PER_SEAL = 16" "SEALS_PER_LOAD = 64"
  by (simp_all add: BYTES_PER_SECTOR_def BYTES_PER_SEAL_def BYTES_PER_LOAD_def SECTORS_PER_LOAD_def
      SECTORS_PER_SEAL_def SEALS_PER_LOAD_def)

subsection \<open>Sealing\<close>

text \<open>\<open>to_be_bytes\<close> of a 64-bit number.\<close>

definition be64 :: "nat \<Rightarrow> 8 word list" where
  "be64 n = map (\<lambda>i. of_nat (n div 256 ^ (7 - i))) [0..<8]"

definition compute_first_mask_seed :: "8 word list \<Rightarrow> 8 word list \<Rightarrow> nat \<Rightarrow> 8 word list" where
  "compute_first_mask_seed miner_id context_digest start_sector =
     miner_id @ context_digest @ replicate 24 0 @ be64 start_sector"

text \<open>\<open>x ^= y\<close> for the zipped bytes of a word and the mask.\<close>

definition mask_word :: "8 word list \<Rightarrow> 8 word list \<Rightarrow> 8 word list" where
  "mask_word w msk = map2 (\<lambda>x y. x XOR y) w msk @ drop (length msk) w"

fun seal_words ::
  "(8 word list \<Rightarrow> 8 word list) \<Rightarrow> 8 word list \<Rightarrow> 8 word list list \<Rightarrow> 8 word list list" where
  "seal_words keccak msk [] = []"
| "seal_words keccak msk (w # ws) =
     (let w' = mask_word w msk in w' # seal_words keccak (keccak w') ws)"

fun unseal_words ::
  "(8 word list \<Rightarrow> 8 word list) \<Rightarrow> 8 word list \<Rightarrow> 8 word list list \<Rightarrow> 8 word list list" where
  "unseal_words keccak msk [] = []"
| "unseal_words keccak msk (x # xs) = mask_word x msk # unseal_words keccak (keccak x) xs"

definition seal_with_mask ::
  "(8 word list \<Rightarrow> 8 word list) \<Rightarrow> 8 word list \<Rightarrow> 8 word list \<Rightarrow> 8 word list res" where
  "seal_with_mask keccak data first_mask =
     rbind (assert_that (length data mod 32 = 0) ''data length'') (\<lambda>_.
       Ok (concat (seal_words keccak first_mask (chunks 32 data))))"

definition unseal_with_mask ::
  "(8 word list \<Rightarrow> 8 word list) \<Rightarrow> 8 word list \<Rightarrow> 8 word list \<Rightarrow> 8 word list res" where
  "unseal_with_mask keccak data first_mask =
     rbind (assert_that (length data mod 32 = 0) ''data length'') (\<lambda>_.
       Ok (concat (unseal_words keccak first_mask (chunks 32 data))))"

definition seal_with_mask_seed ::
  "(8 word list \<Rightarrow> 8 word list) \<Rightarrow> 8 word list \<Rightarrow> 8 word list \<Rightarrow> 8 word list res" where
  "seal_with_mask_seed keccak data first_mask_seed = seal_with_mask keccak data (keccak first_mask_seed)"

definition unseal_with_mask_seed ::
  "(8 word list \<Rightarrow> 8 word list) \<Rightarrow> 8 word list \<Rightarrow> 8 word list \<Rightarrow> 8 word list res" where
  "unseal_with_mask_seed keccak data first_mask_seed = unseal_with_mask keccak data (keccak first_mask_seed)"

definition seal ::
  "(8 word list \<Rightarrow> 8 word list) \<Rightarrow> 8 word list \<Rightarrow> 8 word list \<Rightarrow> 8 word list \<Rightarrow> nat \<Rightarrow> 8 word list res" where
  "seal keccak data miner_id context_digest start_sector =
     seal_with_mask_seed keccak data (compute_first_mask_seed miner_id context_digest start_sector)"

definition unseal ::
  "(8 word list \<Rightarrow> 8 word list) \<Rightarrow> 8 word list \<Rightarrow> 8 word list \<Rightarrow> 8 word list \<Rightarrow> nat \<Rightarrow> 8 word list res" where
  "unseal keccak data miner_id context_digest start_sector =
     unseal_with_mask_seed keccak data (compute_first_mask_seed miner_id context_digest start_sector)"

subsection \<open>Laws\<close>

lemma length_mask_word [simp]: "length (mask_word w msk) = length w"
  by (simp add: mask_word_def)

lemma mask_word_twice [simp]: "mask_word (mask_word w msk) msk = w"
  by (rule nth_equalityI) (auto simp: mask_word_def nth_append not_less xor.assoc split: if_splits)

lemma unseal_seal_words [simp]: "unseal_words keccak msk (seal_words keccak msk ws) = ws"
  by (induction keccak msk ws rule: seal_words.induct) (simp_all add: Let_def)

lemma seal_unseal_words [simp]: "seal_words keccak msk (unseal_words keccak msk ws) = ws"
  by (induction keccak msk ws rule: unseal_words.induct) (simp_all add: Let_def)

lemma map_length_seal_words: "map length (seal_words keccak msk ws) = map length ws"
  by (induction keccak msk ws rule: seal_words.induct) (simp_all add: Let_def)

lemma map_length_unseal_words: "map length (unseal_words keccak msk ws) = map length ws"
  by (induction keccak msk ws rule: unseal_words.induct) simp_all

lemma chunks_concat_exact: "0 < n \<Longrightarrow> \<forall>w \<in> set ws. length w = n \<Longrightarrow> chunks n (concat ws) = ws"
  by (induction ws) (simp_all add: chunks_append)

lemma words_exact:
  assumes "map length ws = map length (chunks 32 data)" and "32 dvd length data"
  shows "chunks 32 (concat ws) = ws" and "length (concat ws) = length data"
proof -
  have "\<forall>w \<in> set (chunks 32 data). length w = 32" using chunks_exact_length [OF _ assms(2)] by simp
  then have "set (map length (chunks 32 data)) \<subseteq> {32}" by auto
  with assms(1) have "set (map length ws) \<subseteq> {32}" by metis
  then have "\<forall>w \<in> set ws. length w = 32" by auto
  then show "chunks 32 (concat ws) = ws" by (rule chunks_concat_exact [rotated]) simp
  show "length (concat ws) = length data"
    using assms(1) by (metis length_concat concat_chunks zero_less_numeral)
qed

lemma seal_with_mask_Ok:
  "32 dvd length data \<Longrightarrow> seal_with_mask keccak data m = Ok (concat (seal_words keccak m (chunks 32 data)))"
  by (simp add: seal_with_mask_def dvd_eq_mod_eq_0)

lemma unseal_with_mask_Ok:
  "32 dvd length data \<Longrightarrow> unseal_with_mask keccak data m = Ok (concat (unseal_words keccak m (chunks 32 data)))"
  by (simp add: unseal_with_mask_def dvd_eq_mod_eq_0)

lemma unseal_seal_mask:
  assumes "32 dvd length data"
  shows "\<exists>s. seal_with_mask keccak data m = Ok s \<and> length s = length data \<and> unseal_with_mask keccak s m = Ok data"
proof -
  let ?ws = "seal_words keccak m (chunks 32 data)"
  note w = words_exact [OF map_length_seal_words assms, of keccak m]
  have "unseal_with_mask keccak (concat ?ws) m = Ok data"
    using assms by (simp add: unseal_with_mask_Ok w)
  with seal_with_mask_Ok [OF assms] w(2) show ?thesis by blast
qed

text \<open>Unsealing from word \<open>i\<close> on needs only the sealed word before it.\<close>

lemma drop_unseal_words:
  "0 < i \<Longrightarrow> i \<le> length ws \<Longrightarrow>
     drop i (unseal_words keccak m ws) = unseal_words keccak (keccak (ws ! (i - 1))) (drop i ws)"
proof (induction keccak m ws arbitrary: i rule: unseal_words.induct)
  case (2 keccak msk x xs)
  show ?case
  proof (cases "i = 1")
    case False
    with 2(2) obtain j where j: "i = Suc j" "0 < j" by (cases i) auto
    with 2 show ?thesis by (cases j) auto
  qed simp
qed simp

lemma take_unseal_words: "take i (unseal_words keccak m ws) = unseal_words keccak m (take i ws)"
  by (induction keccak m ws arbitrary: i rule: unseal_words.induct) (auto simp: take_Cons split: nat.split)

lemma length_unseal_words [simp]: "length (unseal_words keccak m ws) = length ws"
  by (metis map_length_unseal_words length_map)

lemma unseal_words_exact:
  "32 dvd length data \<Longrightarrow> w \<in> set (unseal_words keccak m (chunks 32 data)) \<Longrightarrow> length w = 32"
proof -
  assume "32 dvd length data" and w: "w \<in> set (unseal_words keccak m (chunks 32 data))"
  then have "\<forall>w \<in> set (chunks 32 data). length w = 32" using chunks_exact_length [of 32 data] by simp
  then have "set (map length (unseal_words keccak m (chunks 32 data))) \<subseteq> {32}"
    unfolding map_length_unseal_words by auto
  with w show "length w = 32" by auto
qed

lemma unseal_from:
  assumes len: "32 dvd length s" and un: "unseal_with_mask keccak s m = Ok d"
    and i: "0 < i" "32 * i \<le> length s"
  shows "unseal_with_mask keccak (drop (32 * i) s) (keccak (slice s (32 * (i - 1)) (32 * i))) = Ok (drop (32 * i) d)"
proof -
  from len obtain n where n: "length s = 32 * n" by blast
  have ws: "length (chunks 32 s) = n" using length_chunks [OF _ len] n by simp
  have "i \<le> n" using i(2) n by simp
  have len': "32 dvd length (drop (32 * i) s)" using n by (simp flip: right_diff_distrib')
  have prev: "chunks 32 s ! (i - 1) = slice s (32 * (i - 1)) (32 * i)"
    using i \<open>i \<le> n\<close> ws by (subst nth_chunks) (auto simp: slice_def right_diff_distrib')
  have "unseal_with_mask keccak (drop (32 * i) s) (keccak (slice s (32 * (i - 1)) (32 * i))) =
      Ok (concat (unseal_words keccak (keccak (chunks 32 s ! (i - 1))) (drop i (chunks 32 s))))"
    unfolding prev using len' by (simp add: unseal_with_mask_Ok drop_chunks)
  also have "unseal_words keccak (keccak (chunks 32 s ! (i - 1))) (drop i (chunks 32 s)) =
      drop i (unseal_words keccak m (chunks 32 s))"
    using i(1) \<open>i \<le> n\<close> ws by (simp add: drop_unseal_words)
  also have "concat \<dots> = drop (32 * i) d"
    using un len unseal_words_exact [OF len] by (subst concat_drop_exact [of _ 32]) (auto simp: unseal_with_mask_Ok)
  finally show ?thesis .
qed

lemma unseal_prefix:
  assumes len: "32 dvd length s" and un: "unseal_with_mask keccak s m = Ok d" and i: "32 * i \<le> length s"
  shows "unseal_with_mask keccak (take (32 * i) s) m = Ok (take (32 * i) d)"
proof -
  have "32 dvd length (take (32 * i) s)" using i by (simp add: min_def)
  then have "unseal_with_mask keccak (take (32 * i) s) m = Ok (concat (take i (unseal_words keccak m (chunks 32 s))))"
    by (simp add: unseal_with_mask_Ok take_unseal_words take_chunks)
  also have "concat (take i (unseal_words keccak m (chunks 32 s))) = take (32 * i) d"
    using un len unseal_words_exact [OF len] by (subst concat_take_exact [of _ 32]) (auto simp: unseal_with_mask_Ok)
  finally show ?thesis .
qed

lemma unseal_mask_length: "unseal_with_mask keccak s m = Ok d \<Longrightarrow> length d = length s"
  using words_exact(2) [OF map_length_unseal_words, of s keccak m]
  by (auto simp: unseal_with_mask_def)

end
