(* ===== verification/Chunk_Data_Laws.thy ===== *)
theory Chunk_Data_Laws
  imports Chunk_Data
begin

text \<open>
  The operations of \<open>Chunk_Data\<close> refine operations on the map \<open>bytes_at d\<close> from byte offsets to
  bytes, and keep the invariant \<open>batch_ok\<close>.
\<close>

subsection \<open>Ordered partial batches\<close>

definition whole :: "partial_batch \<Rightarrow> bool" where
  "whole p \<longleftrightarrow> pb_data p \<noteq> [] \<and> 256 dvd length (pb_data p)"

fun ordered :: "nat \<Rightarrow> partial_batch list \<Rightarrow> bool" where
  "ordered lo [] = True"
| "ordered lo (p # ps) = (lo \<le> start_sector p \<and> whole p \<and> ordered (Suc (end_sector p)) ps)"

definition next_sector :: "nat \<Rightarrow> partial_batch list \<Rightarrow> nat" where
  "next_sector lo ps = (if ps = [] then lo else Suc (end_sector (last ps)))"

definition first_byte :: "partial_batch \<Rightarrow> nat" where
  "first_byte p = start_sector p * 256"

definition last_byte :: "partial_batch \<Rightarrow> nat" where
  "last_byte p = first_byte p + length (pb_data p)"

lemma whole_end [simp]: "whole p \<Longrightarrow> end_sector p * 256 = last_byte p"
  by (auto simp: whole_def end_sector_def bytes_to_chunks_def last_byte_def first_byte_def algebra_simps elim!: dvdE)

lemma whole_less: "whole p \<Longrightarrow> start_sector p < end_sector p"
  by (auto simp: whole_def end_sector_def bytes_to_chunks_def elim!: dvdE intro!: gr0I)

lemma ordered_append: "ordered lo (xs @ ys) \<longleftrightarrow> ordered lo xs \<and> ordered (next_sector lo xs) ys"
  by (induction xs arbitrary: lo) (auto simp: next_sector_def)

lemma ordered_mono: "ordered lo xs \<Longrightarrow> lo' \<le> lo \<Longrightarrow> ordered lo' xs"
  by (cases xs) auto

lemma ordered_whole: "ordered lo xs \<Longrightarrow> p \<in> set xs \<Longrightarrow> whole p"
  by (induction xs arbitrary: lo) auto

lemma ordered_ge: "ordered lo xs \<Longrightarrow> p \<in> set xs \<Longrightarrow> lo \<le> start_sector p"
proof (induction xs arbitrary: lo)
  case (Cons q xs)
  then show ?case using whole_less [of q] by (auto dest!: Cons.IH)
qed simp

lemma ordered_before: "ordered lo (xs @ p # ys) \<Longrightarrow> q \<in> set xs \<Longrightarrow> Suc (end_sector q) \<le> start_sector p"
  by (induction xs arbitrary: lo) (auto dest: ordered_ge)

lemma ordered_after: "ordered lo (xs @ p # ys) \<Longrightarrow> q \<in> set ys \<Longrightarrow> Suc (end_sector p) \<le> start_sector q"
  by (auto simp: ordered_append dest: ordered_ge)

lemma ordered_sorted: "ordered lo xs \<Longrightarrow> sorted_wrt (<) (map start_sector xs)"
proof (induction xs arbitrary: lo)
  case (Cons p xs)
  have "start_sector p < start_sector q" if "q \<in> set xs" for q
    using Cons.prems ordered_ge [of _ xs q] whole_less [of p] that by fastforce
  with Cons show ?case by auto
qed simp

subsection \<open>Searching\<close>

lemma binary_search_sorted:
  "sorted_wrt (<) keys \<Longrightarrow>
     binary_search keys k =
       (let j = length (takeWhile (\<lambda>x. x \<le> k) keys)
        in if k \<in> set keys then Found (j - 1) else Missing j)"
proof (induction keys)
  case (Cons x keys)
  have gt: "takeWhile (\<lambda>y. y \<le> k) keys = []" "k \<notin> set keys" if "k \<le> x"
    using Cons.prems that by (auto simp: takeWhile_eq_Nil_iff) (metis hd_in_set leD le_less_trans)+
  consider "x < k" | "x = k" | "k < x" by linarith
  then show ?case
  proof cases
    case 1
    with Cons have IH: "binary_search keys k = (let j = length (takeWhile (\<lambda>x. x \<le> k) keys)
        in if k \<in> set keys then Found (j - 1) else Missing j)" by simp
    have pos: "k \<in> set keys \<Longrightarrow> 0 < length (takeWhile (\<lambda>x. x \<le> k) keys)"
      using Cons.prems by (cases keys) auto
    from IH 1 pos show ?thesis by (auto simp: binary_search_def Let_def split: if_splits)
  next
    case 2
    with gt show ?thesis by (simp add: binary_search_def)
  next
    case 3
    with gt show ?thesis by (simp add: binary_search_def)
  qed
qed (simp add: binary_search_def)

lemma find_cases [consumes 1, case_names hit miss]:
  assumes ord: "ordered lo xs"
  obtains (hit) pre p post where "xs = pre @ p # post" "find_batch xs s = Found (length pre)"
      "start_sector p \<le> s" "s < end_sector p"
  | (miss) pre post where "xs = pre @ post" "find_batch xs s = Missing (length pre)"
      "\<forall>p \<in> set pre. end_sector p \<le> s" "\<forall>p \<in> set post. s < start_sector p"
proof -
  define pre where "pre = takeWhile (\<lambda>p. start_sector p \<le> s) xs"
  define post where "post = dropWhile (\<lambda>p. start_sector p \<le> s) xs"
  have xs: "xs = pre @ post" by (simp add: pre_def post_def)
  have len: "length (takeWhile (\<lambda>x. x \<le> s) (map start_sector xs)) = length pre"
    by (simp add: pre_def takeWhile_map o_def)
  have le: "\<forall>p \<in> set pre. start_sector p \<le> s" unfolding pre_def by (auto dest: set_takeWhileD)
  have gt: "s < start_sector p" if "p \<in> set post" for p
  proof (cases post)
    case (Cons q post')
    then have "\<not> start_sector q \<le> s" unfolding post_def by (metis dropWhile_eq_Cons_conv)
    moreover have "start_sector q \<le> start_sector p"
      using that Cons ord xs whole_less [of q] by (auto simp: ordered_append dest!: ordered_ge)
    ultimately show ?thesis by simp
  qed (use that in simp)
  have mem: "s \<in> set (map start_sector xs) \<longleftrightarrow> pre \<noteq> [] \<and> start_sector (last pre) = s"
  proof
    assume "s \<in> set (map start_sector xs)"
    then obtain p where p: "p \<in> set xs" "start_sector p = s" by auto
    with gt xs have "p \<in> set pre" by auto
    then obtain a b where ab: "pre = a @ p # b" by (meson split_list)
    have "b = []"
    proof (rule ccontr)
      assume "b \<noteq> []"
      then obtain q where q: "q \<in> set b" by (meson list.set_sel(1))
      have whole: "whole p" using ord xs ab by (auto simp: ordered_append)
      have "Suc (end_sector p) \<le> start_sector q"
        using ordered_after [of lo a p "b @ post" q] ord xs ab q by simp
      moreover have "start_sector q \<le> s" using le ab q by simp
      ultimately show False using whole_less [OF whole] p(2) by simp
    qed
    with ab p show "pre \<noteq> [] \<and> start_sector (last pre) = s" by simp
  next
    assume "pre \<noteq> [] \<and> start_sector (last pre) = s"
    then show "s \<in> set (map start_sector xs)" using xs by (auto intro!: image_eqI [of _ _ "last pre"])
  qed
  have find: "find_batch xs s = (if pre = [] then Missing 0
      else if s < end_sector (last pre) then Found (length pre - 1) else Missing (length pre))"
    using binary_search_sorted [OF ordered_sorted [OF ord], of s] len mem xs
    by (cases "pre = []") (auto simp: find_batch_def Let_def last_conv_nth nth_append)
  show thesis
  proof (cases "pre = [] \<or> end_sector (last pre) \<le> s")
    case True
    have "end_sector p \<le> s" if p: "p \<in> set pre" for p
    proof -
      from p True have ne: "pre \<noteq> []" "end_sector (last pre) \<le> s" by auto
      then have "pre = butlast pre @ [last pre]" by simp
      with p consider "p = last pre" | "p \<in> set (butlast pre)" by (metis Un_iff empty_iff insert_iff list.set set_append)
      then show ?thesis
      proof cases
        case 2
        have eq: "butlast pre @ last pre # post = pre @ post"
          using ne(1) by (metis append.assoc append_Cons append_Nil append_butlast_last_id)
        have o: "ordered lo (butlast pre @ last pre # post)" unfolding eq using ord xs by simp
        then have "whole (last pre)" by (simp add: ordered_append)
        with ordered_before [OF o 2] whole_less [of "last pre"] ne show ?thesis by simp
      qed (use ne in simp)
    qed
    with True find xs gt show thesis by (intro miss [of pre post]) auto
  next
    case False
    then have ne: "pre \<noteq> []" "s < end_sector (last pre)" by auto
    with find xs le show thesis by (intro hit [of "butlast pre" "last pre" post]) auto
  qed
qed

subsection \<open>Content\<close>

definition pb_lookup :: "partial_batch \<Rightarrow> nat \<Rightarrow> 8 word option" where
  "pb_lookup p off =
     (if first_byte p \<le> off \<and> off < last_byte p then Some (pb_data p ! (off - first_byte p)) else None)"

fun list_lookup :: "partial_batch list \<Rightarrow> nat \<Rightarrow> 8 word option" where
  "list_lookup [] off = None"
| "list_lookup (p # ps) off = (case pb_lookup p off of None \<Rightarrow> list_lookup ps off | Some b \<Rightarrow> Some b)"

definition bytes_at :: "entry_batch_data \<Rightarrow> nat \<Rightarrow> 8 word option" where
  "bytes_at d off =
     (case d of Complete data \<Rightarrow> vec_get data off | Incomplete xs \<Rightarrow> list_lookup xs off)"

lemma bytes_at_simps [simp]:
  "bytes_at (Complete data) off = vec_get data off" "bytes_at (Incomplete xs) off = list_lookup xs off"
  by (simp_all add: bytes_at_def)

definition batch_ok :: "entry_batch_data \<Rightarrow> bool" where
  "batch_ok d \<longleftrightarrow>
     (case d of
        Complete data \<Rightarrow> length data = BYTES_PER_LOAD
      | Incomplete xs \<Rightarrow>
          ordered 0 xs \<and> (\<forall>p \<in> set xs. end_sector p \<le> SECTORS_PER_LOAD) \<and>
          \<not> (\<exists>p. xs = [p] \<and> start_sector p = 0 \<and> end_sector p = SECTORS_PER_LOAD))"

lemma list_lookup_append:
  "list_lookup (xs @ ys) off = (case list_lookup xs off of None \<Rightarrow> list_lookup ys off | Some b \<Rightarrow> Some b)"
  by (induction xs) (auto split: option.split)

lemma list_lookup_None: "list_lookup xs off = None \<longleftrightarrow> (\<forall>p \<in> set xs. off < first_byte p \<or> last_byte p \<le> off)"
  by (induction xs) (auto simp: pb_lookup_def split: option.split)

lemma sector_le: "a \<le> b \<Longrightarrow> a * 256 \<le> b * (256::nat)"
  by simp

lemma before_bytes:
  assumes "ordered lo (pre @ p # post)"
  shows "q \<in> set pre \<Longrightarrow> last_byte q + 256 \<le> first_byte p"
    and "q \<in> set post \<Longrightarrow> last_byte p + 256 \<le> first_byte q"
proof -
  show "last_byte q + 256 \<le> first_byte p" if q: "q \<in> set pre"
    using sector_le [OF ordered_before [OF assms q]] whole_end [of q] ordered_whole [OF assms, of q] q
    by (simp add: first_byte_def)
  show "last_byte p + 256 \<le> first_byte q" if q: "q \<in> set post"
    using sector_le [OF ordered_after [OF assms q]] whole_end [of p] ordered_whole [OF assms, of p]
    by (simp add: first_byte_def)
qed

lemma lookup_hit:
  assumes "ordered lo (pre @ p # post)" and "first_byte p \<le> off" and "off < last_byte p"
  shows "list_lookup (pre @ p # post) off = Some (pb_data p ! (off - first_byte p))"
proof -
  have "list_lookup pre off = None"
    unfolding list_lookup_None using before_bytes(1) [OF assms(1)] assms(2) by fastforce
  with assms(2,3) show ?thesis by (simp add: list_lookup_append pb_lookup_def)
qed

lemma lookup_gap:
  assumes "ordered lo (pre @ p # post)"
  shows "list_lookup (pre @ p # post) (last_byte p) = None"
  unfolding list_lookup_None using before_bytes [OF assms] by (fastforce simp: last_byte_def)

lemma sector_in_batch:
  assumes "whole p"
  shows "start_sector p \<le> s div 256 \<and> s div 256 < end_sector p \<longleftrightarrow> first_byte p \<le> s \<and> s < last_byte p"
  using whole_end [OF assms, symmetric] by (simp add: first_byte_def less_eq_div_iff_mult_less_eq div_less_iff_less_mult)

lemma lookup_miss:
  assumes "\<forall>p \<in> set pre. end_sector p \<le> s div 256" and "\<forall>p \<in> set post. s div 256 < start_sector p"
    and "\<forall>p \<in> set (pre @ post). whole p"
  shows "list_lookup (pre @ post) s = None"
  unfolding list_lookup_None
proof
  fix p assume p: "p \<in> set (pre @ post)"
  then have "\<not> (start_sector p \<le> s div 256 \<and> s div 256 < end_sector p)" using assms(1,2) by force
  with sector_in_batch [of p s] assms(3) p show "s < first_byte p \<or> last_byte p \<le> s" by auto
qed

subsection \<open>Reading\<close>

definition present :: "entry_batch_data \<Rightarrow> nat \<Rightarrow> nat \<Rightarrow> bool" where
  "present d a b \<longleftrightarrow> (\<forall>off. a \<le> off \<longrightarrow> off < b \<longrightarrow> bytes_at d off \<noteq> None)"

definition content :: "entry_batch_data \<Rightarrow> nat \<Rightarrow> nat \<Rightarrow> 8 word list" where
  "content d a b = map (\<lambda>off. the (bytes_at d off)) [a..<b]"

lemma get_data_refines:
  assumes ok: "batch_ok d" and l: "0 < l" and range: "s + l \<le> BYTES_PER_LOAD"
  shows "get_data d s l = Ok (if present d s (s + l) then Some (content d s (s + l)) else None)"
proof (cases d)
  case (Complete data)
  then have "length data = BYTES_PER_LOAD" using ok by (simp add: batch_ok_def)
  with Complete range show ?thesis
    by (auto simp: get_data_def slice_get_def present_def content_def bytes_at_def vec_get_def
        nth_slice intro!: nth_equalityI)
next
  case (Incomplete xs)
  then have ord: "ordered 0 xs" using ok by (simp add: batch_ok_def)
  have at: "bytes_at d off = list_lookup xs off" for off using Incomplete by (simp add: bytes_at_def)
  show ?thesis
    using ord
  proof (cases rule: find_cases [where s = "s div 256"])
    case (hit pre p post)
    note o = ord [unfolded hit(1)]
    have wp: "whole p" using o by (simp add: ordered_append)
    with hit(3,4) sector_in_batch [of p s] have s: "first_byte p \<le> s" "s < last_byte p" by auto
    have run: "get_data d s l = Ok (slice_get (pb_data p) (s - first_byte p) (s - first_byte p + l))"
      using Incomplete hit(1,2) range by (simp add: get_data_def layout_simps first_byte_def Let_def)
    show ?thesis
    proof (cases "s + l \<le> last_byte p")
      case True
      have "bytes_at d off = Some (pb_data p ! (off - first_byte p))" if "s \<le> off" "off < s + l" for off
        using lookup_hit [OF o, of off] s True that at hit(1) by simp
      then have "present d s (s + l)" "content d s (s + l) = slice (pb_data p) (s - first_byte p) (s - first_byte p + l)"
        using s True by (auto simp: present_def content_def last_byte_def nth_slice intro!: nth_equalityI)
      with run s True show ?thesis by (auto simp: slice_get_def last_byte_def)
    next
      case False
      then have "\<not> present d s (s + l)"
        using lookup_gap [OF o] s at hit(1) unfolding present_def by (auto intro!: exI [of _ "last_byte p"])
      with run False s show ?thesis by (auto simp: slice_get_def last_byte_def)
    qed
  next
    case (miss pre post)
    have "bytes_at d s = None"
      using lookup_miss [OF miss(3,4)] ordered_whole [OF ord] miss(1) at by simp
    then have "\<not> present d s (s + l)" using l by (auto simp: present_def)
    with Incomplete miss(2) range show ?thesis by (simp add: get_data_def layout_simps)
  qed
qed

subsection \<open>Truncating\<close>

lemma first_byte_update [simp]: "first_byte (p\<lparr>pb_data := x\<rparr>) = first_byte p"
  by (simp add: first_byte_def)

lemma last_byte_update [simp]: "last_byte (p\<lparr>pb_data := x\<rparr>) = first_byte p + length x"
  by (simp add: last_byte_def)

lemma end_sector_whole: "whole p \<Longrightarrow> end_sector p = last_byte p div 256"
  using whole_end [of p] by (metis nonzero_mult_div_cancel_right zero_neq_numeral)

lemma lookup_outside:
  "\<forall>p \<in> set xs. last_byte p \<le> b \<Longrightarrow> b \<le> off \<Longrightarrow> list_lookup xs off = None"
  "\<forall>p \<in> set xs. b \<le> first_byte p \<Longrightarrow> off < b \<Longrightarrow> list_lookup xs off = None"
  by (fastforce simp: list_lookup_None)+

lemma truncate_list:
  assumes ok: "batch_ok (Incomplete xs)" and tb: "256 dvd tb" "0 < tb" "tb < BYTES_PER_LOAD"
  shows "\<exists>d'. truncate_data (Incomplete xs) tb = Ok d' \<and> batch_ok d' \<and>
           (\<forall>off. bytes_at d' off = (if off < tb then list_lookup xs off else None))"
proof -
  from ok have ord: "ordered 0 xs" and up: "\<forall>p \<in> set xs. end_sector p \<le> SECTORS_PER_LOAD" by (auto simp: batch_ok_def)
  have mod0: "tb mod 256 = 0" using tb(1) by (simp add: dvd_eq_mod_eq_0)
  have T: "tb div 256 * 256 = tb" using tb(1) by simp
  have lt: "tb div 256 < SECTORS_PER_LOAD" using tb(3) by (simp add: layout_simps)
  have pre_ok: "batch_ok (Incomplete pre)" if "ordered 0 pre" "\<forall>p \<in> set pre. end_sector p \<le> tb div 256" for pre
    using that lt by (fastforce simp: batch_ok_def)
  have pre_bytes: "\<forall>p \<in> set pre. last_byte p \<le> tb"
    if "ordered 0 pre" "\<forall>p \<in> set pre. end_sector p \<le> tb div 256" for pre
    using that ordered_whole [of 0 pre] sector_le [of "end_sector _" "tb div 256"] T by (metis whole_end)
  show ?thesis
    using ord
  proof (cases rule: find_cases [where s = "tb div 256"])
    case (miss pre post)
    have run: "truncate_data (Incomplete xs) tb = Ok (Incomplete pre)"
      using mod0 miss(1,2) by (simp add: truncate_data_def layout_simps)
    have o: "ordered 0 pre" using ord miss(1) by (simp add: ordered_append)
    have "\<forall>p \<in> set post. tb \<le> first_byte p"
      using miss(4) T by (metis first_byte_def less_imp_le_nat sector_le)
    then have "list_lookup pre off = (if off < tb then list_lookup xs off else None)" for off
      using lookup_outside(1) [OF pre_bytes [OF o miss(3)]] lookup_outside(2) [of post tb off] miss(1)
      by (auto simp: list_lookup_append split: option.split)
    with run pre_ok [OF o miss(3)] show ?thesis by (simp add: bytes_at_def)
  next
    case (hit pre p post)
    note o = ord [unfolded hit(1)]
    have wp: "whole p" and opre: "ordered 0 pre" using o by (simp_all add: ordered_append)
    with hit(3,4) sector_in_batch [of p tb] have in_p: "first_byte p \<le> tb" "tb < last_byte p" by auto
    define kept where "kept = take (tb - first_byte p) (pb_data p)"
    let ?p = "p\<lparr>pb_data := kept\<rparr>"
    have len: "length kept = tb - first_byte p" using in_p by (simp add: kept_def last_byte_def)
    have pre_le: "\<forall>q \<in> set pre. end_sector q \<le> tb div 256" using ordered_before [OF o] hit(3) by fastforce
    have post_ge: "\<forall>q \<in> set post. tb \<le> first_byte q" using before_bytes(2) [OF o] in_p by fastforce
    have look: "pb_lookup ?p off = (if off < tb then pb_lookup p off else None)" for off
      using in_p len by (auto simp: pb_lookup_def kept_def)
    have pre_none: "list_lookup pre off = None" if "tb \<le> off" for off
      by (rule lookup_outside(1) [OF pre_bytes [OF opre pre_le] that])
    have post_none: "list_lookup post off = None" if "off < tb" for off
      by (rule lookup_outside(2) [OF post_ge that])
    have content: "list_lookup (pre @ [?p]) off = (if off < tb then list_lookup xs off else None)" for off
      using pre_none [of off] post_none [of off] look [of off] hit(1)
      by (auto simp: list_lookup_append split: option.split)
    show ?thesis
    proof (cases "kept = []")
      case True
      then have "tb = first_byte p" using len in_p by simp
      then have "pb_lookup ?p off = None" for off using True by (simp add: pb_lookup_def last_byte_def)
      then have "list_lookup (pre @ [?p]) off = list_lookup pre off" for off
        by (simp add: list_lookup_append split: option.split)
      with content have "list_lookup pre off = (if off < tb then list_lookup xs off else None)" for off by simp
      moreover have "truncate_data (Incomplete xs) tb = Ok (Incomplete pre)"
        using mod0 hit(1,2) True by (simp add: truncate_data_def layout_simps Let_def kept_def first_byte_def)
      ultimately show ?thesis using pre_ok [OF opre pre_le] by (simp add: bytes_at_def)
    next
      case False
      have dvd: "256 dvd length kept" using len tb(1) by (simp add: first_byte_def dvd_diff_nat)
      then have wp': "whole ?p" using False by (simp add: whole_def)
      have "last_byte ?p = tb" using len in_p by simp
      then have endp: "end_sector ?p = tb div 256" using end_sector_whole [OF wp'] by simp
      have "ordered 0 (pre @ [?p])" using o wp' by (simp add: ordered_append)
      then have "batch_ok (Incomplete (pre @ [?p]))"
        using pre_le endp lt by (fastforce simp: batch_ok_def)
      moreover have "truncate_data (Incomplete xs) tb = Ok (Incomplete (pre @ [?p]))"
        using mod0 hit(1,2) False by (simp add: truncate_data_def layout_simps Let_def kept_def first_byte_def)
      ultimately show ?thesis using content by (simp add: bytes_at_def)
    qed
  qed
qed

lemma truncate_data_refines:
  assumes ok: "batch_ok d" and tb: "256 dvd tb" "0 < tb" "tb < BYTES_PER_LOAD"
  shows "\<exists>d'. truncate_data d tb = Ok d' \<and> batch_ok d' \<and>
           (\<forall>off. bytes_at d' off = (if off < tb then bytes_at d off else None))"
proof (cases d)
  case (Complete data)
  let ?p = "\<lparr>start_sector = 0, pb_data = take tb data\<rparr>"
  have len: "length (take tb data) = tb" using Complete ok tb by (simp add: batch_ok_def)
  then have "whole ?p" using tb by (auto simp: whole_def)
  moreover have "end_sector ?p < SECTORS_PER_LOAD"
    using len tb by (auto simp: end_sector_def bytes_to_chunks_def layout_simps elim!: dvdE)
  ultimately have "batch_ok (Incomplete [?p])" by (simp add: batch_ok_def)
  moreover have "truncate_data d tb = Ok (Incomplete [?p])"
    using Complete tb by (simp add: truncate_data_def layout_simps dvd_eq_mod_eq_0)
  moreover have "list_lookup [?p] off = (if off < tb then vec_get data off else None)" for off
    using len by (auto simp: pb_lookup_def first_byte_def last_byte_def vec_get_def)
  ultimately show ?thesis using Complete by (simp add: bytes_at_def)
next
  case (Incomplete xs)
  with truncate_list [of xs tb] ok tb show ?thesis by auto
qed

subsection \<open>Inserting\<close>

text \<open>The new data is merged with a batch that ends where it starts, and one that starts where it ends.\<close>

definition join :: "partial_batch \<Rightarrow> partial_batch \<Rightarrow> partial_batch" where
  "join p q = p\<lparr>pb_data := pb_data p @ pb_data q\<rparr>"

lemma join_simps:
  assumes "whole p" and "whole q" and "end_sector p = start_sector q"
  shows "whole (join p q)" and "start_sector (join p q) = start_sector p"
    and "end_sector (join p q) = end_sector q" and "pb_lookup (join p q) off = list_lookup [p, q] off"
proof -
  have touch: "first_byte q = last_byte p" using assms whole_end [of p] by (simp add: first_byte_def)
  show w: "whole (join p q)" using assms by (auto simp: whole_def join_def)
  show "start_sector (join p q) = start_sector p" by (simp add: join_def)
  have "last_byte (join p q) = last_byte q" using touch by (simp add: join_def last_byte_def)
  then show "end_sector (join p q) = end_sector q" using assms w by (simp add: end_sector_whole)
  show "pb_lookup (join p q) off = list_lookup [p, q] off"
    using touch by (auto simp: pb_lookup_def join_def last_byte_def nth_append)
qed

definition new_batch :: "nat \<Rightarrow> 8 word list \<Rightarrow> partial_batch" where
  "new_batch a data = \<lparr>start_sector = a, pb_data = data\<rparr>"

lemma new_batch_simps:
  assumes "length data = (b - a) * 256" and "a < b"
  shows "whole (new_batch a data)" and "start_sector (new_batch a data) = a" and "end_sector (new_batch a data) = b"
    and "first_byte (new_batch a data) = a * 256" and "last_byte (new_batch a data) = b * 256"
proof -
  have "data \<noteq> []" using assms by auto
  then show "whole (new_batch a data)" using assms by (simp add: whole_def new_batch_def)
  show "start_sector (new_batch a data) = a" "first_byte (new_batch a data) = a * 256"
    by (simp_all add: new_batch_def first_byte_def)
  show "end_sector (new_batch a data) = b" using assms by (simp add: new_batch_def end_sector_def bytes_to_chunks_def)
  show "last_byte (new_batch a data) = b * 256"
    using assms by (simp add: new_batch_def last_byte_def first_byte_def diff_mult_distrib)
qed

lemma merge_left:
  assumes ord: "ordered 0 pre" and pre: "\<forall>p \<in> set pre. end_sector p \<le> start_sector new" and new: "whole new"
  obtains pre' m1 sl where "pre = pre' @ m1"
    "sl = (if pre \<noteq> [] \<and> start_sector new = end_sector (last pre) then join (last pre) new else new)"
    "m1 = (if pre \<noteq> [] \<and> start_sector new = end_sector (last pre) then [last pre] else [])"
    "whole sl" "end_sector sl = end_sector new" "start_sector sl \<le> start_sector new"
    "next_sector 0 pre' \<le> start_sector sl" "\<And>off. pb_lookup sl off = list_lookup (m1 @ [new]) off" "ordered 0 pre'"
proof (cases "pre \<noteq> [] \<and> start_sector new = end_sector (last pre)")
  case True
  then obtain pre' prev where p: "pre = pre' @ [prev]" by (cases pre rule: rev_cases) auto
  with ord have o: "ordered 0 pre'" "next_sector 0 pre' \<le> start_sector prev" "whole prev" by (simp_all add: ordered_append)
  note j = join_simps [OF o(3) new]
  from True p have touch: "end_sector prev = start_sector new" by simp
  show thesis
    by (rule that [of pre' "[prev]" "join prev new"])
      (use True p o j [OF touch] touch whole_less [OF o(3)] in \<open>simp_all\<close>)
next
  case False
  have "next_sector 0 pre \<le> start_sector new"
  proof (cases "pre = []")
    case no: False
    with pre have "end_sector (last pre) \<le> start_sector new" by simp
    with False no show ?thesis by (simp add: next_sector_def)
  qed (simp add: next_sector_def)
  with False ord new show thesis
    by (intro that [of pre "[]" new]) (auto split: option.split)
qed

lemma merge_right:
  assumes ord: "ordered lo post" and post: "\<forall>p \<in> set post. end_sector sl \<le> start_sector p" and sl: "whole sl"
  obtains m2 post' sr where "post = m2 @ post'"
    "sr = (if post \<noteq> [] \<and> end_sector sl = start_sector (hd post) then join sl (hd post) else sl)"
    "m2 = (if post \<noteq> [] \<and> end_sector sl = start_sector (hd post) then [hd post] else [])"
    "whole sr" "start_sector sr = start_sector sl" "end_sector sl \<le> end_sector sr"
    "ordered (Suc (end_sector sr)) post'" "\<And>off. pb_lookup sr off = list_lookup (sl # m2) off"
    "end_sector sr = end_sector sl \<or> (\<exists>p \<in> set post. end_sector sr = end_sector p)"
proof (cases "post \<noteq> [] \<and> end_sector sl = start_sector (hd post)")
  case True
  then obtain nx post' where p: "post = nx # post'" by (cases post) auto
  with ord have o: "whole nx" "ordered (Suc (end_sector nx)) post'" by simp_all
  from True p have touch: "end_sector sl = start_sector nx" by simp
  show thesis
    by (rule that [of "[nx]" post' "join sl nx"])
      (use True p o join_simps [OF sl o(1) touch] touch whole_less [OF o(1)] in \<open>simp_all\<close>)
next
  case False
  have "ordered (Suc (end_sector sl)) post"
  proof (cases post)
    case (Cons q qs)
    with False post have "end_sector sl < start_sector q" by (auto simp: le_less)
    with ord Cons show ?thesis by simp
  qed simp
  with False sl show thesis
    by (intro that [of "[]" post sl]) (auto split: option.split)
qed

lemma place_batch_run:
  assumes split: "pre = pre' @ m1" "post = m2 @ post'"
    and m1: "m1 = (if pre \<noteq> [] \<and> a = end_sector (last pre) then [last pre] else [])"
    and m2: "m2 = (if post \<noteq> [] \<and> b = start_sector (hd post) then [hd post] else [])"
    and sl: "sl = (if m1 \<noteq> [] then join (last pre) (new_batch a data) else new_batch a data)"
    and sr: "sr = (if m2 \<noteq> [] then join sl (hd post) else sl)"
  shows "place_batch (pre @ post) (length pre) a b data = (pre' @ sr # post', sr)"
proof -
  have at: "pre \<noteq> [] \<Longrightarrow> (pre @ post) ! (length pre - 1) = last pre" "post \<noteq> [] \<Longrightarrow> (pre @ post) ! length pre = hd post"
    by (simp_all add: nth_append last_conv_nth hd_conv_nth)
  have mp: "length pre \<noteq> 0 \<and> a = end_sector ((pre @ post) ! (length pre - 1)) \<longleftrightarrow> m1 \<noteq> []"
    using at(1) unfolding m1 by (cases "pre = []") auto
  have mn: "length pre \<noteq> length (pre @ post) \<and> b = start_sector ((pre @ post) ! length pre) \<longleftrightarrow> m2 \<noteq> []"
    using at(2) unfolding m2 by (cases "post = []") auto
  have prev: "\<exists>prev. m1 = [prev] \<and> last pre = prev" if "m1 \<noteq> []" using that m1 by (auto split: if_splits)
  have nx: "\<exists>nx. m2 = [nx] \<and> hd post = nx" if "m2 \<noteq> []" using that m2 by (auto split: if_splits)
  consider "m1 = []" "m2 = []" | "m1 \<noteq> []" "m2 = []" | "m1 = []" "m2 \<noteq> []" | "m1 \<noteq> []" "m2 \<noteq> []" by blast
  then show ?thesis
  proof cases
    case 1
    then show ?thesis
      unfolding place_batch_def Let_def mp mn using sl sr split by (simp add: new_batch_def)
  next
    case 2
    from prev [OF 2(1)] obtain q where q: "m1 = [q]" by blast
    from 2 q sl sr split show ?thesis
      unfolding place_batch_def Let_def mp mn by (simp add: new_batch_def join_def list_update_append nth_append)
  next
    case 3
    from nx [OF 3(2)] obtain q where q: "m2 = [q]" by blast
    from 3 q sl sr split show ?thesis
      unfolding place_batch_def Let_def mp mn by (simp add: new_batch_def join_def list_update_append nth_append)
  next
    case 4
    from prev [OF 4(1)] nx [OF 4(2)] obtain q q' where q: "m1 = [q]" "m2 = [q']" by blast
    from 4 q sl sr split show ?thesis
      unfolding place_batch_def Let_def mp mn by (simp add: new_batch_def join_def nth_append)
  qed
qed

lemma place_batch_merged:
  assumes ord: "ordered 0 (pre @ post)"
    and pre: "\<forall>p \<in> set pre. end_sector p \<le> a" and post: "\<forall>p \<in> set post. b \<le> start_sector p"
    and data: "length data = (b - a) * 256" "a < b"
  obtains pre' post' seg where "place_batch (pre @ post) (length pre) a b data = (pre' @ seg # post', seg)"
    "ordered 0 (pre' @ seg # post')" "start_sector seg \<le> a" "b \<le> end_sector seg"
    "\<And>off. list_lookup (pre' @ seg # post') off = list_lookup (pre @ new_batch a data # post) off"
    "\<forall>p \<in> set (pre' @ seg # post'). end_sector p = b \<or> (\<exists>q \<in> set (pre @ post). end_sector p = end_sector q)"
proof -
  let ?new = "new_batch a data"
  note n = new_batch_simps [OF data]
  from ord have o: "ordered 0 pre" "ordered (next_sector 0 pre) post" by (simp_all add: ordered_append)
  have pre': "\<forall>p \<in> set pre. end_sector p \<le> start_sector ?new" using pre n(2) by simp
  obtain pre' m1 sl where l: "pre = pre' @ m1"
    "sl = (if pre \<noteq> [] \<and> start_sector ?new = end_sector (last pre) then join (last pre) ?new else ?new)"
    "m1 = (if pre \<noteq> [] \<and> start_sector ?new = end_sector (last pre) then [last pre] else [])"
    "whole sl" "end_sector sl = end_sector ?new" "start_sector sl \<le> start_sector ?new"
    "next_sector 0 pre' \<le> start_sector sl" "\<And>off. pb_lookup sl off = list_lookup (m1 @ [?new]) off" "ordered 0 pre'"
    by (rule merge_left [OF o(1) pre' n(1)]) (rule that)
  have post': "\<forall>p \<in> set post. end_sector sl \<le> start_sector p" using post l(5) n(3) by simp
  obtain m2 post' sr where r: "post = m2 @ post'"
    "sr = (if post \<noteq> [] \<and> end_sector sl = start_sector (hd post) then join sl (hd post) else sl)"
    "m2 = (if post \<noteq> [] \<and> end_sector sl = start_sector (hd post) then [hd post] else [])"
    "whole sr" "start_sector sr = start_sector sl" "end_sector sl \<le> end_sector sr"
    "ordered (Suc (end_sector sr)) post'" "\<And>off. pb_lookup sr off = list_lookup (sl # m2) off"
    "end_sector sr = end_sector sl \<or> (\<exists>p \<in> set post. end_sector sr = end_sector p)"
    by (rule merge_right [OF o(2) post' l(4)]) (rule that)
  have sl: "sl = (if m1 \<noteq> [] then join (last pre) ?new else ?new)" unfolding l(2,3) by simp
  have sr: "sr = (if m2 \<noteq> [] then join sl (hd post) else sl)" unfolding r(2,3) by simp
  have "place_batch (pre @ post) (length pre) a b data = (pre' @ sr # post', sr)"
    by (rule place_batch_run [OF l(1) r(1) l(3) [unfolded n(2)] r(3) [unfolded l(5) n(3)] sl sr])
  moreover have "ordered 0 (pre' @ sr # post')" using l(7,9) r(4,5,7) by (simp add: ordered_append)
  moreover have "list_lookup (pre' @ sr # post') off = list_lookup (pre @ ?new # post) off" for off
    using l(1,8) r(1,8) by (simp add: list_lookup_append split: option.split)
  moreover have "\<forall>p \<in> set (pre' @ sr # post'). end_sector p = b \<or> (\<exists>q \<in> set (pre @ post). end_sector p = end_sector q)"
    using l(1,5) r(1,9) n(3) by auto
  ultimately show thesis using l(5,6) r(5,6) n by (intro that) auto
qed

lemma lookup_inserted:
  assumes pre: "\<forall>p \<in> set pre. end_sector p \<le> a" "\<forall>p \<in> set pre. whole p"
    and data: "length data = (b - a) * 256" "a < b"
  shows "list_lookup (pre @ new_batch a data # post) off =
           (if a * 256 \<le> off \<and> off < b * 256 then Some (data ! (off - a * 256)) else list_lookup (pre @ post) off)"
proof -
  note n = new_batch_simps [OF data]
  have "\<forall>p \<in> set pre. last_byte p \<le> a * 256" using pre sector_le by (metis whole_end)
  then have "list_lookup pre off = None" if "a * 256 \<le> off" using lookup_outside(1) that by blast
  then show ?thesis
    using n by (auto simp: list_lookup_append pb_lookup_def new_batch_def split: option.split)
qed

text \<open>The two searches of an insertion: they agree exactly when the new range is free.\<close>

definition free_range :: "partial_batch list \<Rightarrow> nat \<Rightarrow> nat \<Rightarrow> bool" where
  "free_range xs a b \<longleftrightarrow> (\<forall>off. a * 256 \<le> off \<longrightarrow> off < b * 256 \<longrightarrow> list_lookup xs off = None)"

lemma occupied:
  assumes "p \<in> set xs" and "first_byte p \<le> off" and "off < last_byte p"
  shows "list_lookup xs off \<noteq> None"
  using assms unfolding list_lookup_None by fastforce

lemma search_free:
  assumes ord: "ordered 0 xs" and ab: "a < b" and free: "free_range xs a b"
  obtains pre post where "xs = pre @ post" "find_batch xs a = Missing (length pre)"
    "find_batch xs (b - 1) = Missing (length pre)"
    "\<forall>p \<in> set pre. end_sector p \<le> a" "\<forall>p \<in> set post. b \<le> start_sector p"
proof -
  have no_hit: False if p: "p \<in> set xs" "start_sector p \<le> s" "s < end_sector p" "a \<le> s" "s < b" for p s
  proof -
    have w: "whole p" using ordered_whole [OF ord p(1)] .
    from p(2,3) sector_in_batch [OF w, of "s * 256"] have "first_byte p \<le> s * 256" "s * 256 < last_byte p" by auto
    from occupied [OF p(1) this] free p(4,5) show False unfolding free_range_def by simp
  qed
  from ord show thesis
  proof (cases rule: find_cases [where s = a])
    case (hit pre p post)
    then show ?thesis using no_hit [of p a] ab by simp
  next
    case (miss pre post)
    note one = this
    from ord show ?thesis
    proof (cases rule: find_cases [where s = "b - 1"])
      case (hit pre p post)
      moreover have "a \<le> b - 1" "b - 1 < b" using ab by linarith+
      ultimately show ?thesis using no_hit [of p "b - 1"] by simp
    next
      case (miss pre2 post2)
      have len: "length pre = length pre2"
      proof (rule antisym; rule ccontr)
        assume "\<not> length pre \<le> length pre2"
        then have lt: "length pre2 < length pre" by simp
        let ?p = "xs ! length pre2"
        have "?p \<in> set pre" using one(1) lt by (simp add: nth_append)
        moreover have "length pre2 < length xs" using one(1) lt by simp
        then have "?p \<in> set post2" using miss(1) by (auto simp: nth_append)
        ultimately have "end_sector ?p \<le> a" "b - 1 < start_sector ?p" "?p \<in> set xs"
          using one(1,3) miss(4) by simp_all
        moreover from this(3) have "start_sector ?p < end_sector ?p" by (intro whole_less ordered_whole [OF ord])
        ultimately show False using ab by linarith
      next
        assume "\<not> length pre2 \<le> length pre"
        then have lt: "length pre < length pre2" by simp
        let ?p = "xs ! length pre"
        have pre2: "?p \<in> set pre2" using miss(1) lt by (simp add: nth_append)
        have "length pre < length xs" using miss(1) lt by simp
        then have post: "?p \<in> set post" using one(1) by (auto simp: nth_append)
        have mem: "?p \<in> set xs" using pre2 miss(1) by simp
        then have "start_sector ?p < end_sector ?p" by (intro whole_less ordered_whole [OF ord])
        moreover have "end_sector ?p \<le> b - 1" using pre2 miss(3) by simp
        ultimately have "?p \<in> set xs" "start_sector ?p < b" "start_sector ?p < end_sector ?p" using mem by linarith+
        moreover have "a \<le> start_sector ?p" using one(4) post by (simp add: less_imp_le)
        ultimately show False using no_hit [of ?p "start_sector ?p"] by simp
      qed
      have same: "pre = pre2" "post = post2" using one(1) miss(1) len append_eq_append_conv by metis+
      have "\<forall>p \<in> set post. b \<le> start_sector p" using miss(4) same(2) by fastforce
      with that [OF one(1,2) _ one(3)] miss(2) same(1) show ?thesis by blast
    qed
  qed
qed

lemma search_occupied:
  assumes ord: "ordered 0 xs" and ab: "a < b" and occ: "\<not> free_range xs a b"
    and miss: "find_batch xs a = Missing i" "find_batch xs (b - 1) = Missing j"
  shows "i \<noteq> j"
proof
  assume eq: "i = j"
  from occ obtain off p where off: "a * 256 \<le> off" "off < b * 256"
    and p: "p \<in> set xs" "first_byte p \<le> off" "off < last_byte p"
    unfolding free_range_def list_lookup_None by (auto simp: not_less not_le)
  have w: "whole p" using ordered_whole [OF ord p(1)] .
  from ord obtain pre post where one: "xs = pre @ post" "i = length pre" "\<forall>p \<in> set pre. end_sector p \<le> a"
    by (cases rule: find_cases [where s = a]) (use miss in auto)
  from ord obtain pre2 post2 where two: "xs = pre2 @ post2" "j = length pre2" "\<forall>p \<in> set post2. b - 1 < start_sector p"
    by (cases rule: find_cases [where s = "b - 1"]) (use miss in auto)
  from one two eq have "post2 = post" by simp
  with p(1) one(1) consider "p \<in> set pre" | "p \<in> set post2" by auto
  then show False
  proof cases
    case 1
    with one(3) sector_le [of "end_sector p" a] w p(3) off(1) show False by simp
  next
    case 2
    with two(3) have "b \<le> start_sector p" by force
    from sector_le [OF this] p(2) off(2) show False by (simp add: first_byte_def)
  qed
qed

definition finish_batch :: "partial_batch list \<Rightarrow> entry_batch_data" where
  "finish_batch ys =
     (if length ys = 1 \<and> start_sector (ys ! 0) = 0 \<and> bytes_to_chunks (length (pb_data (ys ! 0))) = SECTORS_PER_LOAD
      then Complete (pb_data (ys ! 0)) else Incomplete ys)"

lemma finish_batch_ok:
  assumes ord: "ordered 0 ys" and up: "\<forall>p \<in> set ys. end_sector p \<le> SECTORS_PER_LOAD"
  shows "batch_ok (finish_batch ys)" and "bytes_at (finish_batch ys) off = list_lookup ys off"
proof -
  have "batch_ok (finish_batch ys) \<and> bytes_at (finish_batch ys) off = list_lookup ys off"
  proof (cases "length ys = 1 \<and> start_sector (ys ! 0) = 0 \<and> bytes_to_chunks (length (pb_data (ys ! 0))) = SECTORS_PER_LOAD")
    case True
    then obtain p where p: "ys = [p]" by (auto simp: length_Suc_conv)
    with True ord have w: "whole p" and e: "end_sector p = SECTORS_PER_LOAD" and s: "start_sector p = 0"
      by (auto simp: end_sector_def)
    from whole_end [OF w] e s have "length (pb_data p) = BYTES_PER_LOAD"
      by (simp add: last_byte_def first_byte_def layout_simps)
    with True p s show ?thesis
      by (auto simp: finish_batch_def batch_ok_def vec_get_def pb_lookup_def first_byte_def last_byte_def)
  next
    case False
    with ord up show ?thesis by (auto simp: finish_batch_def batch_ok_def end_sector_def)
  qed
  then show "batch_ok (finish_batch ys)" "bytes_at (finish_batch ys) off = list_lookup ys off" by simp_all
qed

definition ready_seals :: "nat \<Rightarrow> nat \<Rightarrow> partial_batch \<Rightarrow> nat list" where
  "ready_seals a b seg =
     (let intact = get_intact_sealing_index (start_sector seg) (length (pb_data seg) div BYTES_PER_SECTOR);
          covered = get_covered_sealing_index a (b - a)
      in filter (\<lambda>x. fst intact \<le> x \<and> x < snd intact) [fst covered..<snd covered])"

lemma insert_free:
  assumes ok: "batch_ok (Incomplete xs)" and data: "length data = (b - a) * 256" "a < b" and b: "b \<le> SECTORS_PER_LOAD"
    and free: "free_range xs a b"
  obtains pre' post' seg where
    "insert_data (Incomplete xs) (a * 256) data = Ok (finish_batch (pre' @ seg # post'), ready_seals a b seg)"
    "ordered 0 (pre' @ seg # post')" "start_sector seg \<le> a" "b \<le> end_sector seg"
    "\<forall>p \<in> set (pre' @ seg # post'). end_sector p \<le> SECTORS_PER_LOAD"
    "\<And>off. list_lookup (pre' @ seg # post') off =
       (if a * 256 \<le> off \<and> off < b * 256 then Some (data ! (off - a * 256)) else list_lookup xs off)"
proof -
  from ok have ord: "ordered 0 xs" and up: "\<forall>p \<in> set xs. end_sector p \<le> SECTORS_PER_LOAD" by (auto simp: batch_ok_def)
  obtain pre post where s: "xs = pre @ post" "find_batch xs a = Missing (length pre)"
    "find_batch xs (b - 1) = Missing (length pre)"
    "\<forall>p \<in> set pre. end_sector p \<le> a" "\<forall>p \<in> set post. b \<le> start_sector p"
    by (rule search_free [OF ord data(2) free]) (rule that)
  obtain pre' post' seg where m: "place_batch (pre @ post) (length pre) a b data = (pre' @ seg # post', seg)"
    "ordered 0 (pre' @ seg # post')" "start_sector seg \<le> a" "b \<le> end_sector seg"
    "\<And>off. list_lookup (pre' @ seg # post') off = list_lookup (pre @ new_batch a data # post) off"
    "\<forall>p \<in> set (pre' @ seg # post'). end_sector p = b \<or> (\<exists>q \<in> set (pre @ post). end_sector p = end_sector q)"
    by (rule place_batch_merged [OF ord [unfolded s(1)] s(4,5) data]) (rule that)
  have b_eq: "a + length data div 256 = b" "length data div 256 = b - a" "length data mod 256 = 0" "data \<noteq> []"
    using data by auto
  have m1: "place_batch xs (length pre) a b data = (pre' @ seg # post', seg)" using m(1) s(1) by simp
  have at: "a * 256 div 256 = a" "a * 256 mod 256 = 0" "a + (b - a) = b" using data(2) by simp_all
  have run: "insert_data (Incomplete xs) (a * 256) data = Ok (finish_batch (pre' @ seg # post'), ready_seals a b seg)"
    unfolding insert_data_def layout_values(1) b_eq(2,3) at Let_def
    using b_eq(4) s(2,3) m1
    by (simp add: layout_values(1) finish_batch_def ready_seals_def Let_def del: upt_conv_Cons)
  have up': "\<forall>p \<in> set (pre' @ seg # post'). end_sector p \<le> SECTORS_PER_LOAD"
    using m(6) up b s(1) by metis
  have "\<forall>p \<in> set pre. whole p" using ordered_whole [OF ord] s(1) by simp
  then have look: "list_lookup (pre' @ seg # post') off =
      (if a * 256 \<le> off \<and> off < b * 256 then Some (data ! (off - a * 256)) else list_lookup xs off)" for off
    using lookup_inserted [OF s(4) _ data, of post off] m(5) [of off] s(1) by simp
  show thesis by (rule that [OF run m(2,3,4) up' look])
qed

lemma insert_occupied:
  assumes ok: "batch_ok (Incomplete xs)" and data: "length data = (b - a) * 256" "a < b"
    and occ: "\<not> free_range xs a b"
  shows "\<exists>e. insert_data (Incomplete xs) (a * 256) data = Err e"
proof -
  have ord: "ordered 0 xs" using ok by (simp add: batch_ok_def)
  have b_eq: "length data div 256 = b - a" "length data mod 256 = 0" "data \<noteq> []" using data by auto
  have at: "a * 256 div 256 = a" "a * 256 mod 256 = 0" "a + (b - a) = b" using data(2) by simp_all
  note differ = search_occupied [OF ord data(2) occ]
  show ?thesis
    unfolding insert_data_def layout_values(1) b_eq(1,2) at Let_def
    using b_eq(3) differ by (auto split: search.split)
qed

text \<open>The seal chunks an insertion completes.\<close>

definition seal_full :: "entry_batch_data \<Rightarrow> nat \<Rightarrow> bool" where
  "seal_full d x \<longleftrightarrow> present d (x * BYTES_PER_SEAL) ((x + 1) * BYTES_PER_SEAL)"

lemma as_u16_div: "n < 2 ^ 16 \<Longrightarrow> as_u16 (n div k) = n div k"
  unfolding as_u16_def by (rule mod_less) (rule le_less_trans [OF div_le_dividend])

lemma ready_seals_set:
  assumes w: "whole seg" and ab: "a < b" "b \<le> SECTORS_PER_LOAD" "end_sector seg \<le> SECTORS_PER_LOAD"
  shows "x \<in> set (ready_seals a b seg) \<longleftrightarrow>
           x * 16 < b \<and> a < (x + 1) * 16 \<and> start_sector seg \<le> x * 16 \<and> (x + 1) * 16 \<le> end_sector seg"
proof -
  have len: "start_sector seg + length (pb_data seg) div 256 = end_sector seg"
    using w by (auto simp: whole_def end_sector_def bytes_to_chunks_def)
  have small: "start_sector seg \<le> 1024" "end_sector seg \<le> 1024" "b \<le> 1024" "a \<le> 1024"
    using whole_less [OF w] ab by (auto simp: layout_simps)
  have u16: "as_u16 ((start_sector seg + 16 - 1) div 16) = (start_sector seg + 16 - 1) div 16"
    "as_u16 (end_sector seg div 16) = end_sector seg div 16" "as_u16 (a div 16) = a div 16"
    "as_u16 ((b + 16 - 1) div 16) = (b + 16 - 1) div 16"
    by (rule as_u16_div; use small in simp)+
  have ab': "a + (b - a) = b" using ab(1) by simp
  have "x \<in> set (ready_seals a b seg) \<longleftrightarrow>
      (a div 16 \<le> x \<and> x < (b + 16 - 1) div 16) \<and> (start_sector seg + 16 - 1) div 16 \<le> x \<and> x < end_sector seg div 16"
    unfolding ready_seals_def Let_def get_intact_sealing_index_def get_covered_sealing_index_def
      layout_values(1,5) len ab' u16 by (simp only: fst_conv snd_conv set_filter set_upt atLeastLessThan_iff mem_Collect_eq)
  then show ?thesis
    by (simp only: div_le_iff less_div_iff zero_less_numeral) auto
qed

lemma gap_before:
  assumes "ordered 0 (pre @ seg # post)" and "0 < first_byte seg"
  shows "list_lookup (pre @ seg # post) (first_byte seg - 1) = None"
  unfolding list_lookup_None
proof
  fix p assume "p \<in> set (pre @ seg # post)"
  then consider "p \<in> set pre" | "p = seg" | "p \<in> set post" by auto
  then show "first_byte seg - 1 < first_byte p \<or> last_byte p \<le> first_byte seg - 1"
    by cases (use before_bytes [OF assms(1)] assms(2) in \<open>force simp: last_byte_def\<close>)+
qed

lemma ready_seals_completed:
  assumes ord: "ordered 0 (pre @ seg # post)" and seg: "start_sector seg \<le> a" "b \<le> end_sector seg" "end_sector seg \<le> SECTORS_PER_LOAD"
    and ab: "a < b" and free: "free_range xs a b"
    and look: "\<And>off. list_lookup (pre @ seg # post) off =
       (if a * 256 \<le> off \<and> off < b * 256 then Some (data ! (off - a * 256)) else list_lookup xs off)"
  shows "x \<in> set (ready_seals a b seg) \<longleftrightarrow> seal_full (Incomplete (pre @ seg # post)) x \<and> \<not> seal_full (Incomplete xs) x"
proof -
  have w: "whole seg" using ord by (simp add: ordered_append)
  have "b \<le> SECTORS_PER_LOAD" using seg by simp
  note ready = ready_seals_set [OF w ab this seg(3), of x]
  have full: "seal_full (Incomplete ys) x \<longleftrightarrow> (\<forall>off. x * 4096 \<le> off \<longrightarrow> off < (x + 1) * 4096 \<longrightarrow> list_lookup ys off \<noteq> None)" for ys
    by (simp add: seal_full_def present_def layout_simps)
  have fb: "first_byte seg = start_sector seg * 256" "last_byte seg = end_sector seg * 256"
    using whole_end [OF w] by (simp_all add: first_byte_def)
  show ?thesis
  proof
    assume "x \<in> set (ready_seals a b seg)"
    with ready have r: "x * 16 < b" "a < (x + 1) * 16" "start_sector seg \<le> x * 16" "(x + 1) * 16 \<le> end_sector seg" by auto
    have "list_lookup (pre @ seg # post) off \<noteq> None" if "x * 4096 \<le> off" "off < (x + 1) * 4096" for off
      using lookup_hit [OF ord, of off] that r fb by simp
    moreover define q where "q = max (x * 4096) (a * 256)"
    have q: "x * 4096 \<le> q" "q < (x + 1) * 4096" "a * 256 \<le> q" "q < b * 256" using r ab by (auto simp: q_def max_def)
    with free have "list_lookup xs q = None" unfolding free_range_def by blast
    with q(1,2) have "\<not> seal_full (Incomplete xs) x" unfolding full by blast
    ultimately show "seal_full (Incomplete (pre @ seg # post)) x \<and> \<not> seal_full (Incomplete xs) x" unfolding full by blast
  next
    assume "seal_full (Incomplete (pre @ seg # post)) x \<and> \<not> seal_full (Incomplete xs) x"
    then have all: "\<And>off. x * 4096 \<le> off \<Longrightarrow> off < (x + 1) * 4096 \<Longrightarrow> list_lookup (pre @ seg # post) off \<noteq> None"
      and "\<exists>off. x * 4096 \<le> off \<and> off < (x + 1) * 4096 \<and> list_lookup xs off = None" unfolding full by auto
    then obtain off where off: "x * 4096 \<le> off" "off < (x + 1) * 4096" "a * 256 \<le> off" "off < b * 256"
      using look by (metis (full_types))
    have lo: "start_sector seg \<le> x * 16"
    proof (rule ccontr)
      assume n: "\<not> start_sector seg \<le> x * 16"
      then have "0 < first_byte seg" "x * 4096 \<le> first_byte seg - 1" "first_byte seg - 1 < (x + 1) * 4096"
        using fb off seg(1) by auto
      with gap_before [OF ord] all show False by blast
    qed
    have hi: "(x + 1) * 16 \<le> end_sector seg"
    proof (rule ccontr)
      assume "\<not> (x + 1) * 16 \<le> end_sector seg"
      then have "x * 4096 \<le> last_byte seg" "last_byte seg < (x + 1) * 4096" using fb off seg(2) by auto
      with lookup_gap [OF ord] all show False by blast
    qed
    show "x \<in> set (ready_seals a b seg)" unfolding ready using lo hi off by auto
  qed
qed

lemma insert_data_refines:
  assumes ok: "batch_ok (Incomplete xs)" and data: "length data = (b - a) * 256" "a < b" and b: "b \<le> SECTORS_PER_LOAD"
    and free: "free_range xs a b"
  shows "\<exists>d' idx. insert_data (Incomplete xs) (a * 256) data = Ok (d', idx) \<and> batch_ok d' \<and>
           (\<forall>off. bytes_at d' off =
              (if a * 256 \<le> off \<and> off < b * 256 then Some (data ! (off - a * 256)) else list_lookup xs off)) \<and>
           set idx = {x. seal_full d' x \<and> \<not> seal_full (Incomplete xs) x}"
proof (rule insert_free [OF assms], goal_cases)
  case (1 pre' post' seg)
  let ?ys = "pre' @ seg # post'"
  note fin = finish_batch_ok [OF 1(2,5)]
  have "seal_full (finish_batch ?ys) x = seal_full (Incomplete ?ys) x" for x
    by (simp add: seal_full_def present_def fin(2))
  moreover have "end_sector seg \<le> SECTORS_PER_LOAD" using 1(5) by simp
  note ready_seals_completed [OF 1(2,3,4) this data(2) free 1(6)]
  ultimately have "set (ready_seals a b seg) = {x. seal_full (finish_batch ?ys) x \<and> \<not> seal_full (Incomplete xs) x}"
    by auto
  with 1(1,6) fin show ?case by auto
qed

subsection \<open>Writing in place\<close>

lemma whole_same_length: "whole p \<Longrightarrow> length x = length (pb_data p) \<Longrightarrow> whole (p\<lparr>pb_data := x\<rparr>)"
  by (auto simp: whole_def)

lemma end_sector_same_length: "length x = length (pb_data p) \<Longrightarrow> end_sector (p\<lparr>pb_data := x\<rparr>) = end_sector p"
  by (simp add: end_sector_def)

lemma ordered_same_length:
  assumes "ordered lo (pre @ p # post)" and "length x = length (pb_data p)"
  shows "ordered lo (pre @ p\<lparr>pb_data := x\<rparr> # post)"
  using assms whole_same_length [of p x]
  by (simp add: ordered_append end_sector_same_length)

lemma put_data_refines:
  assumes ok: "batch_ok d" and l: "new \<noteq> []" and range: "s + length new \<le> BYTES_PER_LOAD"
    and pres: "present d s (s + length new)"
  shows "\<exists>d'. put_data d s new = Ok (Some d') \<and> batch_ok d' \<and>
     (\<forall>off. bytes_at d' off = (if s \<le> off \<and> off < s + length new then Some (new ! (off - s)) else bytes_at d off))"
proof (cases d)
  case (Complete data)
  then have "length data = BYTES_PER_LOAD" using ok by (simp add: batch_ok_def)
  with Complete range show ?thesis
    by (auto simp: put_data_def batch_ok_def vec_get_def nth_overwrite)
next
  case (Incomplete xs)
  then have ord: "ordered 0 xs" and fits: "\<forall>p \<in> set xs. end_sector p \<le> SECTORS_PER_LOAD"
    and part: "\<not> (\<exists>p. xs = [p] \<and> start_sector p = 0 \<and> end_sector p = SECTORS_PER_LOAD)"
    using ok by (simp_all add: batch_ok_def)
  have at: "bytes_at d off = list_lookup xs off" for off using Incomplete by simp
  have at0: "list_lookup xs s \<noteq> None" using pres l at by (simp add: present_def)
  from ord show ?thesis
  proof (cases rule: find_cases [where s = "s div 256"])
    case (hit pre p post)
    note o = ord [unfolded hit(1)]
    have wp: "whole p" using o by (simp add: ordered_append)
    with hit(3,4) sector_in_batch [of p s] have s: "first_byte p \<le> s" "s < last_byte p" by auto
    have fit: "s + length new \<le> last_byte p"
    proof (rule ccontr)
      assume "\<not> ?thesis"
      then show False using pres lookup_gap [OF o] s at hit(1) unfolding present_def by (auto dest!: spec [of _ "last_byte p"])
    qed
    define x where "x = overwrite (pb_data p) (s - first_byte p) new"
    have len: "length x = length (pb_data p)" using fit s by (simp add: x_def last_byte_def)
    let ?p = "p\<lparr>pb_data := x\<rparr>"
    let ?ys = "pre @ ?p # post"
    have run: "put_data d s new = Ok (Some (Incomplete ?ys))"
      using Incomplete hit(1,2) range fit s
      by (simp add: put_data_def layout_simps first_byte_def Let_def x_def last_byte_def)
    note o' = ordered_same_length [OF o len]
    have "batch_ok (Incomplete ?ys)"
      using o' fits part hit(1) end_sector_same_length [OF len] by (auto simp: batch_ok_def append_eq_Cons_conv)
    moreover have "list_lookup ?ys off = (if s \<le> off \<and> off < s + length new then Some (new ! (off - s)) else list_lookup xs off)" for off
    proof (cases "first_byte p \<le> off \<and> off < last_byte p")
      case True
      have old: "list_lookup xs off = Some (pb_data p ! (off - first_byte p))"
        unfolding hit(1) using lookup_hit [OF o] True by simp
      have new: "list_lookup ?ys off = Some (x ! (off - first_byte p))"
        using lookup_hit [OF o', of off] True len by (simp add: last_byte_def)
      have b: "s - first_byte p + length new \<le> length (pb_data p)" "off - first_byte p < length (pb_data p)"
        using s fit True by (auto simp: last_byte_def)
      have iff: "s - first_byte p \<le> off - first_byte p \<and> off - first_byte p < s - first_byte p + length new \<longleftrightarrow> s \<le> off \<and> off < s + length new"
        using s True by auto
      have "off - first_byte p - (s - first_byte p) = off - s" using s True by auto
      with old new show ?thesis unfolding x_def nth_overwrite [OF b] iff by simp
    next
      case False
      then have "pb_lookup p off = None" "pb_lookup ?p off = None" using len by (auto simp: pb_lookup_def last_byte_def)
      with False s fit show ?thesis unfolding hit(1) by (auto simp: list_lookup_append split: option.split)
    qed
    ultimately show ?thesis using run at by (intro exI [of _ "Incomplete ?ys"]) simp
  next
    case (miss pre post)
    have "list_lookup xs s = None"
      using lookup_miss [OF miss(3,4)] ordered_whole [OF ord] miss(1) by simp
    with at0 show ?thesis by simp
  qed
qed

subsection \<open>The interface of a byte store\<close>

text \<open>
  What the load chunk relies on of its data: reading, storing into free space and cutting off are
  the lookup, the extension and the restriction of a map from offsets to bytes.
\<close>

locale byte_store =
  fixes ok :: "'s \<Rightarrow> bool" and at :: "'s \<Rightarrow> nat \<Rightarrow> 8 word option" and limit :: nat
    and read :: "'s \<Rightarrow> nat \<Rightarrow> nat \<Rightarrow> 8 word list option res"
    and store :: "'s \<Rightarrow> nat \<Rightarrow> 8 word list \<Rightarrow> ('s \<times> 'i) res"
    and cut :: "'s \<Rightarrow> nat \<Rightarrow> 's res"
  assumes read: "\<lbrakk>ok s; 0 < l; a + l \<le> limit\<rbrakk> \<Longrightarrow>
      read s a l = Ok (if \<forall>off \<in> {a..<a + l}. at s off \<noteq> None then Some (map (\<lambda>off. the (at s off)) [a..<a + l]) else None)"
    and store: "\<lbrakk>ok s; xs \<noteq> []; 256 dvd a; 256 dvd length xs; a + length xs \<le> limit; \<forall>off \<in> {a..<a + length xs}. at s off = None\<rbrakk> \<Longrightarrow>
      \<exists>s' i. store s a xs = Ok (s', i) \<and> ok s' \<and>
        at s' = (\<lambda>off. if off \<in> {a..<a + length xs} then Some (xs ! (off - a)) else at s off)"
    and occupied: "\<lbrakk>ok s; xs \<noteq> []; 256 dvd a; 256 dvd length xs; a + length xs \<le> limit; \<exists>off \<in> {a..<a + length xs}. at s off \<noteq> None\<rbrakk> \<Longrightarrow>
      \<exists>e. store s a xs = Err e"
    and cut: "\<lbrakk>ok s; 256 dvd n; 0 < n; n < limit\<rbrakk> \<Longrightarrow>
      \<exists>s'. cut s n = Ok s' \<and> ok s' \<and> at s' = (\<lambda>off. if off < n then at s off else None)"
begin

lemma read_stored:
  assumes "ok s" and "xs \<noteq> []" and "256 dvd a" and "256 dvd length xs" and "a + length xs \<le> limit"
    and free: "\<forall>off \<in> {a..<a + length xs}. at s off = None"
  obtains s' i where "store s a xs = Ok (s', i)" "ok s'" "read s' a (length xs) = Ok (Some xs)"
    "\<And>b l. 0 < l \<Longrightarrow> b + l \<le> limit \<Longrightarrow> b + l \<le> a \<or> a + length xs \<le> b \<Longrightarrow> read s' b l = read s b l"
proof -
  obtain s' i where s': "store s a xs = Ok (s', i)" "ok s'"
    and at: "at s' = (\<lambda>off. if off \<in> {a..<a + length xs} then Some (xs ! (off - a)) else at s off)"
    using store [OF assms] by blast
  have "map (\<lambda>off. the (at s' off)) [a..<a + length xs] = xs"
    by (rule nth_equalityI) (simp_all add: at)
  moreover have "\<forall>off \<in> {a..<a + length xs}. at s' off \<noteq> None" by (simp add: at)
  ultimately have "read s' a (length xs) = Ok (Some xs)"
    using read [OF s'(2), of "length xs" a] assms(2,5) by simp
  moreover have "read s' b l = read s b l" if "0 < l" "b + l \<le> limit" "b + l \<le> a \<or> a + length xs \<le> b" for b l
  proof -
    have "at s' off = at s off" if "off \<in> {b..<b + l}" for off using that \<open>b + l \<le> a \<or> a + length xs \<le> b\<close> by (auto simp: at)
    then show ?thesis using read [OF s'(2) that(1,2)] read [OF assms(1) that(1,2)] by simp
  qed
  ultimately show ?thesis using that s' by blast
qed

text \<open>Cutting off at \<open>n\<close> makes room: the part from \<open>n\<close> on can be stored again, the part below stays.\<close>

lemma cut_then_store:
  assumes "ok s" and "256 dvd n" and "0 < n" and "n < limit" and "xs \<noteq> []" and "256 dvd length xs" and "n + length xs \<le> limit"
  obtains s1 s2 i where "cut s n = Ok s1" "store s1 n xs = Ok (s2, i)" "ok s2" "read s2 n (length xs) = Ok (Some xs)"
    "\<And>b l. 0 < l \<Longrightarrow> b + l \<le> n \<Longrightarrow> read s2 b l = read s b l"
proof -
  obtain s1 where s1: "cut s n = Ok s1" "ok s1" and at: "at s1 = (\<lambda>off. if off < n then at s off else None)"
    using cut [OF assms(1-4)] by blast
  have free: "\<forall>off \<in> {n..<n + length xs}. at s1 off = None" by (simp add: at)
  obtain s2 i where s2: "store s1 n xs = Ok (s2, i)" "ok s2" "read s2 n (length xs) = Ok (Some xs)"
    and other: "\<And>b l. 0 < l \<Longrightarrow> b + l \<le> limit \<Longrightarrow> b + l \<le> n \<or> n + length xs \<le> b \<Longrightarrow> read s2 b l = read s1 b l"
    using read_stored [OF s1(2) assms(5,2,6,7) free] by metis
  have "read s2 b l = read s b l" if "0 < l" "b + l \<le> n" for b l
  proof -
    have lim: "b + l \<le> limit" using that assms(4) by simp
    have "at s1 off = at s off" if "off \<in> {b..<b + l}" for off using that \<open>b + l \<le> n\<close> by (auto simp: at)
    then have "read s1 b l = read s b l" using read [OF s1(2) that(1) lim] read [OF assms(1) that(1) lim] by simp
    with other [OF that(1) lim] that(2) show ?thesis by simp
  qed
  with that s1 s2 show ?thesis by blast
qed

end

lemma free_range_bytes:
  "free_range xs a b \<longleftrightarrow> (\<forall>off \<in> {a * 256..<b * 256}. bytes_at (Incomplete xs) off = None)"
  by (auto simp: free_range_def)

interpretation chunk_store: byte_store batch_ok bytes_at BYTES_PER_LOAD get_data insert_data truncate_data
proof (unfold_locales, goal_cases)
  case (1 s l a)
  then show ?case using get_data_refines [of s l a] by (simp add: present_def content_def Ball_def)
next
  case (2 s xs a)
  from 2(3,4) obtain i j where ij: "a = i * 256" "length xs = j * 256" by (metis dvd_def mult.commute)
  have j: "0 < j" using 2(2) ij by (cases j) auto
  show ?case
  proof (cases s)
    case (Complete data)
    then have "bytes_at s a \<noteq> None" using 2 by (auto simp: batch_ok_def vec_get_def)
    moreover have "a \<in> {a..<a + length xs}" using 2(2) by simp
    moreover from 2(6) \<open>a \<in> {a..<a + length xs}\<close> have "bytes_at s a = None" by (rule bspec)
    ultimately show ?thesis by simp
  next
    case (Incomplete ys)
    have r: "{a..<a + length xs} = {i * 256..<(i + j) * 256}" using ij by auto
    have "i + j \<le> SECTORS_PER_LOAD" using 2(5) ij by (simp add: layout_values)
    moreover have "free_range ys i (i + j)" using 2(6) unfolding free_range_bytes r Incomplete by blast
    moreover have "length xs = (i + j - i) * 256" "i < i + j" using ij j by auto
    ultimately obtain d' idx where "insert_data (Incomplete ys) (i * 256) xs = Ok (d', idx)" "batch_ok d'"
      "\<And>off. bytes_at d' off = (if i * 256 \<le> off \<and> off < (i + j) * 256 then Some (xs ! (off - i * 256)) else list_lookup ys off)"
      using insert_data_refines [of ys xs "i + j" i] 2(1) Incomplete by blast
    then show ?thesis unfolding r using ij Incomplete by (intro exI [of _ d'] exI [of _ idx]) auto
  qed
next
  case (3 s xs a)
  from 3(3,4) obtain i j where ij: "a = i * 256" "length xs = j * 256" by (metis dvd_def mult.commute)
  have j: "0 < j" using 3(2) ij by (cases j) auto
  show ?case
  proof (cases s)
    case (Complete data)
    then show ?thesis using 3(2) ij by (simp add: insert_data_def layout_values)
  next
    case (Incomplete ys)
    have r: "{a..<a + length xs} = {i * 256..<(i + j) * 256}" using ij by auto
    have "\<not> free_range ys i (i + j)" using 3(6) unfolding free_range_bytes r Incomplete by (simp del: bytes_at_simps)
    then show ?thesis using insert_occupied [of ys xs "i + j" i] 3(1) Incomplete ij j by simp
  qed
next
  case (4 s n)
  then show ?case using truncate_data_refines [of s n] by (auto simp: fun_eq_iff)
qed

end
