(* ===== verification/Seal_Info.thy ===== *)
theory Seal_Info
  imports Chunk_Data_Laws
begin

text \<open>
  The sealing state of a load chunk, \<^verbatim>\<open>node/storage/src/log_store/load_chunk/seal.rs\<close>, with the
  bitmap of \<^verbatim>\<open>bitmap.rs\<close>: which seal chunks are sealed, and under which context. A
  \<^verbatim>\<open>Bitmap<64>\<close> is its value, a 64-bit word. Context \<open>k\<close> covers the seal chunks from the end of
  context \<open>k - 1\<close> up to its own end.
\<close>

subsection \<open>State and operations\<close>

record seal_context_info =
  context_digest :: "8 word list"
  end_seal_index :: nat

record seal_info =
  bitmap :: "64 word"
  load_index :: nat
  miner_id :: "8 word list"
  seal_contexts :: "seal_context_info list"

text \<open>\<open>TruncateBitmap for u64\<close>: the shift panics from 64 on.\<close>

definition truncate_u64 :: "64 word \<Rightarrow> nat \<Rightarrow> 64 word res" where
  "truncate_u64 w index =
     (if 64 \<le> index then Panic ''attempt to shift left with overflow''
      else Ok (w AND (push_bit index 1 - 1)))"

definition zero_id :: "8 word list" where
  "zero_id = replicate 32 0"

definition new_seal_info :: "nat \<Rightarrow> seal_info" where
  "new_seal_info idx = \<lparr>bitmap = 0, load_index = idx, miner_id = zero_id, seal_contexts = []\<rparr>"

definition is_sealed :: "seal_info \<Rightarrow> nat \<Rightarrow> bool" where
  "is_sealed s seal_index = bit (bitmap s) seal_index"

definition mark_sealed :: "seal_info \<Rightarrow> nat \<Rightarrow> seal_info" where
  "mark_sealed s seal_index = s\<lparr>bitmap := set_bit seal_index (bitmap s)\<rparr>"

definition global_seal_sector :: "seal_info \<Rightarrow> nat \<Rightarrow> nat" where
  "global_seal_sector s index = load_index s * SECTORS_PER_LOAD + index * SECTORS_PER_SEAL"

definition context_index :: "seal_info \<Rightarrow> nat \<Rightarrow> nat" where
  "context_index s seal_index =
     (case binary_search (map end_seal_index (seal_contexts s)) (seal_index + 1) of
        Found x \<Rightarrow> x | Missing x \<Rightarrow> x)"

definition get_seal_context_digest :: "seal_info \<Rightarrow> nat \<Rightarrow> 8 word list option" where
  "get_seal_context_digest s seal_index =
     map_option context_digest (vec_get (seal_contexts s) (context_index s seal_index))"

text \<open>Step 2 of \<open>set_seal_context\<close>: the subtraction may underflow, the cast to 16 bits wraps.\<close>

definition local_end_seal :: "seal_info \<Rightarrow> nat \<Rightarrow> nat res" where
  "local_end_seal s global_end =
     (if global_end < load_index s * SEALS_PER_LOAD then Panic ''attempt to subtract with overflow''
      else Ok (min (as_u16 (global_end - load_index s * SEALS_PER_LOAD)) SEALS_PER_LOAD))"

definition set_seal_context :: "seal_info \<Rightarrow> 8 word list \<Rightarrow> nat \<Rightarrow> 8 word list \<Rightarrow> seal_info res" where
  "set_seal_context s digest global_end miner =
     rbind (assert_that (miner_id s = zero_id \<or> miner_id s = miner) ''miner_id setting is inconsistent with db'') (\<lambda>_.
     let s1 = (if miner_id s = zero_id then s\<lparr>miner_id := miner\<rparr> else s)
     in rbind (local_end_seal s1 global_end) (\<lambda>e.
        if e = 0 then Panic ''attempt to subtract with overflow''
        else
          let new_context = \<lparr>context_digest = digest, end_seal_index = e\<rparr>;
              pos = context_index s1 (e - 1);
              cs = seal_contexts s1
          in Ok (if pos < length cs
                 then (if context_digest (cs ! pos) = digest then s1
                       else s1\<lparr>seal_contexts := take pos cs @ new_context # drop pos cs\<rparr>)
                 else s1\<lparr>seal_contexts := cs @ [new_context]\<rparr>)))"

definition truncated_seal_index :: "seal_info \<Rightarrow> nat \<Rightarrow> nat" where
  "truncated_seal_index s reverted =
     (let k = context_index s reverted
      in if k = 0 then 0 else end_seal_index (seal_contexts s ! (k - 1)))"

definition truncate_seal_info :: "seal_info \<Rightarrow> nat \<Rightarrow> seal_info res" where
  "truncate_seal_info s reverted =
     rbind (truncate_u64 (bitmap s) (truncated_seal_index s reverted)) (\<lambda>w.
       Ok (s\<lparr>bitmap := w, seal_contexts := take (context_index s reverted) (seal_contexts s)\<rparr>))"

definition unseal_chunk ::
  "(8 word list \<Rightarrow> 8 word list) \<Rightarrow> seal_info \<Rightarrow> 8 word list \<Rightarrow> nat \<Rightarrow> 8 word list res" where
  "unseal_chunk keccak s data index =
     (if \<not> is_sealed s index then Ok data
      else case get_seal_context_digest s index of
             None \<Rightarrow> Panic ''cannot unseal non-sealed data''
           | Some ctx \<Rightarrow> unseal keccak data (miner_id s) ctx (global_seal_sector s index))"

subsection \<open>The bitmap\<close>

lemma bit_truncate_u64:
  assumes "truncate_u64 w n = Ok v"
  shows "bit v i \<longleftrightarrow> bit w i \<and> i < n"
proof -
  from assms have n: "n < 64" and v: "v = w AND mask n"
    by (auto simp: truncate_u64_def mask_eq_decr_exp push_bit_eq_mult split: if_splits)
  have "bit w i \<Longrightarrow> i < 64" using bit_imp_le_length [of w i] by simp
  with v n show ?thesis by (auto simp: bit_and_iff bit_mask_iff)
qed

lemma is_sealed_mark: "i < 64 \<Longrightarrow> is_sealed (mark_sealed s i) j \<longleftrightarrow> j = i \<or> is_sealed s j"
  by (auto simp: is_sealed_def mark_sealed_def bit_set_bit_iff)

lemma is_sealed_less: "is_sealed s i \<Longrightarrow> i < 64"
  using bit_imp_le_length [of "bitmap s" i] by (simp add: is_sealed_def)

subsection \<open>Contexts\<close>

definition contexts_ok :: "seal_info \<Rightarrow> bool" where
  "contexts_ok s \<longleftrightarrow>
     sorted_wrt (<) (map end_seal_index (seal_contexts s)) \<and>
     (\<forall>c \<in> set (seal_contexts s). 0 < end_seal_index c \<and> end_seal_index c \<le> SEALS_PER_LOAD)"

lemma binary_search_first:
  assumes "sorted_wrt (<) keys"
  shows "(case binary_search keys k of Found x \<Rightarrow> x | Missing x \<Rightarrow> x) = length (takeWhile (\<lambda>x. x < k) keys)"
  by (simp add: binary_search_def Let_def)

lemma context_index_eq:
  "context_index s i = length (takeWhile (\<lambda>c. end_seal_index c \<le> i) (seal_contexts s))"
  by (simp add: context_index_def binary_search_def Let_def takeWhile_map o_def less_Suc_eq_le split: if_splits)

text \<open>The context of a seal chunk is the first one that ends after it.\<close>

lemma context_split:
  assumes ok: "contexts_ok s" and k_def: "k = context_index s i"
  shows "\<forall>c \<in> set (take k (seal_contexts s)). end_seal_index c \<le> i"
    and "\<forall>c \<in> set (drop k (seal_contexts s)). i < end_seal_index c"
proof -
  let ?cs = "seal_contexts s" and ?P = "\<lambda>c. end_seal_index c \<le> i"
  have k: "k = length (takeWhile ?P ?cs)" by (simp add: k_def context_index_eq)
  then have t: "take k ?cs = takeWhile ?P ?cs" and d: "drop k ?cs = dropWhile ?P ?cs"
    by (metis takeWhile_eq_take, metis dropWhile_eq_drop)
  show "\<forall>c \<in> set (take k ?cs). end_seal_index c \<le> i" unfolding t by (auto dest: set_takeWhileD)
  have srt: "sorted_wrt (<) (map end_seal_index (dropWhile ?P ?cs))"
    using ok unfolding d [symmetric] contexts_ok_def by (simp add: drop_map [symmetric] sorted_wrt_drop)
  show "\<forall>c \<in> set (drop k ?cs). i < end_seal_index c"
  proof (cases "dropWhile ?P ?cs")
    case Nil
    then show ?thesis unfolding d Nil by simp
  next
    case (Cons c cs)
    then have "i < end_seal_index c" using hd_dropWhile [of ?P ?cs] by simp
    with srt show ?thesis unfolding d Cons by (auto intro: less_trans)
  qed
qed

lemma get_digest_iff:
  "get_seal_context_digest s i =
     (case dropWhile (\<lambda>c. end_seal_index c \<le> i) (seal_contexts s) of [] \<Rightarrow> None | c # _ \<Rightarrow> Some (context_digest c))"
proof -
  let ?cs = "seal_contexts s" and ?P = "\<lambda>c. end_seal_index c \<le> i"
  show ?thesis
  proof (cases "dropWhile ?P ?cs")
    case Nil
    then have "length (takeWhile ?P ?cs) = length ?cs" by (metis append_Nil2 takeWhile_dropWhile_id)
    then show ?thesis unfolding Nil by (simp add: get_seal_context_digest_def context_index_eq vec_get_def)
  next
    case (Cons c cs)
    then have eq: "takeWhile ?P ?cs @ c # cs = ?cs" by (metis takeWhile_dropWhile_id)
    have "length (takeWhile ?P ?cs) < length ?cs" using arg_cong [OF eq, of length] by simp
    moreover have "?cs ! length (takeWhile ?P ?cs) = c"
      using arg_cong [OF eq, of "\<lambda>l. l ! length (takeWhile ?P ?cs)"] by simp
    ultimately show ?thesis unfolding Cons by (simp add: get_seal_context_digest_def context_index_eq vec_get_def)
  qed
qed

lemma get_digest_push:
  "get_seal_context_digest (s\<lparr>seal_contexts := seal_contexts s @ [c]\<rparr>) i =
     (case get_seal_context_digest s i of
        None \<Rightarrow> if i < end_seal_index c then Some (context_digest c) else None
      | Some d \<Rightarrow> Some d)"
proof (cases "dropWhile (\<lambda>c. end_seal_index c \<le> i) (seal_contexts s)")
  case Nil
  then have "dropWhile (\<lambda>c. end_seal_index c \<le> i) (seal_contexts s @ [c]) = dropWhile (\<lambda>c. end_seal_index c \<le> i) [c]"
    by (simp add: dropWhile_append)
  then show ?thesis unfolding get_digest_iff Nil by simp
next
  case (Cons x xs)
  then have "\<not> (\<forall>c \<in> set (seal_contexts s). end_seal_index c \<le> i)"
    using dropWhile_eq_Nil_conv [of "\<lambda>c. end_seal_index c \<le> i" "seal_contexts s"] by simp
  then have "dropWhile (\<lambda>c. end_seal_index c \<le> i) (seal_contexts s @ [c]) = x # xs @ [c]"
    unfolding dropWhile_append Cons by simp
  then show ?thesis unfolding get_digest_iff Cons by simp
qed

text \<open>The miner is fixed by the first context; a further one with another miner panics.\<close>

definition miner_ok :: "seal_info \<Rightarrow> 8 word list \<Rightarrow> bool" where
  "miner_ok s miner \<longleftrightarrow> miner_id s = zero_id \<or> miner_id s = miner"

lemma local_end_seal_exact:
  assumes "load_index s * SEALS_PER_LOAD < global_end"
    and "global_end - load_index s * SEALS_PER_LOAD < 65536"
  shows "\<exists>e. local_end_seal s global_end = Ok e \<and> 0 < e \<and> e \<le> SEALS_PER_LOAD \<and>
             e = min (global_end - load_index s * SEALS_PER_LOAD) SEALS_PER_LOAD"
  using assms by (simp add: local_end_seal_def as_u16_def layout_values min_def)

text \<open>A context that agrees with the ones already recorded from its end on is recorded for every
  seal chunk below its end that had none, and changes no other.\<close>

lemma set_seal_context_spec:
  assumes ok: "contexts_ok s" and m: "miner_ok s miner"
    and g: "load_index s * SEALS_PER_LOAD < global_end" "global_end - load_index s * SEALS_PER_LOAD < 65536"
    and e: "e = min (global_end - load_index s * SEALS_PER_LOAD) SEALS_PER_LOAD"
    and agree: "\<forall>c \<in> set (seal_contexts s). e \<le> end_seal_index c \<longrightarrow> context_digest c = digest"
  shows "\<exists>s'. set_seal_context s digest global_end miner = Ok s' \<and> contexts_ok s' \<and>
     miner_id s' = miner \<and> load_index s' = load_index s \<and> bitmap s' = bitmap s \<and>
     (\<forall>i. get_seal_context_digest s' i =
        (case get_seal_context_digest s i of
           None \<Rightarrow> if i < e then Some digest else None | Some d \<Rightarrow> Some d))"
proof -
  define s1 where "s1 = (if miner_id s = zero_id then s\<lparr>miner_id := miner\<rparr> else s)"
  have eq: "seal_contexts s1 = seal_contexts s" "load_index s1 = load_index s" "bitmap s1 = bitmap s"
    "miner_id s1 = miner" using m by (auto simp: miner_ok_def s1_def)
  have dg: "get_seal_context_digest s1 i = get_seal_context_digest s i" for i
    by (simp add: get_digest_iff eq)
  have le: "local_end_seal s1 global_end = Ok e" and e0: "0 < e" "e \<le> SEALS_PER_LOAD"
    using local_end_seal_exact [of s1 global_end] g e by (auto simp: eq)
  define k where "k = context_index s (e - 1)"
  have kc: "context_index s1 (e - 1) = k" by (simp add: k_def context_index_def eq)
  note sp = context_split [OF ok k_def]
  let ?c = "\<lparr>context_digest = digest, end_seal_index = e\<rparr>"
  have a: "assert_that (miner_id s = zero_id \<or> miner_id s = miner) p = Ok ()" for p
    using m by (simp add: miner_ok_def)
  have run: "set_seal_context s digest global_end miner =
      Ok (if k < length (seal_contexts s)
          then (if context_digest (seal_contexts s ! k) = digest then s1
                else s1\<lparr>seal_contexts := take k (seal_contexts s) @ ?c # drop k (seal_contexts s)\<rparr>)
          else s1\<lparr>seal_contexts := seal_contexts s @ [?c]\<rparr>)"
    using e0(1) unfolding set_seal_context_def a Let_def s1_def [symmetric] rbind.simps le kc eq by simp
  show ?thesis
  proof (cases "k < length (seal_contexts s)")
    case True
    then have "seal_contexts s ! k \<in> set (drop k (seal_contexts s))"
      by (metis Cons_nth_drop_Suc list.set_intros(1))
    with sp(2) have gt: "e \<le> end_seal_index (seal_contexts s ! k)" by fastforce
    with agree True have d: "context_digest (seal_contexts s ! k) = digest" by simp
    have some: "get_seal_context_digest s i \<noteq> None" if "i < e" for i
    proof -
      have "\<not> end_seal_index (seal_contexts s ! k) \<le> i" using that gt by simp
      with True have "dropWhile (\<lambda>c. end_seal_index c \<le> i) (seal_contexts s) \<noteq> []"
        unfolding dropWhile_eq_Nil_conv using nth_mem by blast
      then show ?thesis by (cases "dropWhile (\<lambda>c. end_seal_index c \<le> i) (seal_contexts s)") (simp_all add: get_digest_iff)
    qed
    have "get_seal_context_digest s1 i =
        (case get_seal_context_digest s i of
           None \<Rightarrow> if i < e then Some digest else None | Some d \<Rightarrow> Some d)" for i
      using some [of i] unfolding dg by (cases "get_seal_context_digest s i") auto
    moreover have "contexts_ok s1" using ok by (simp add: contexts_ok_def eq)
    ultimately show ?thesis using run d True eq by (intro exI [of _ s1]) simp
  next
    case False
    let ?t = "s1\<lparr>seal_contexts := seal_contexts s1 @ [?c]\<rparr>"
    have "\<forall>c \<in> set (seal_contexts s). end_seal_index c < e" using sp(1) False e0 by fastforce
    then have "contexts_ok ?t" using ok e0 by (auto simp: contexts_ok_def sorted_wrt_append eq)
    moreover have "set_seal_context s digest global_end miner = Ok ?t" using run False eq by simp
    moreover have "get_seal_context_digest ?t i =
        (case get_seal_context_digest s i of
           None \<Rightarrow> if i < e then Some digest else None | Some d \<Rightarrow> Some d)" for i
      unfolding get_digest_push dg by (simp split: option.split)
    ultimately show ?thesis using eq by (intro exI [of _ ?t]) simp
  qed
qed

text \<open>Truncation cuts at the end of the last context that is kept, and keeps every bit and every
  context below that point.\<close>

lemma truncated_seal_index_le:
  assumes "contexts_ok s" shows "truncated_seal_index s r \<le> r"
proof (cases "context_index s r")
  case (Suc k)
  then have "k < length (seal_contexts s)" by (metis Suc_le_eq context_index_eq length_takeWhile_le)
  then have "seal_contexts s ! k \<in> set (take (Suc k) (seal_contexts s))" by (simp add: take_Suc_conv_app_nth)
  with context_split(1) [OF assms refl, of r] Suc show ?thesis by (auto simp: truncated_seal_index_def Let_def)
qed (simp add: truncated_seal_index_def)

lemma truncate_seal_info_spec:
  assumes ok: "contexts_ok s" and r: "r < 64" and t: "t = truncated_seal_index s r"
  shows "\<exists>s'. truncate_seal_info s r = Ok s' \<and> contexts_ok s' \<and> miner_id s' = miner_id s \<and> load_index s' = load_index s \<and>
     (\<forall>i. is_sealed s' i \<longleftrightarrow> is_sealed s i \<and> i < t) \<and>
     (\<forall>i < t. get_seal_context_digest s' i = get_seal_context_digest s i)"
proof -
  define k where "k = context_index s r"
  have t64: "t < 64" using truncated_seal_index_le [OF ok, of r] r t by simp
  then obtain w where w: "truncate_u64 (bitmap s) t = Ok w" by (simp add: truncate_u64_def)
  let ?s = "s\<lparr>bitmap := w, seal_contexts := take k (seal_contexts s)\<rparr>"
  have "truncate_seal_info s r = Ok ?s" using w t by (simp add: truncate_seal_info_def k_def)
  moreover have "contexts_ok ?s"
    using ok by (auto simp: contexts_ok_def take_map [symmetric] sorted_wrt_take dest: in_set_takeD)
  moreover have "is_sealed ?s i \<longleftrightarrow> is_sealed s i \<and> i < t" for i
    using bit_truncate_u64 [OF w, of i] by (simp add: is_sealed_def)
  moreover have "get_seal_context_digest ?s i = get_seal_context_digest s i" if i: "i < t" for i
  proof -
    from i t have k0: "0 < k" and te: "t = end_seal_index (seal_contexts s ! (k - 1))"
      by (auto simp: truncated_seal_index_def k_def Let_def split: if_splits)
    have kl: "k \<le> length (seal_contexts s)" unfolding k_def context_index_eq by (rule length_takeWhile_le)
    let ?P = "\<lambda>c. end_seal_index c \<le> i"
    have "seal_contexts s ! (k - 1) \<in> set (take k (seal_contexts s))"
      using k0 kl by (auto simp: set_conv_nth intro!: exI [of _ "k - 1"])
    moreover have "\<not> ?P (seal_contexts s ! (k - 1))" using i te by simp
    ultimately have "dropWhile ?P (take k (seal_contexts s) @ drop k (seal_contexts s))
        = dropWhile ?P (take k (seal_contexts s)) @ drop k (seal_contexts s)"
      and ne: "dropWhile ?P (take k (seal_contexts s)) \<noteq> []"
      unfolding dropWhile_eq_Nil_conv by (rule dropWhile_append1, blast)
    then have d: "dropWhile ?P (seal_contexts s) = dropWhile ?P (take k (seal_contexts s)) @ drop k (seal_contexts s)"
      by simp
    show ?thesis unfolding get_digest_iff d using ne by (cases "dropWhile ?P (take k (seal_contexts s))") simp_all
  qed
  ultimately show ?thesis by (intro exI [of _ ?s]) simp
qed

end
