(* ===== verification/Merkle_Light_Split.thy ===== *)
theory Merkle_Light_Split
  imports Merkle_Light_Laws
begin

text \<open>
  The same tree seen from its root: the left half holds the largest power of two below the
  number of leaves. This is the view of \<^verbatim>\<open>FileProof::position\<close>, which walks a proof from the root
  down, and of the soundness of a proof.
\<close>

text \<open>\<open>s\<close> is the number of leaves left of the root of a tree with \<open>n\<close> leaves.\<close>

definition halves :: "nat \<Rightarrow> nat \<Rightarrow> bool" where
  "halves n s \<longleftrightarrow> (\<exists>k. s = 2 ^ k) \<and> s < n \<and> n \<le> 2 * s"

lemma halves_next_pow2:
  assumes "1 < n" and "n \<le> 2 ^ 63"
  obtains s where "next_pow2 n = Ok (2 * s)" "halves n s"
proof -
  obtain k where k: "next_pow2 n = Ok (2 ^ k)" "n \<le> 2 ^ k" "2 ^ k < 2 * n"
    using next_pow2_Ok [of n] assms by auto
  then obtain j where "k = Suc j" using assms(1) by (cases k) auto
  with k show ?thesis by (intro that [of "2 ^ j"]) (auto simp: halves_def)
qed

lemma halves_pos: "halves n s \<Longrightarrow> 0 < s" by (auto simp: halves_def)

lemma halves_half:
  assumes "halves n s" and "2 < n"
  obtains r where "s = 2 * r" "halves ((n + 1) div 2) r"
proof -
  from assms obtain k where k: "s = 2 ^ k" "s < n" "n \<le> 2 * s" by (auto simp: halves_def)
  with assms(2) obtain j where j: "k = Suc j" by (cases k) auto
  with k show ?thesis by (intro that [of "2 ^ j"]) (auto simp: halves_def)
qed

lemma halves_two: "halves 2 s \<longleftrightarrow> s = 1"
  by (auto simp: halves_def less_2_cases_iff intro: exI [of _ 0])

lemma up_append: "even (length xs) \<Longrightarrow> up L (xs @ ys) = up L xs @ up L ys"
  by (induction L xs rule: up.induct) auto

lemma up_take: "even s \<Longrightarrow> s \<le> length ls \<Longrightarrow> up L (take s ls) = take (s div 2) (up L ls)"
  using up_append [of "take s ls" L "drop s ls"] by simp

lemma up_drop: "even s \<Longrightarrow> s \<le> length ls \<Longrightarrow> up L (drop s ls) = drop (s div 2) (up L ls)"
  using up_append [of "take s ls" L "drop s ls"] by simp

lemma light_root_small [simp]: "length ls \<le> 1 \<Longrightarrow> light_root L ls = hd ls"
  by (subst light_root.simps) simp

lemma light_root_rec: "1 < length ls \<Longrightarrow> light_root L ls = light_root L (up L ls)"
  by (subst light_root.simps) simp

lemma light_root_split:
  assumes "halves (length ls) s"
  shows "light_root L ls = lt_node L (light_root L (take s ls)) (light_root L (drop s ls))"
  using assms
proof (induction "length ls" arbitrary: ls s rule: less_induct)
  case less
  have n1: "1 < length ls" and sn: "s < length ls" using less.prems halves_pos [OF less.prems] by (auto simp: halves_def)
  show ?case
  proof (cases "length ls = 2")
    case True
    then obtain x y where "ls = [x, y]" by (metis One_nat_def Suc_1 length_0_conv length_Suc_conv)
    moreover have "s = 1" using less.prems True by (simp add: halves_two)
    ultimately show ?thesis by (simp add: light_root_rec)
  next
    case False
    then obtain r where r: "s = 2 * r" "halves (length (up L ls)) r"
      using halves_half [OF less.prems] n1 by auto
    have lt: "length (up L ls) < length ls" using n1 by simp
    have "light_root L (take s ls) = light_root L (take r (up L ls))"
      using r(1) sn halves_pos [OF less.prems] up_take [of s ls L] by (subst light_root_rec) simp_all
    moreover have "light_root L (drop s ls) = light_root L (drop r (up L ls))"
    proof (cases "length (drop s ls) = 1")
      case True
      then have "drop s ls = up L (drop s ls)" by (cases "drop s ls") auto
      then show ?thesis using r(1) sn up_drop [of s ls L] by simp
    next
      case False
      then show ?thesis using r(1) sn up_drop [of s ls L] by (subst light_root_rec) auto
    qed
    ultimately show ?thesis using less.hyps [OF lt r(2)] n1 by (simp add: light_root_rec)
  qed
qed

lemma light_path_split:
  assumes "halves (length ls) s" and "j < length ls"
  shows "light_path L ls j =
    (if j < s then light_path L (take s ls) j @ [(light_root L (drop s ls), True)]
     else light_path L (drop s ls) (j - s) @ [(light_root L (take s ls), False)])"
  using assms
proof (induction "length ls" arbitrary: ls s j rule: less_induct)
  case less
  have n1: "1 < length ls" and sn: "s < length ls" using less.prems(1) halves_pos [OF less.prems(1)] by (auto simp: halves_def)
  show ?case
  proof (cases "length ls = 2")
    case True
    then obtain x y where "ls = [x, y]" by (metis One_nat_def Suc_1 length_0_conv length_Suc_conv)
    moreover have "s = 1" using less.prems(1) True by (simp add: halves_two)
    moreover have "j = 0 \<or> j = 1" using less.prems(2) True by auto
    ultimately show ?thesis by (auto simp: light_path_rec sibling_step_def)
  next
    case False
    then obtain r where r: "s = 2 * r" "halves (length (up L ls)) r"
      using halves_half [OF less.prems(1)] n1 by auto
    have lt: "length (up L ls) < length ls" using n1 by simp
    have ju: "j div 2 < length (up L ls)" using less.prems(2) by simp
    note IH = less.hyps [OF lt r(2) ju]
    note u = up_take [of s ls L] up_drop [of s ls L]
    have roots: "light_root L (take r (up L ls)) = light_root L (take s ls)"
      using r(1) sn halves_pos [OF less.prems(1)] u by (subst (2) light_root_rec) simp_all
    have rootd: "light_root L (drop r (up L ls)) = light_root L (drop s ls)"
    proof (cases "length (drop s ls) = 1")
      case True
      then have "up L (drop s ls) = drop s ls" by (cases "drop s ls") auto
      then show ?thesis using r(1) sn u by simp
    next
      case False
      then show ?thesis using r(1) sn u by (subst (2) light_root_rec) auto
    qed
    have rec: "light_path L ls j = sibling_step ls j @ light_path L (up L ls) (j div 2)"
      using n1 by (rule light_path_rec)
    show ?thesis
    proof (cases "j < s")
      case True
      then have "j div 2 < r" using r(1) by auto
      moreover have "sibling_step (take s ls) j = sibling_step ls j"
      proof (cases "odd j")
        case False
        with True r(1) have "j + 1 < s" by (auto elim!: evenE)
        with False sn show ?thesis by (simp add: sibling_step_def)
      qed (use True sn in \<open>simp add: sibling_step_def\<close>)
      moreover have "light_path L (take s ls) j = sibling_step (take s ls) j @ light_path L (take r (up L ls)) (j div 2)"
        using r(1) sn halves_pos [OF less.prems(1)] u by (subst light_path_rec) simp_all
      ultimately show ?thesis using True rec IH rootd by simp
    next
      case False
      then have "\<not> j div 2 < r" "(j - s) div 2 = j div 2 - r" using r(1) by auto
      moreover have "sibling_step (drop s ls) (j - s) = sibling_step ls j"
        using False r(1) sn by (auto simp: sibling_step_def elim!: oddE)
      moreover have "light_path L (drop s ls) (j - s) = sibling_step (drop s ls) (j - s) @ light_path L (drop r (up L ls)) ((j - s) div 2)"
      proof (cases "length (drop s ls) = 1")
        case True
        then have "j = s" using False less.prems(2) by simp
        moreover have "up L (drop s ls) = drop s ls" using True by (cases "drop s ls") auto
        ultimately show ?thesis using True r(1) sn u by (simp add: sibling_step_def)
      next
        case False
        then show ?thesis using r(1) sn u by (subst light_path_rec) auto
      qed
      ultimately show ?thesis using False rec IH roots by simp
    qed
  qed
qed

end
