(* ===== verification/Shared_Types.thy ===== *)
theory Shared_Types
  imports Merkle_Light_Split Merkle_Proof Chunk_Data
begin

text \<open>
  The types every service of the node shares, \<^verbatim>\<open>node/shared_types/src/lib.rs\<close> and \<^verbatim>\<open>proof.rs\<close>: sizes
  in chunks and segments, transactions, arrays of chunks, proofs of a file, and the proof of a
  segment that is put together from the Merkle nodes of its transaction and a proof of the flow.
\<close>

subsection \<open>Sizes\<close>

definition CHUNK_SIZE :: nat where "CHUNK_SIZE = 256"

definition compute_padded_chunk_size :: "nat \<Rightarrow> (nat \<times> nat) res" where
  "compute_padded_chunk_size size_bytes =
     (let chunk_len = bytes_to_chunks size_bytes
      in rbind (next_pow2 chunk_len) (\<lambda>chunks_next_pow2.
           if chunks_next_pow2 = chunk_len then Ok (chunks_next_pow2, chunks_next_pow2)
           else
             let min_chunk = (if chunks_next_pow2 < 16 then 1 else chunks_next_pow2 div 16);
                 padded_chunks = ((chunk_len - 1) div min_chunk + 1) * min_chunk
             in Ok (padded_chunks, chunks_next_pow2)))"

definition compute_segment_size :: "nat \<Rightarrow> nat \<Rightarrow> (nat \<times> nat) res" where
  "compute_segment_size total_chunks chunks_per_segment =
     (if chunks_per_segment = 0 then Panic ''attempt to calculate the remainder with a divisor of zero''
      else if total_chunks mod chunks_per_segment = 0
      then Ok (total_chunks div chunks_per_segment, chunks_per_segment)
      else Ok (total_chunks div chunks_per_segment + 1, total_chunks mod chunks_per_segment))"

subsection \<open>Transactions\<close>

record transaction =
  stream_ids :: "nat list"
  tx_data :: "byte list"
  data_merkle_root :: h256
  merkle_nodes :: "(nat \<times> h256) list"
  start_entry_index :: nat
  tx_size :: nat
  tx_seq :: nat

record tx_id =
  id_seq :: nat
  id_hash :: h256

definition num_entries_of_node :: "nat \<Rightarrow> nat res" where
  "num_entries_of_node depth =
     (if depth = 0 then Panic ''attempt to subtract with overflow''
      else if 64 \<le> depth - 1 then Panic ''attempt to shift left with overflow''
      else Ok (2 ^ (depth - 1)))"

fun sum_entries :: "nat \<Rightarrow> (nat \<times> h256) list \<Rightarrow> nat res" where
  "sum_entries acc [] = Ok acc"
| "sum_entries acc ((depth, _) # nodes) =
     rbind (num_entries_of_node depth) (\<lambda>n. sum_entries (acc + n) nodes)"

definition num_entries :: "transaction \<Rightarrow> nat res" where
  "num_entries tx = sum_entries 0 (merkle_nodes tx)"

text \<open>The SSZ encoding of a transaction is derived by the crate \<^verbatim>\<open>eth2_ssz\<close>, a parameter.\<close>

definition tx_hash :: "(byte list \<Rightarrow> h256) \<Rightarrow> (transaction \<Rightarrow> byte list) \<Rightarrow> transaction \<Rightarrow> h256" where
  "tx_hash keccak ssz tx = keccak (ssz tx)"

definition tx_get_id :: "(byte list \<Rightarrow> h256) \<Rightarrow> (transaction \<Rightarrow> byte list) \<Rightarrow> transaction \<Rightarrow> tx_id" where
  "tx_get_id keccak ssz tx = \<lparr>id_seq = tx_seq tx, id_hash = tx_hash keccak ssz tx\<rparr>"

subsection \<open>Arrays of chunks\<close>

record chunk_array =
  ca_data :: "byte list"
  ca_start :: nat

definition chunk_at :: "chunk_array \<Rightarrow> nat \<Rightarrow> byte list option res" where
  "chunk_at a index =
     (if length (ca_data a) div CHUNK_SIZE + ca_start a \<le> index \<or> index < ca_start a then Ok None
      else let offset = (index - ca_start a) * CHUNK_SIZE
           in rbind (slice_index (ca_data a) offset (offset + CHUNK_SIZE)) (\<lambda>c. Ok (Some c)))"

definition first_chunk :: "chunk_array \<Rightarrow> byte list option res" where
  "first_chunk a = chunk_at a (ca_start a)"

definition last_chunk :: "chunk_array \<Rightarrow> byte list option res" where
  "last_chunk a =
     (let n = ca_start a + length (ca_data a) div CHUNK_SIZE
      in if n = 0 then Ok None else chunk_at a (n - 1))"

definition sub_array :: "chunk_array \<Rightarrow> nat \<Rightarrow> nat \<Rightarrow> chunk_array option res" where
  "sub_array a start_ix end_ix =
     (let stop = length (ca_data a) div CHUNK_SIZE + ca_start a
      in if stop \<le> start_ix \<or> start_ix < ca_start a \<or> stop < end_ix \<or> end_ix \<le> ca_start a \<or> end_ix \<le> start_ix
         then Ok None
         else rbind (slice_index (ca_data a) ((start_ix - ca_start a) * CHUNK_SIZE) ((end_ix - ca_start a) * CHUNK_SIZE))
                (\<lambda>d. Ok (Some \<lparr>ca_data = d, ca_start = start_ix\<rparr>)))"

subsection \<open>Proofs of a file\<close>

record 'e file_proof =
  fp_lemma :: "'e list"
  fp_path :: "bool list"

definition file_proof_new :: "'e list \<Rightarrow> bool list \<Rightarrow> 'e file_proof" where
  "file_proof_new hashes path = \<lparr>fp_lemma = (if path = [] then take 1 hashes else hashes), fp_path = path\<rparr>"

text \<open>The loop of \<open>position\<close> over the reversed path.\<close>

fun position_loop :: "nat \<Rightarrow> nat \<Rightarrow> bool list \<Rightarrow> nat res" where
  "position_loop left_chunk_count pos [] =
     (if left_chunk_count \<noteq> 1 then Err ''Proof path too short for a tree size'' else Ok pos)"
| "position_loop left_chunk_count pos (is_left # path) =
     (if left_chunk_count \<le> 1 then Err ''Proof path too long for a tree size''
      else rbind (next_pow2 left_chunk_count) (\<lambda>p.
        let subtree_size = p div 2
        in if \<not> is_left then position_loop (left_chunk_count - subtree_size) (pos + subtree_size) path
           else position_loop subtree_size pos path))"

definition file_position :: "'e file_proof \<Rightarrow> nat \<Rightarrow> nat res" where
  "file_position p total_chunk_count = position_loop total_chunk_count 0 (rev (fp_path p))"

definition raw_file_proof :: "'e file_proof \<Rightarrow> 'e light_proof res" where
  "raw_file_proof p =
     (if length (fp_lemma p) = 1 \<and> fp_path p = [] \<or>
         2 < length (fp_lemma p) \<and> length (fp_lemma p) = length (fp_path p) + 2
      then light_proof_new (fp_lemma p) (fp_path p)
      else Err ''Invalid proof'')"

definition file_validate :: "'e light_algo \<Rightarrow> 'e file_proof \<Rightarrow> 'e \<Rightarrow> 'e \<Rightarrow> nat \<Rightarrow> nat \<Rightarrow> bool res" where
  "file_validate L p leaf_hash root position leaf_count =
     rbind (file_position p leaf_count) (\<lambda>pos.
     if pos \<noteq> position then Err ''wrong position''
     else
       rbind (raw_file_proof p) (\<lambda>raw.
       rbind (light_validate L raw) (\<lambda>valid.
       if \<not> valid then Ok False
       else
         rbind (light_proof_root raw) (\<lambda>r.
         if r \<noteq> root then Err ''root mismatch''
         else rbind (light_proof_item raw) (\<lambda>item.
                if item \<noteq> leaf_hash then Err ''data hash mismatch'' else Ok True)))))"

text \<open>The segment root: the hashes of its chunks, padded with the hash of an empty chunk.\<close>

definition ZERO_HASH :: h256 where
  "ZERO_HASH = [0xd3, 0x97, 0xb3, 0xb0, 0x43, 0xd8, 0x7f, 0xcd, 0x6f, 0xad, 0x12, 0x91, 0xff, 0xb, 0xfd, 0x16,
     0x40, 0x1c, 0x27, 0x48, 0x96, 0xd8, 0xc6, 0x3a, 0x92, 0x37, 0x27, 0xf0, 0x77, 0xb8, 0xe0, 0xb5]"

definition chunks_exact :: "nat \<Rightarrow> 'a list \<Rightarrow> 'a list list" where
  "chunks_exact n xs = chunks n (take (n * (length xs div n)) xs)"

definition compute_segment_merkle_root :: "(byte list \<Rightarrow> h256) \<Rightarrow> byte list \<Rightarrow> nat \<Rightarrow> h256 res" where
  "compute_segment_merkle_root keccak data segment_chunks =
     (let hashes = map keccak (chunks_exact CHUNK_SIZE data);
          num_chunks = length data div CHUNK_SIZE;
          hashes' = (if num_chunks < segment_chunks then hashes @ replicate (segment_chunks - num_chunks) ZERO_HASH
                     else hashes)
      in rbind (from_iter (raw_leaf_sha3 keccak) hashes') light_tree_root)"

subsection \<open>The proof of a segment\<close>

record chunk_array_with_proof =
  cp_chunks :: chunk_array
  cp_proof :: "h256 range_proof"

datatype node_proof_leaf = Full nat | Partial

record node_proof =
  np_proof :: "h256 file_proof"
  np_leaf :: node_proof_leaf

text \<open>The loop of \<open>compute_merkle_root\<close> over the nodes from the last but one to the first.\<close>

fun merge_nodes :: "(byte list \<Rightarrow> h256) \<Rightarrow> nat \<Rightarrow> h256 \<Rightarrow> (nat \<times> h256) list \<Rightarrow> h256" where
  "merge_nodes keccak max_depth root [] = root"
| "merge_nodes keccak max_depth root ((depth, node_root) # nodes) =
     (if max_depth \<le> depth then root
      else merge_nodes keccak max_depth (a_parent (sha3_algo keccak) node_root root) nodes)"

definition compute_merkle_root :: "(byte list \<Rightarrow> h256) \<Rightarrow> transaction \<Rightarrow> nat \<Rightarrow> h256 option" where
  "compute_merkle_root keccak tx max_depth_exclusive =
     (case rev (merkle_nodes tx) of
        [] \<Rightarrow> None
      | (depth, root) # nodes \<Rightarrow>
          if max_depth_exclusive \<le> depth then None
          else Some (merge_nodes keccak max_depth_exclusive root nodes))"

text \<open>The search for the node that holds the segment: the node, if any, and the nodes before it.\<close>

fun find_node ::
  "nat \<Rightarrow> nat \<Rightarrow> nat \<Rightarrow> h256 list \<Rightarrow> (nat \<times> h256) list \<Rightarrow> ((nat \<times> h256) option \<times> h256 list) res" where
  "find_node chunk_start chunks_per_segment total_chunks seen [] = Ok (None, seen)"
| "find_node chunk_start chunks_per_segment total_chunks seen ((depth, root) # nodes) =
     rbind (num_entries_of_node depth) (\<lambda>node_chunks.
       if node_chunks < chunks_per_segment then Ok (None, seen)
       else if chunk_start < total_chunks + node_chunks then Ok (Some (depth, root), seen)
       else find_node chunk_start chunks_per_segment (total_chunks + node_chunks) (seen @ [root]) nodes)"

definition compute_node_proof :: "(byte list \<Rightarrow> h256) \<Rightarrow> transaction \<Rightarrow> nat \<Rightarrow> nat \<Rightarrow> node_proof res" where
  "compute_node_proof keccak tx chunk_start_index chunks_per_segment =
     rbind (find_node chunk_start_index chunks_per_segment 0 [] (merkle_nodes tx)) (\<lambda>(node, seen).
     let hashes = data_merkle_root tx # seen; path = replicate (length seen) False
     in case node of
          Some (depth, root) \<Rightarrow>
            let (hashes', path') =
                  (case compute_merkle_root keccak tx depth of
                     Some right_root \<Rightarrow> (hashes @ [right_root], path @ [True])
                   | None \<Rightarrow> (hashes, path))
            in Ok \<lparr>np_proof = file_proof_new (rev (hashes' @ [root])) (rev path'), np_leaf = Full depth\<rparr>
        | None \<Rightarrow>
            (case compute_merkle_root keccak tx (log2_pow2 chunks_per_segment + 1) of
               None \<Rightarrow> Panic ''merkle root should be exists''
             | Some right_root \<Rightarrow>
                 Ok \<lparr>np_proof = file_proof_new (rev (hashes @ [right_root])) (rev path), np_leaf = Partial\<rparr>))"

text \<open>The siblings between the segment root and its node, copied from the flow proof.\<close>

fun copy_flow :: "h256 merkle_proof \<Rightarrow> nat list \<Rightarrow> (h256 list \<times> bool list) res" where
  "copy_flow p [] = Ok ([], [])"
| "copy_flow p (i # is) =
     rbind (vec_index (p_lemma p) (i + 1)) (\<lambda>x.
     rbind (vec_index (p_path p) i) (\<lambda>b.
     rbind (copy_flow p is) (\<lambda>(xs, bs). Ok (x # xs, b # bs))))"

definition compute_segment_proof_full ::
  "(byte list \<Rightarrow> h256) \<Rightarrow> node_proof \<Rightarrow> nat \<Rightarrow> chunk_array_with_proof \<Rightarrow> nat \<Rightarrow> h256 file_proof res" where
  "compute_segment_proof_full keccak np node_depth segment chunks_per_segment =
     (let segment_depth = log2_pow2 chunks_per_segment; flow = left_proof (cp_proof segment); p = np_proof np
      in if node_depth = segment_depth then Ok p
         else
           rbind (assert_that (segment_depth < node_depth) ''node_depth > segment_depth'') (\<lambda>_.
           if length (p_path flow) < node_depth then Err ''flow proof path too small''
           else
             rbind (compute_segment_merkle_root keccak (ca_data (cp_chunks segment)) chunks_per_segment) (\<lambda>segment_root.
             rbind (copy_flow flow [segment_depth..<node_depth]) (\<lambda>(xs, bs).
             if fp_path p = []
             then rbind (vec_index (fp_lemma p) 0) (\<lambda>r. Ok (file_proof_new (segment_root # xs @ [r]) bs))
             else rbind (slice_index (fp_lemma p) 1 (length (fp_lemma p))) (\<lambda>rest.
                    Ok (file_proof_new (segment_root # xs @ rest) (bs @ fp_path p)))))))"

definition compute_segment_proof ::
  "(byte list \<Rightarrow> h256) \<Rightarrow> transaction \<Rightarrow> chunk_array_with_proof \<Rightarrow> nat \<Rightarrow> h256 file_proof res" where
  "compute_segment_proof keccak tx segment chunks_per_segment =
     (let start = ca_start (cp_chunks segment)
      in if chunks_per_segment = 0 then Panic ''attempt to calculate the remainder with a divisor of zero''
         else if start mod chunks_per_segment \<noteq> 0 then Err ''start index not aligned''
         else
           rbind (num_entries tx) (\<lambda>total_entries.
           if total_entries \<le> start then Err ''start index out of bound''
           else if total_entries < start + length (ca_data (cp_chunks segment)) div CHUNK_SIZE
           then Err ''end index out of bound''
           else
             rbind (compute_node_proof keccak tx start chunks_per_segment) (\<lambda>np.
             case np_leaf np of
               Full node_depth \<Rightarrow> compute_segment_proof_full keccak np (node_depth - 1) segment chunks_per_segment
             | Partial \<Rightarrow> Ok (np_proof np))))"

end
