(* ===== verification/Entry_Batch.thy ===== *)
theory Entry_Batch
  imports Seal_Info Shared_Types
begin

text \<open>
  One load chunk with its data and its sealing state, \<^verbatim>\<open>node/storage/src/log_store/load_chunk/mod.rs\<close>:
  reads of sealed and unsealed data, insertion, truncation, the Merkle root of the chunk, and the
  submission of a sealed seal chunk.
\<close>

subsection \<open>State and operations\<close>

record entry_batch =
  eb_seal :: seal_info
  eb_data :: entry_batch_data

definition new_entry_batch :: "nat \<Rightarrow> entry_batch" where
  "new_entry_batch load_index_global = \<lparr>eb_seal = new_seal_info load_index_global, eb_data = new_data\<rparr>"

definition entry_batch_is_empty :: "entry_batch \<Rightarrow> bool" where
  "entry_batch_is_empty eb = data_is_empty (eb_data eb)"

definition get_sealed_data :: "entry_batch \<Rightarrow> nat \<Rightarrow> byte list option res" where
  "get_sealed_data eb seal_index =
     (if is_sealed (eb_seal eb) seal_index
      then get_data (eb_data eb) (seal_index * BYTES_PER_SEAL) BYTES_PER_SEAL
      else Ok None)"

definition get_non_sealed_data :: "entry_batch \<Rightarrow> nat \<Rightarrow> byte list option res" where
  "get_non_sealed_data eb seal_index =
     (if \<not> is_sealed (eb_seal eb) seal_index
      then get_data (eb_data eb) (seal_index * BYTES_PER_SEAL) BYTES_PER_SEAL
      else Ok None)"

text \<open>The loop of \<open>get_unsealed_data\<close> over the seal chunks from \<open>seal_index\<close> on.\<close>

fun unseal_chunks ::
  "(byte list \<Rightarrow> h256) \<Rightarrow> seal_info \<Rightarrow> nat \<Rightarrow> byte list list \<Rightarrow> byte list list res" where
  "unseal_chunks keccak s seal_index [] = Ok []"
| "unseal_chunks keccak s seal_index (c # cs) =
     rbind (unseal_chunk keccak s c (as_u16 seal_index)) (\<lambda>c'.
     rbind (unseal_chunks keccak s (seal_index + 1) cs) (\<lambda>cs'. Ok (c' # cs')))"

definition get_unsealed_data ::
  "(byte list \<Rightarrow> h256) \<Rightarrow> entry_batch \<Rightarrow> nat \<Rightarrow> nat \<Rightarrow> byte list option res" where
  "get_unsealed_data keccak eb start_sec length_sec =
     (let advanced_by_one =
            (if start_sec mod SECTORS_PER_SEAL = 0 then False
             else is_sealed (eb_seal eb) (as_u16 (start_sec div SECTORS_PER_SEAL)));
          start_byte = start_sec * BYTES_PER_SECTOR;
          length_byte = length_sec * BYTES_PER_SECTOR
      in rbind (if advanced_by_one
                then rbind (get_data (eb_data eb) (start_byte - 32) (length_byte + 32)) (\<lambda>l.
                       Ok (map_option (\<lambda>w. (drop 32 w, Some (take 32 w))) l))
                else rbind (get_data (eb_data eb) start_byte length_byte) (\<lambda>l.
                       Ok (map_option (\<lambda>w. (w, None)) l))) (\<lambda>loaded.
         case loaded of
           None \<Rightarrow> Ok None
         | Some (loaded_data, unseal_mask_seed) \<Rightarrow>
             let first_len = BYTES_PER_SEAL - start_byte mod BYTES_PER_SEAL
             in rbind (case unseal_mask_seed of
                         None \<Rightarrow> Ok (take first_len loaded_data)
                       | Some seed \<Rightarrow> unseal_with_mask_seed keccak (take first_len loaded_data) seed) (\<lambda>head_data.
                if first_len < length loaded_data
                then rbind (unseal_chunks keccak (eb_seal eb) ((start_byte + first_len) div BYTES_PER_SEAL)
                              (chunks BYTES_PER_SEAL (drop first_len loaded_data))) (\<lambda>cs.
                       Ok (Some (head_data @ concat cs)))
                else Ok (Some head_data))))"

definition insert_batch_data :: "entry_batch \<Rightarrow> nat \<Rightarrow> byte list \<Rightarrow> (entry_batch \<times> nat list) res" where
  "insert_batch_data eb offset data =
     rbind (insert_data (eb_data eb) (offset * BYTES_PER_SECTOR) data) (\<lambda>(d, idx).
       Ok (eb\<lparr>eb_data := d\<rparr>, idx))"

text \<open>The loop of \<open>truncate_seal\<close>: every sealed seal chunk in the list is unsealed in place.\<close>

fun unseal_range ::
  "(byte list \<Rightarrow> h256) \<Rightarrow> seal_info \<Rightarrow> nat \<Rightarrow> entry_batch_data \<Rightarrow> nat list \<Rightarrow> (entry_batch_data \<times> nat list) res" where
  "unseal_range keccak s truncated_sector d [] = Ok (d, [])"
| "unseal_range keccak s truncated_sector d (x # xs) =
     (if \<not> is_sealed s x then unseal_range keccak s truncated_sector d xs
      else
        let truncated_byte = truncated_sector * BYTES_PER_SECTOR;
            first_unseal_byte = x * BYTES_PER_SEAL
        in if truncated_byte < first_unseal_byte then Panic ''attempt to subtract with overflow''
           else
             let len = min (truncated_byte - first_unseal_byte) BYTES_PER_SEAL
             in rbind (get_data d first_unseal_byte len) (\<lambda>c.
                case c of
                  None \<Rightarrow> Panic ''Sealed chunk should be complete''
                | Some c \<Rightarrow>
                    rbind (unseal_chunk keccak s c x) (\<lambda>c'.
                    rbind (put_data d first_unseal_byte c') (\<lambda>d'.
                    case d' of
                      None \<Rightarrow> Panic ''Sealed chunk should be complete''
                    | Some d' \<Rightarrow>
                        rbind (unseal_range keccak s truncated_sector d' xs) (\<lambda>(d'', idx). Ok (d'', x # idx))))))"

definition truncate_seal :: "(byte list \<Rightarrow> h256) \<Rightarrow> entry_batch \<Rightarrow> nat \<Rightarrow> (entry_batch \<times> nat list) res" where
  "truncate_seal keccak eb truncated_sector =
     (let reverted_seal_index = as_u16 (truncated_sector div SECTORS_PER_SEAL);
          first_unseal_index = truncated_seal_index (eb_seal eb) reverted_seal_index;
          last_unseal_index = as_u16 ((truncated_sector - 1) div SECTORS_PER_SEAL)
      in rbind (unseal_range keccak (eb_seal eb) truncated_sector (eb_data eb)
                  [first_unseal_index..<last_unseal_index + 1]) (\<lambda>(d, to_reseal_set).
         rbind (truncate_seal_info (eb_seal eb) reverted_seal_index) (\<lambda>s.
           Ok (\<lparr>eb_seal = s, eb_data = d\<rparr>, to_reseal_set))))"

definition truncate_batch :: "(byte list \<Rightarrow> h256) \<Rightarrow> entry_batch \<Rightarrow> nat \<Rightarrow> (entry_batch \<times> nat list) res" where
  "truncate_batch keccak eb truncated_sector =
     rbind (assert_that (0 < truncated_sector \<and> truncated_sector < SECTORS_PER_LOAD) ''truncated_sector'') (\<lambda>_.
     rbind (truncate_data (eb_data eb) (truncated_sector * BYTES_PER_SECTOR)) (\<lambda>d.
       truncate_seal keccak (eb\<lparr>eb_data := d\<rparr>) truncated_sector))"

fun data_list_entries ::
  "(byte list \<Rightarrow> h256) \<Rightarrow> entry_batch \<Rightarrow> nat \<Rightarrow> (nat \<times> nat) list \<Rightarrow> chunk_array list res" where
  "data_list_entries keccak eb global_start [] = Ok []"
| "data_list_entries keccak eb global_start ((start_entry, length_entry) # es) =
     rbind (get_unsealed_data keccak eb start_entry length_entry) (\<lambda>d.
     case d of
       None \<Rightarrow> Panic ''unwrap of None''
     | Some d \<Rightarrow>
         rbind (data_list_entries keccak eb global_start es) (\<lambda>as.
           Ok (\<lparr>ca_data = d, ca_start = global_start + start_entry\<rparr> # as)))"

definition into_data_list :: "(byte list \<Rightarrow> h256) \<Rightarrow> entry_batch \<Rightarrow> nat \<Rightarrow> chunk_array list res" where
  "into_data_list keccak eb global_start_entry =
     data_list_entries keccak eb global_start_entry (available_range_entries (eb_data eb))"

subsection \<open>The Merkle root of a load chunk\<close>

definition data_to_merkle_leaves :: "(byte list \<Rightarrow> h256) \<Rightarrow> byte list \<Rightarrow> h256 list res" where
  "data_to_merkle_leaves keccak leaf_data =
     (if length leaf_data mod CHUNK_SIZE \<noteq> 0 then Err ''merkle_tree: unmatch data size''
      else Ok (map (a_leaf (sha3_algo keccak)) (chunks_exact CHUNK_SIZE leaf_data)))"

definition sub_merkle_tree :: "(byte list \<Rightarrow> h256) \<Rightarrow> byte list \<Rightarrow> h256 light_tree res" where
  "sub_merkle_tree keccak leaf_data =
     rbind (data_to_merkle_leaves keccak leaf_data) (from_iter (raw_leaf_sha3 keccak))"

definition build_root_for_first_chunk :: "(byte list \<Rightarrow> h256) \<Rightarrow> entry_batch \<Rightarrow> h256 option res" where
  "build_root_for_first_chunk keccak eb =
     (case eb_data eb of
        Complete _ \<Rightarrow> Err ''Unexpected first batch''
      | Incomplete _ \<Rightarrow>
          rbind (get_unsealed_data keccak eb 1 (SECTORS_PER_LOAD - 1)) (\<lambda>raw_data.
          case raw_data of
            None \<Rightarrow> Ok None
          | Some raw_data \<Rightarrow>
              rbind (data_to_merkle_leaves keccak raw_data) (\<lambda>leaves.
              rbind (new_amt (sha3_algo keccak) (h256_zero # leaves) 0 None) (\<lambda>t.
              rbind (amt_root t) (\<lambda>root. Ok (Some root))))))"

definition build_root :: "(byte list \<Rightarrow> h256) \<Rightarrow> entry_batch \<Rightarrow> bool \<Rightarrow> h256 option res" where
  "build_root keccak eb is_first_chunk =
     (if is_first_chunk then build_root_for_first_chunk keccak eb
      else
        rbind (get_unsealed_data keccak eb 0 SECTORS_PER_LOAD) (\<lambda>raw_data.
        case raw_data of
          None \<Rightarrow> Ok None
        | Some raw_data \<Rightarrow>
            rbind (sub_merkle_tree keccak raw_data) (\<lambda>t.
            rbind (light_tree_root t) (\<lambda>root. Ok (Some root)))))"

subsection \<open>Sealing\<close>

record seal_answer =
  sa_seal_index :: nat
  sa_version :: nat
  sa_sealed_data :: "byte list"
  sa_miner_id :: h256
  sa_seal_context :: h256
  sa_context_end_seal :: nat

definition submit_seal_result :: "entry_batch \<Rightarrow> seal_answer \<Rightarrow> entry_batch res" where
  "submit_seal_result eb answer =
     (let local_seal_index = sa_seal_index answer mod SEALS_PER_LOAD
      in rbind (assert_that (\<not> is_sealed (eb_seal eb) local_seal_index) ''Duplicated sealing'') (\<lambda>_.
         rbind (assert_that (sa_seal_index answer div SEALS_PER_LOAD = load_index (eb_seal eb)) ''load index'') (\<lambda>_.
         rbind (set_seal_context (eb_seal eb) (sa_seal_context answer) (sa_context_end_seal answer) (sa_miner_id answer)) (\<lambda>s.
         rbind (put_data (eb_data eb) (local_seal_index * BYTES_PER_SEAL) (sa_sealed_data answer)) (\<lambda>d.
         case d of
           None \<Rightarrow> Panic ''Sealing segment should exist''
         | Some d \<Rightarrow> Ok \<lparr>eb_seal = mark_sealed s local_seal_index, eb_data = d\<rparr>)))))"

end
