(* ===== verification/Entry_Batch_Laws.thy ===== *)
theory Entry_Batch_Laws
  imports Entry_Batch
begin

text \<open>
  The laws of \<open>Entry_Batch\<close>. \<open>plain_byte keccak eb off\<close> is the plain text of a load chunk: the stored
  byte, unsealed when its seal chunk is sealed. Reading, sealing and truncating are stated over it.
\<close>

subsection \<open>Plain text\<close>

definition seal_content :: "entry_batch_data \<Rightarrow> nat \<Rightarrow> byte list" where
  "seal_content d x = content d (x * 4096) ((x + 1) * 4096)"

definition plain_byte :: "(byte list \<Rightarrow> h256) \<Rightarrow> entry_batch \<Rightarrow> nat \<Rightarrow> byte" where
  "plain_byte keccak eb off =
     (if is_sealed (eb_seal eb) (off div 4096)
      then (case unseal_chunk keccak (eb_seal eb) (seal_content (eb_data eb) (off div 4096)) (off div 4096) of
              Ok c \<Rightarrow> c ! (off mod 4096) | _ \<Rightarrow> 0)
      else the (bytes_at (eb_data eb) off))"

definition entry_batch_ok :: "entry_batch \<Rightarrow> bool" where
  "entry_batch_ok eb \<longleftrightarrow>
     batch_ok (eb_data eb) \<and> contexts_ok (eb_seal eb) \<and>
     (\<forall>x. is_sealed (eb_seal eb) x \<longrightarrow>
        seal_full (eb_data eb) x \<and> get_seal_context_digest (eb_seal eb) x \<noteq> None \<and> miner_id (eb_seal eb) \<noteq> zero_id)"

lemma length_content [simp]: "length (content d a b) = b - a"
  by (simp add: content_def)

lemma nth_content: "i < b - a \<Longrightarrow> content d a b ! i = the (bytes_at d (a + i))"
  by (simp add: content_def)

lemma take_content: "a + l \<le> b \<Longrightarrow> take l (content d a b) = content d a (a + l)"
  by (simp add: content_def take_map)

lemma drop_content: "drop l (content d a b) = content d (a + l) b"
  by (simp add: content_def drop_map)

lemma content_append: "a \<le> b \<Longrightarrow> b \<le> c \<Longrightarrow> content d a b @ content d b c = content d a c"
  unfolding content_def by (metis le_Suc_ex map_append upt_add_eq_append)

lemma content_cong: "(\<And>off. a \<le> off \<Longrightarrow> off < b \<Longrightarrow> bytes_at d off = bytes_at d' off) \<Longrightarrow> content d a b = content d' a b"
  by (simp add: content_def)

definition chunk_mask :: "(byte list \<Rightarrow> h256) \<Rightarrow> seal_info \<Rightarrow> nat \<Rightarrow> h256" where
  "chunk_mask keccak s x =
     keccak (compute_first_mask_seed (miner_id s) (the (get_seal_context_digest s x)) (global_seal_sector s x))"

lemma unseal_chunk_sealed:
  "is_sealed s x \<Longrightarrow> get_seal_context_digest s x \<noteq> None \<Longrightarrow>
     unseal_chunk keccak s c x = unseal_with_mask keccak c (chunk_mask keccak s x)"
  by (auto simp: unseal_chunk_def unseal_def unseal_with_mask_seed_def chunk_mask_def)

text \<open>The plain text of a sealed seal chunk.\<close>

lemma sealed_plain:
  assumes ok: "entry_batch_ok eb" and x: "is_sealed (eb_seal eb) x"
  obtains P where "unseal_with_mask keccak (seal_content (eb_data eb) x) (chunk_mask keccak (eb_seal eb) x) = Ok P"
    "length P = 4096" "\<And>i. i < 4096 \<Longrightarrow> plain_byte keccak eb (x * 4096 + i) = P ! i"
proof -
  let ?C = "seal_content (eb_data eb) x" and ?m = "chunk_mask keccak (eb_seal eb) x"
  have len: "length ?C = 4096" by (simp add: seal_content_def)
  then obtain P where P: "unseal_with_mask keccak ?C ?m = Ok P" by (simp add: unseal_with_mask_def)
  have "get_seal_context_digest (eb_seal eb) x \<noteq> None" using ok x by (simp add: entry_batch_ok_def)
  note u = unseal_chunk_sealed [OF x this, of keccak]
  have "plain_byte keccak eb (x * 4096 + i) = P ! i" if "i < 4096" for i
  proof -
    have "(x * 4096 + i) div 4096 = x" "(x * 4096 + i) mod 4096 = i" using that by simp_all
    then show ?thesis using x P by (simp add: plain_byte_def u)
  qed
  with P len unseal_mask_length [OF P] show ?thesis by (intro that [of P]) simp_all
qed

lemma plain_unsealed:
  "\<not> is_sealed (eb_seal eb) x \<Longrightarrow> x * 4096 \<le> off \<Longrightarrow> off < (x + 1) * 4096 \<Longrightarrow>
     plain_byte keccak eb off = the (bytes_at (eb_data eb) off)"
proof -
  assume a: "\<not> is_sealed (eb_seal eb) x" "x * 4096 \<le> off" "off < (x + 1) * 4096"
  then have "off div 4096 = x" by (simp add: div_nat_eqI)
  with a(1) show ?thesis by (simp add: plain_byte_def)
qed

text \<open>Unsealing a prefix of a seal chunk, and any part of it after the sealed word before it.\<close>

lemma unseal_prefix_plain:
  assumes ok: "entry_batch_ok eb" and l: "l \<le> 4096" "32 dvd l"
  shows "unseal_chunk keccak (eb_seal eb) (content (eb_data eb) (x * 4096) (x * 4096 + l)) x =
           Ok (map (plain_byte keccak eb) [x * 4096..<x * 4096 + l])"
proof (cases "is_sealed (eb_seal eb) x")
  case False
  then have "content (eb_data eb) (x * 4096) (x * 4096 + l) = map (plain_byte keccak eb) [x * 4096..<x * 4096 + l]"
    using l(1) plain_unsealed [OF False] by (auto simp: content_def)
  with False show ?thesis by (simp add: unseal_chunk_def)
next
  case True
  obtain P where P: "unseal_with_mask keccak (seal_content (eb_data eb) x) (chunk_mask keccak (eb_seal eb) x) = Ok P"
    "length P = 4096" "\<And>i. i < 4096 \<Longrightarrow> plain_byte keccak eb (x * 4096 + i) = P ! i"
    using sealed_plain [OF ok True] by metis
  from l(2) obtain i where i: "l = 32 * i" by blast
  have "take (32 * i) (seal_content (eb_data eb) x) = content (eb_data eb) (x * 4096) (x * 4096 + l)"
    using l i by (simp add: seal_content_def take_content)
  moreover have "unseal_with_mask keccak (take (32 * i) (seal_content (eb_data eb) x)) (chunk_mask keccak (eb_seal eb) x) = Ok (take (32 * i) P)"
    by (rule unseal_prefix [OF _ P(1)]) (use l i in \<open>simp_all add: seal_content_def\<close>)
  moreover have "take (32 * i) P = map (plain_byte keccak eb) [x * 4096..<x * 4096 + l]"
    using P(2,3) l i by (intro nth_equalityI) auto
  moreover have "get_seal_context_digest (eb_seal eb) x \<noteq> None" using ok True by (simp add: entry_batch_ok_def)
  ultimately show ?thesis using unseal_chunk_sealed [OF True, of keccak] by simp
qed

lemma unseal_middle_plain:
  assumes ok: "entry_batch_ok eb" and x: "is_sealed (eb_seal eb) x"
    and a: "0 < a" "32 dvd a" and l: "a + l \<le> 4096" "32 dvd l"
  shows "unseal_with_mask_seed keccak (content (eb_data eb) (x * 4096 + a) (x * 4096 + a + l))
           (content (eb_data eb) (x * 4096 + a - 32) (x * 4096 + a)) =
         Ok (map (plain_byte keccak eb) [x * 4096 + a..<x * 4096 + a + l])"
proof -
  let ?C = "seal_content (eb_data eb) x" and ?m = "chunk_mask keccak (eb_seal eb) x"
  obtain P where P: "unseal_with_mask keccak ?C ?m = Ok P"
    "length P = 4096" "\<And>i. i < 4096 \<Longrightarrow> plain_byte keccak eb (x * 4096 + i) = P ! i"
    using sealed_plain [OF ok x] by metis
  from a(2) l(2) obtain i j where ij: "a = 32 * i" "l = 32 * j" by blast
  have len: "length ?C = 4096" by (simp add: seal_content_def)
  have "unseal_with_mask keccak (drop (32 * i) ?C) (keccak (slice ?C (32 * (i - 1)) (32 * i))) = Ok (drop (32 * i) P)"
    by (rule unseal_from [OF _ P(1)]) (use a l ij len in \<open>simp_all\<close>)
  then have "unseal_with_mask keccak (take (32 * j) (drop (32 * i) ?C)) (keccak (slice ?C (32 * (i - 1)) (32 * i))) = Ok (take (32 * j) (drop (32 * i) P))"
    by (rule unseal_prefix [rotated]) (use a l ij len in \<open>auto\<close>)
  moreover have "take (32 * j) (drop (32 * i) ?C) = content (eb_data eb) (x * 4096 + a) (x * 4096 + a + l)"
    using l ij by (simp add: seal_content_def take_content drop_content)
  moreover have "slice ?C (32 * (i - 1)) (32 * i) = content (eb_data eb) (x * 4096 + a - 32) (x * 4096 + a)"
  proof -
    have "32 * i - 32 * (i - 1) = 32" "x * 4096 + 32 * (i - 1) = x * 4096 + a - 32" using a(1) ij by auto
    moreover have "x * 4096 + a - 32 + 32 = x * 4096 + a" using a(1) ij by auto
    ultimately show ?thesis using l ij by (simp add: slice_def seal_content_def drop_content take_content)
  qed
  moreover have "take (32 * j) (drop (32 * i) P) = map (plain_byte keccak eb) [x * 4096 + a..<x * 4096 + a + l]"
    using P(2,3) l ij by (intro nth_equalityI) (auto simp: add.assoc)
  ultimately show ?thesis by (simp add: unseal_with_mask_seed_def)
qed

lemma unseal_chunks_plain:
  assumes ok: "entry_batch_ok eb"
  shows "x * 4096 + m \<le> BYTES_PER_LOAD \<Longrightarrow> 32 dvd m \<Longrightarrow>
    \<exists>cs. unseal_chunks keccak (eb_seal eb) x (chunks 4096 (content (eb_data eb) (x * 4096) (x * 4096 + m))) = Ok cs \<and>
         concat cs = map (plain_byte keccak eb) [x * 4096..<x * 4096 + m]"
proof (induction m arbitrary: x rule: less_induct)
  case (less m)
  show ?case
  proof (cases "m = 0")
    case True
    then show ?thesis by (simp add: content_def)
  next
    case False
    let ?l = "min m 4096"
    have x64: "as_u16 x = x" using less.prems False by (simp add: as_u16_def layout_values)
    have ne: "content (eb_data eb) (x * 4096) (x * 4096 + m) \<noteq> []" using False by (simp add: content_def)
    have t: "take 4096 (content (eb_data eb) (x * 4096) (x * 4096 + m)) = content (eb_data eb) (x * 4096) (x * 4096 + ?l)"
      by (cases "m \<le> 4096") (simp_all add: take_content)
    have d: "drop 4096 (content (eb_data eb) (x * 4096) (x * 4096 + m)) =
        content (eb_data eb) ((x + 1) * 4096) ((x + 1) * 4096 + (m - 4096))"
      unfolding drop_content by (cases "m \<le> 4096") (simp_all add: content_def add.commute)
    have dv: "32 dvd ?l" "32 dvd m - 4096" using less.prems(2) by (auto simp: min_def dvd_diff_nat)
    have head: "unseal_chunk keccak (eb_seal eb) (content (eb_data eb) (x * 4096) (x * 4096 + ?l)) x =
        Ok (map (plain_byte keccak eb) [x * 4096..<x * 4096 + ?l])"
      by (rule unseal_prefix_plain [OF ok _ dv(1)]) simp
    obtain cs where cs: "unseal_chunks keccak (eb_seal eb) (x + 1) (chunks 4096 (content (eb_data eb) ((x + 1) * 4096) ((x + 1) * 4096 + (m - 4096)))) = Ok cs"
      "concat cs = map (plain_byte keccak eb) [(x + 1) * 4096..<(x + 1) * 4096 + (m - 4096)]"
    proof (cases "m \<le> 4096")
      case True
      then show ?thesis using that [of "[]"] by (simp add: content_def)
    next
      case False
      then show ?thesis using less.IH [of "m - 4096" "x + 1"] less.prems dv that by (auto simp: algebra_simps)
    qed
    have "unseal_chunks keccak (eb_seal eb) x (chunks 4096 (content (eb_data eb) (x * 4096) (x * 4096 + m))) =
        Ok (map (plain_byte keccak eb) [x * 4096..<x * 4096 + ?l] # cs)"
      unfolding chunks_rec [OF _ ne, of 4096, simplified] t d unseal_chunks.simps x64 head rbind.simps cs(1) by simp
    moreover have "map (plain_byte keccak eb) [x * 4096..<x * 4096 + ?l] @ concat cs = map (plain_byte keccak eb) [x * 4096..<x * 4096 + m]"
    proof (cases "m \<le> 4096")
      case True
      then show ?thesis using cs(2) by simp
    next
      case False
      then have "[x * 4096..<x * 4096 + m] = [x * 4096..<x * 4096 + 4096] @ [x * 4096 + 4096..<x * 4096 + m]"
        using upt_add_eq_append [of "x * 4096" "x * 4096 + 4096" "m - 4096"] by simp
      with False cs(2) show ?thesis by (simp add: add.commute)
    qed
    ultimately show ?thesis by auto
  qed
qed

subsection \<open>Reading\<close>

lemma present_mono: "present d a b \<Longrightarrow> a \<le> a' \<Longrightarrow> b' \<le> b \<Longrightarrow> present d a' b'"
  by (simp add: present_def)

lemma seal_full_present: "seal_full d x \<Longrightarrow> present d (x * 4096) ((x + 1) * 4096)"
  by (simp add: seal_full_def layout_values)

text \<open>
  What \<open>get_unsealed_data\<close> returns: the plain text, except that the first seal chunk is returned as
  it is stored when the read starts at its beginning.
\<close>

definition unsealed_byte :: "(byte list \<Rightarrow> h256) \<Rightarrow> entry_batch \<Rightarrow> nat \<Rightarrow> nat \<Rightarrow> byte" where
  "unsealed_byte keccak eb start off =
     (if start mod 16 = 0 \<and> off < start * 256 + 4096 then the (bytes_at (eb_data eb) off) else plain_byte keccak eb off)"

lemma get_unsealed_exact:
  assumes ok: "entry_batch_ok eb" and n: "0 < n" and range: "start + n \<le> SECTORS_PER_LOAD"
    and pres: "present (eb_data eb) (start * 256) ((start + n) * 256)"
  shows "get_unsealed_data keccak eb start n =
           Ok (Some (map (unsealed_byte keccak eb start) [start * 256..<(start + n) * 256]))"
proof -
  let ?d = "eb_data eb" and ?s = "eb_seal eb" and ?u = "unsealed_byte keccak eb start"
  have bok: "batch_ok ?d" using ok by (simp add: entry_batch_ok_def)
  define x r where "x = start div 16" and "r = start mod 16"
  have st: "start = x * 16 + r" "r < 16" by (simp_all add: x_def r_def)
  define S E where "S = start * 256" and "E = (start + n) * 256"
  define adv where "adv = (r \<noteq> 0 \<and> is_sealed ?s x)"
  define F where "F = 4096 - S mod 4096"
  have x64: "as_u16 x = x" using range n st by (simp add: as_u16_def layout_values)
  have SE: "S < E" "E \<le> BYTES_PER_LOAD" "E = S + n * 256" using n range by (simp_all add: S_def E_def layout_values)
  have S: "S = x * 4096 + r * 256" using st by (simp add: S_def)
  have F: "F = 4096 - r * 256" "0 < F" "S + F = (x + 1) * 4096" "32 dvd F" using st(2) S by (auto simp: F_def dvd_diff_nat)
  have load: "(if adv then rbind (get_data ?d (S - 32) (n * 256 + 32)) (\<lambda>l.
                       Ok (map_option (\<lambda>w. (drop 32 w, Some (take 32 w))) l))
                else rbind (get_data ?d S (n * 256)) (\<lambda>l. Ok (map_option (\<lambda>w. (w, None)) l))) =
      Ok (Some (content ?d S E, if adv then Some (content ?d (S - 32) S) else None))"
  proof (cases adv)
    case True
    then have sx: "is_sealed ?s x" and r: "0 < r" by (simp_all add: adv_def)
    have full: "present ?d (x * 4096) ((x + 1) * 4096)" using ok sx seal_full_present by (simp add: entry_batch_ok_def)
    have "x * 4096 \<le> S - 32" "S \<le> (x + 1) * 4096" using r S F(3) by linarith+
    then have "present ?d (S - 32) S" by (intro present_mono [OF full])
    moreover have "present ?d S E" using pres by (simp add: S_def E_def)
    ultimately have "present ?d (S - 32) E" by (metis present_def not_less)
    moreover have "S - 32 + (n * 256 + 32) = E" using r S SE by simp
    ultimately have "get_data ?d (S - 32) (n * 256 + 32) = Ok (Some (content ?d (S - 32) E))"
      using get_data_refines [OF bok, of "n * 256 + 32" "S - 32"] SE by simp
    moreover have "S - 32 + 32 = S" using r S by simp
    ultimately show ?thesis using True SE by (simp add: take_content drop_content)
  next
    case False
    then show ?thesis using get_data_refines [OF bok, of "n * 256" S] pres n SE by (simp add: S_def E_def)
  qed
  have head: "(case if adv then Some (content ?d (S - 32) S) else None of
       None \<Rightarrow> Ok (take F (content ?d S E))
     | Some seed \<Rightarrow> unseal_with_mask_seed keccak (take F (content ?d S E)) seed) =
     Ok (map ?u [S..<min E (S + F)])"
  proof -
    define l where "l = min E (S + F) - S"
    have l: "S + l = min E (S + F)" "l \<le> F" "32 dvd l" "take F (content ?d S E) = content ?d S (S + l)"
    proof -
      have lm: "l = min (n * 256) F" using SE by (auto simp: l_def min_def)
      then show "S + l = min E (S + F)" "l \<le> F" using SE(3) by (auto simp: min_def)
      show "32 dvd l" using F(4) lm by (auto simp: min_def)
      show "take F (content ?d S E) = content ?d S (S + l)"
      proof (cases "F \<le> n * 256")
        case True
        then show ?thesis using lm SE(3) by (simp add: take_content)
      next
        case False
        then show ?thesis using lm SE(3) by simp
      qed
    qed
    show ?thesis
    proof (cases "r = 0")
      case True
      then have "map ?u [S..<S + l] = content ?d S (S + l)"
        using l F by (auto simp: content_def unsealed_byte_def r_def S_def)
      with True l show ?thesis by (simp add: adv_def)
    next
      case False
      then have up: "map ?u [S..<S + l] = map (plain_byte keccak eb) [S..<S + l]" by (simp add: unsealed_byte_def r_def)
      show ?thesis
      proof (cases "is_sealed ?s x")
        case True
        have "r * 256 + l \<le> 4096" using l(2) F(1) st(2) by simp
        from unseal_middle_plain [OF ok True _ _ this l(3), of keccak] False show ?thesis
          using True l up by (simp add: adv_def S)
      next
        case f: False
        have "map (plain_byte keccak eb) [S..<S + l] = content ?d S (S + l)"
          using plain_unsealed [OF f] S F(3) l(2) by (auto simp: content_def)
        then have "map ?u [S..<S + l] = content ?d S (S + l)" unfolding up .
        with f l show ?thesis by (simp add: adv_def)
      qed
    qed
  qed
  have run: "get_unsealed_data keccak eb start n =
     (if F < E - S
      then rbind (unseal_chunks keccak ?s ((S + F) div 4096) (chunks 4096 (drop F (content ?d S E)))) (\<lambda>cs.
             Ok (Some (map ?u [S..<min E (S + F)] @ concat cs)))
      else Ok (Some (map ?u [S..<min E (S + F)])))"
  proof -
    have adv: "(if start mod SECTORS_PER_SEAL = 0 then False else is_sealed ?s (as_u16 (start div SECTORS_PER_SEAL))) = adv"
      using x64 by (simp add: adv_def layout_values x_def r_def)
    have b: "start * BYTES_PER_SECTOR = S" "n * BYTES_PER_SECTOR = n * 256" "BYTES_PER_SEAL = 4096" "4096 - S mod 4096 = F"
      by (simp_all add: layout_values S_def F_def)
    show ?thesis
      unfolding get_unsealed_data_def Let_def adv unfolding b load rbind.simps option.case prod.case head length_content by simp
  qed
  show ?thesis
  proof (cases "F < E - S")
    case False
    then have "min E (S + F) = E" using SE by simp
    with False run show ?thesis by (simp add: S_def E_def)
  next
    case True
    define m where "m = E - (S + F)"
    have "32 dvd E" "32 dvd S + F" unfolding F(3) by (simp_all add: E_def)
    then have m: "(x + 1) * 4096 + m = E" "32 dvd m" using True F(3) unfolding m_def by (simp_all only: dvd_diff_nat)
    have "drop F (content ?d S E) = content ?d ((x + 1) * 4096) ((x + 1) * 4096 + m)"
      using F(3) m(1) by (simp add: drop_content)
    moreover obtain cs where "unseal_chunks keccak ?s (x + 1) (chunks 4096 (content ?d ((x + 1) * 4096) ((x + 1) * 4096 + m))) = Ok cs"
      "concat cs = map (plain_byte keccak eb) [(x + 1) * 4096..<(x + 1) * 4096 + m]"
      using unseal_chunks_plain [OF ok, of "x + 1" m keccak] m SE(2) by auto
    moreover have "(S + F) div 4096 = x + 1" using F(3) by simp
    ultimately have r: "get_unsealed_data keccak eb start n = Ok (Some (map ?u [S..<S + F] @ map (plain_byte keccak eb) [S + F..<E]))"
      using run True m(1) F(3) by simp
    have "map (plain_byte keccak eb) [S + F..<E] = map ?u [S + F..<E]"
      using F(1) by (auto simp: unsealed_byte_def S_def r_def)
    moreover have "[S..<E] = [S..<S + F] @ [S + F..<E]"
      using upt_add_eq_append [of S "S + F" "E - (S + F)"] True by simp
    ultimately show ?thesis using r by (simp add: S_def E_def)
  qed
qed

subsection \<open>Submitting a sealed chunk\<close>

lemma plain_byte_cong:
  assumes "is_sealed (eb_seal eb') x \<longleftrightarrow> is_sealed (eb_seal eb) x"
    and "\<And>off. x * 4096 \<le> off \<Longrightarrow> off < (x + 1) * 4096 \<Longrightarrow> bytes_at (eb_data eb') off = bytes_at (eb_data eb) off"
    and "is_sealed (eb_seal eb) x \<Longrightarrow>
      get_seal_context_digest (eb_seal eb') x = get_seal_context_digest (eb_seal eb) x \<and>
      miner_id (eb_seal eb') = miner_id (eb_seal eb) \<and> load_index (eb_seal eb') = load_index (eb_seal eb)"
    and "off div 4096 = x"
  shows "plain_byte keccak eb' off = plain_byte keccak eb off"
proof (cases "is_sealed (eb_seal eb) x")
  case True
  have "seal_content (eb_data eb') x = seal_content (eb_data eb) x"
    unfolding seal_content_def by (rule content_cong) (use assms(2) in auto)
  moreover from assms(3) [OF True] have "global_seal_sector (eb_seal eb') x = global_seal_sector (eb_seal eb) x"
    and "get_seal_context_digest (eb_seal eb') x = get_seal_context_digest (eb_seal eb) x"
    and "miner_id (eb_seal eb') = miner_id (eb_seal eb)" by (simp_all add: global_seal_sector_def)
  ultimately have "unseal_chunk keccak (eb_seal eb') (seal_content (eb_data eb') x) x =
      unseal_chunk keccak (eb_seal eb) (seal_content (eb_data eb) x) x"
    using True assms(1) unfolding unseal_chunk_def by presburger
  then show ?thesis using True assms(1,4) by (simp add: plain_byte_def)
next
  case False
  have "x * 4096 \<le> off" "off < (x + 1) * 4096"
    using assms(4) dividend_less_div_times [of 4096 off] by auto
  with False assms(1,2,4) show ?thesis by (simp add: plain_byte_def)
qed

text \<open>The context of an answer fits the load chunk and the contexts already recorded.\<close>

definition answer_fits :: "entry_batch \<Rightarrow> seal_answer \<Rightarrow> bool" where
  "answer_fits eb a \<longleftrightarrow>
     (let s = eb_seal eb; x = sa_seal_index a mod SEALS_PER_LOAD;
          e = min (sa_context_end_seal a - load_index s * SEALS_PER_LOAD) SEALS_PER_LOAD
      in sa_seal_index a div SEALS_PER_LOAD = load_index s \<and> \<not> is_sealed s x \<and> seal_full (eb_data eb) x \<and>
         sa_miner_id a \<noteq> zero_id \<and> miner_ok s (sa_miner_id a) \<and>
         load_index s * SEALS_PER_LOAD < sa_context_end_seal a \<and>
         sa_context_end_seal a - load_index s * SEALS_PER_LOAD < 65536 \<and> x < e \<and>
         (\<forall>c \<in> set (seal_contexts s). e \<le> end_seal_index c \<longrightarrow> context_digest c = sa_seal_context a) \<and>
         get_seal_context_digest s x \<in> {None, Some (sa_seal_context a)})"

lemma submit_preserves_plain:
  assumes ok: "entry_batch_ok eb" and fits: "answer_fits eb a" and x: "x = sa_seal_index a mod SEALS_PER_LOAD"
    and sealed: "seal keccak (seal_content (eb_data eb) x) (sa_miner_id a) (sa_seal_context a)
                   (global_seal_sector (eb_seal eb) x) = Ok (sa_sealed_data a)"
  shows "\<exists>eb'. submit_seal_result eb a = Ok eb' \<and> entry_batch_ok eb' \<and>
           (\<forall>y. is_sealed (eb_seal eb') y \<longleftrightarrow> y = x \<or> is_sealed (eb_seal eb) y) \<and>
           (\<forall>off. bytes_at (eb_data eb') off = None \<longleftrightarrow> bytes_at (eb_data eb) off = None) \<and>
           (\<forall>off. plain_byte keccak eb' off = plain_byte keccak eb off)"
proof -
  let ?s = "eb_seal eb" and ?d = "eb_data eb"
  have x64: "x < 64" by (simp add: x layout_values)
  note f = fits [unfolded answer_fits_def Let_def x [symmetric]]
  have bok: "batch_ok ?d" and cok: "contexts_ok ?s" using ok by (simp_all add: entry_batch_ok_def)
  obtain s' where s': "set_seal_context ?s (sa_seal_context a) (sa_context_end_seal a) (sa_miner_id a) = Ok s'"
    "contexts_ok s'" "miner_id s' = sa_miner_id a" "load_index s' = load_index ?s" "bitmap s' = bitmap ?s"
    and dg: "\<And>i. get_seal_context_digest s' i =
        (case get_seal_context_digest ?s i of
           None \<Rightarrow> if i < min (sa_context_end_seal a - load_index ?s * SEALS_PER_LOAD) SEALS_PER_LOAD then Some (sa_seal_context a) else None
         | Some d \<Rightarrow> Some d)"
    using set_seal_context_spec [OF cok, of "sa_miner_id a" "sa_context_end_seal a" _ "sa_seal_context a"] f by blast
  have pres: "present ?d (x * 4096) ((x + 1) * 4096)" using f seal_full_present by blast
  let ?m = "keccak (compute_first_mask_seed (sa_miner_id a) (sa_seal_context a) (global_seal_sector ?s x))"
  have sc: "32 dvd length (seal_content ?d x)" by (simp add: seal_content_def)
  obtain c where c: "seal_with_mask keccak (seal_content ?d x) ?m = Ok c" "length c = length (seal_content ?d x)"
    "unseal_with_mask keccak c ?m = Ok (seal_content ?d x)" using unseal_seal_mask [OF sc] by blast
  have "c = sa_sealed_data a" using c(1) sealed by (simp add: seal_def seal_with_mask_seed_def)
  with c have len: "length (sa_sealed_data a) = 4096" and un: "unseal_with_mask keccak (sa_sealed_data a) ?m = Ok (seal_content ?d x)"
    by (simp_all add: seal_content_def)
  obtain d' where d': "put_data ?d (x * BYTES_PER_SEAL) (sa_sealed_data a) = Ok (Some d')" "batch_ok d'"
    "\<And>off. bytes_at d' off = (if x * 4096 \<le> off \<and> off < x * 4096 + 4096 then Some (sa_sealed_data a ! (off - x * 4096)) else bytes_at ?d off)"
  proof -
    have "sa_sealed_data a \<noteq> []" "x * 4096 + length (sa_sealed_data a) \<le> BYTES_PER_LOAD"
      "present ?d (x * 4096) (x * 4096 + length (sa_sealed_data a))"
      using len x64 pres by (auto simp: layout_values algebra_simps)
    from put_data_refines [OF bok this] that show ?thesis unfolding len layout_values by blast
  qed
  let ?eb = "\<lparr>eb_seal = mark_sealed s' x, eb_data = d'\<rparr>"
  have run: "submit_seal_result eb a = Ok ?eb"
    using f s'(1) d'(1) by (simp add: submit_seal_result_def x [symmetric])
  have sl: "is_sealed (mark_sealed s' x) y \<longleftrightarrow> y = x \<or> is_sealed ?s y" for y
    using is_sealed_mark [OF x64, of s' y] s'(5) by (simp add: is_sealed_def)
  have md: "get_seal_context_digest (mark_sealed s' x) y = get_seal_context_digest s' y"
    "miner_id (mark_sealed s' x) = sa_miner_id a" "load_index (mark_sealed s' x) = load_index ?s" for y
    using s' by (simp_all add: mark_sealed_def get_digest_iff)
  have dgx: "get_seal_context_digest s' x = Some (sa_seal_context a)" using dg [of x] f by auto
  have none: "bytes_at d' off = None \<longleftrightarrow> bytes_at ?d off = None" for off
    using d'(3) [of off] pres by (auto simp: present_def algebra_simps)
  have old: "seal_full ?d y \<and> get_seal_context_digest ?s y \<noteq> None \<and> miner_id ?s = sa_miner_id a" if "is_sealed ?s y" for y
    using ok that f by (auto simp: entry_batch_ok_def miner_ok_def)
  have "seal_full d' y \<and> get_seal_context_digest s' y \<noteq> None" if "y = x \<or> is_sealed ?s y" for y
    using that old [of y] f dgx dg [of y] none by (auto simp: seal_full_def present_def)
  then have "entry_batch_ok ?eb"
    using d'(2) s'(2) f unfolding entry_batch_ok_def by (auto simp: sl md contexts_ok_def) (auto simp: mark_sealed_def)
  moreover have "plain_byte keccak ?eb off = plain_byte keccak eb off" for off
  proof (cases "off div 4096 = x")
    case True
    have "seal_content d' x = sa_sealed_data a"
      unfolding seal_content_def using len by (intro nth_equalityI) (simp_all add: nth_content d'(3))
    moreover have "unseal_chunk keccak (mark_sealed s' x) (sa_sealed_data a) x = Ok (seal_content ?d x)"
      using un by (simp add: unseal_chunk_sealed sl md dgx chunk_mask_def global_seal_sector_def)
    moreover have "seal_content ?d x ! (off mod 4096) = the (bytes_at ?d off)"
      using True by (auto simp: seal_content_def nth_content)
    ultimately show ?thesis using True f by (simp add: plain_byte_def sl)
  next
    case False
    show ?thesis
    proof (rule plain_byte_cong [where x = "off div 4096"])
      fix o' assume "off div 4096 * 4096 \<le> o'" "o' < (off div 4096 + 1) * 4096"
      then have "\<not> (x * 4096 \<le> o' \<and> o' < x * 4096 + 4096)" using False by auto
      then show "bytes_at (eb_data ?eb) o' = bytes_at ?d o'" using d'(3) [of o'] by (simp only: if_False entry_batch.simps)
    next
      assume "is_sealed ?s (off div 4096)"
      with old [OF this] show "get_seal_context_digest (eb_seal ?eb) (off div 4096) = get_seal_context_digest ?s (off div 4096) \<and>
          miner_id (eb_seal ?eb) = miner_id ?s \<and> load_index (eb_seal ?eb) = load_index ?s"
        using dg by (auto simp: md)
    qed (use False in \<open>simp_all add: sl\<close>)
  qed
  ultimately show ?thesis using run sl none by (intro exI [of _ ?eb]) simp
qed

subsection \<open>Truncating\<close>

lemma unseal_range_plain:
  assumes ok: "entry_batch_ok eb" and T: "T = t * 256" "T \<le> BYTES_PER_LOAD" and b: "\<forall>x < b. x * 4096 < T"
  shows "a \<le> b \<Longrightarrow> batch_ok d \<Longrightarrow>
    \<forall>off \<ge> a * 4096. bytes_at d off = (if off < T then bytes_at (eb_data eb) off else None) \<Longrightarrow>
    \<exists>d'. unseal_range keccak (eb_seal eb) t d [a..<b] = Ok (d', filter (is_sealed (eb_seal eb)) [a..<b]) \<and> batch_ok d' \<and>
      (\<forall>off. bytes_at d' off =
         (if a * 4096 \<le> off \<and> off < b * 4096 \<and> off < T \<and> bytes_at (eb_data eb) off \<noteq> None
          then Some (plain_byte keccak eb off) else bytes_at d off))"
proof (induction "b - a" arbitrary: a d)
  case 0
  then show ?case by auto
next
  case (Suc n)
  let ?s = "eb_seal eb" and ?p = "plain_byte keccak eb"
  have ab: "a < b" and n: "n = b - Suc a" "Suc a \<le> b" using Suc.hyps(2) by auto
  have upt: "[a..<b] = a # [Suc a..<b]" using ab by (rule upt_conv_Cons)
  have below: "bytes_at d off = (if off < T then bytes_at (eb_data eb) off else None)" if "a * 4096 \<le> off" for off
    using Suc.prems(3) that by blast
  show ?case
  proof (cases "is_sealed ?s a")
    case False
    have "\<forall>off \<ge> Suc a * 4096. bytes_at d off = (if off < T then bytes_at (eb_data eb) off else None)"
      using below by auto
    from Suc.hyps(1) [OF n Suc.prems(2) this] obtain d' where
      d': "unseal_range keccak ?s t d [Suc a..<b] = Ok (d', filter (is_sealed ?s) [Suc a..<b])" "batch_ok d'"
      "\<And>off. bytes_at d' off = (if Suc a * 4096 \<le> off \<and> off < b * 4096 \<and> off < T \<and> bytes_at (eb_data eb) off \<noteq> None
          then Some (?p off) else bytes_at d off)" by blast
    have plain: "bytes_at d off = Some (?p off)" if "a * 4096 \<le> off" "off < Suc a * 4096" "off < T" "bytes_at (eb_data eb) off \<noteq> None" for off
      using plain_unsealed [OF False, of off keccak] below [of off] that by simp
    have "bytes_at d' off = (if a * 4096 \<le> off \<and> off < b * 4096 \<and> off < T \<and> bytes_at (eb_data eb) off \<noteq> None
          then Some (?p off) else bytes_at d off)" for off
    proof (cases "Suc a * 4096 \<le> off")
      case True
      then have "a * 4096 \<le> off" by simp
      with True show ?thesis unfolding d'(3) by simp
    next
      case False
      with plain [of off] show ?thesis unfolding d'(3) by simp
    qed
    with d'(1,2) upt False show ?thesis by (intro exI [of _ d']) simp
  next
    case True
    define l where "l = min (T - a * 4096) 4096"
    have aT: "a * 4096 < T" using b ab by blast
    have l: "0 < l" "l \<le> 4096" "32 dvd l" "a * 4096 + l \<le> T" using aT T(1) by (auto simp: l_def min_def)
    have full: "present (eb_data eb) (a * 4096) ((a + 1) * 4096)" using ok True seal_full_present by (simp add: entry_batch_ok_def)
    have same: "bytes_at d off = bytes_at (eb_data eb) off" if "a * 4096 \<le> off" "off < a * 4096 + l" for off
      using below [of off] that l(4) by simp
    have pd: "present d (a * 4096) (a * 4096 + l)" using full same l(2) by (auto simp: present_def)
    have "content d (a * 4096) (a * 4096 + l) = content (eb_data eb) (a * 4096) (a * 4096 + l)"
      by (rule content_cong) (use same in blast)
    then have get: "get_data d (a * 4096) l = Ok (Some (content (eb_data eb) (a * 4096) (a * 4096 + l)))"
      using get_data_refines [OF Suc.prems(2) l(1), of "a * 4096"] l(4) T(2) pd by simp
    note un = unseal_prefix_plain [OF ok l(2,3), of keccak a]
    define c where "c = map ?p [a * 4096..<a * 4096 + l]"
    have c: "length c = l" "c \<noteq> []" using l(1) by (auto simp: c_def)
    obtain d1 where d1: "put_data d (a * 4096) c = Ok (Some d1)" "batch_ok d1"
      "\<And>off. bytes_at d1 off = (if a * 4096 \<le> off \<and> off < a * 4096 + l then Some (c ! (off - a * 4096)) else bytes_at d off)"
      using put_data_refines [OF Suc.prems(2) c(2), of "a * 4096"] c(1) l(4) T(2) pd by auto
    have cn: "c ! (off - a * 4096) = ?p off" if "a * 4096 \<le> off" "off < a * 4096 + l" for off
      using that by (simp add: c_def)
    have "\<forall>off \<ge> Suc a * 4096. bytes_at d1 off = (if off < T then bytes_at (eb_data eb) off else None)"
      using below d1(3) l(2) by auto
    from Suc.hyps(1) [OF n d1(2) this] obtain d' where
      d': "unseal_range keccak ?s t d1 [Suc a..<b] = Ok (d', filter (is_sealed ?s) [Suc a..<b])" "batch_ok d'"
      "\<And>off. bytes_at d' off = (if Suc a * 4096 \<le> off \<and> off < b * 4096 \<and> off < T \<and> bytes_at (eb_data eb) off \<noteq> None
          then Some (?p off) else bytes_at d1 off)" by blast
    have bt: "t * BYTES_PER_SECTOR = T" "a * BYTES_PER_SEAL = a * 4096" "BYTES_PER_SEAL = 4096" using T by (simp_all add: layout_values)
    have run: "unseal_range keccak ?s t d [a..<b] = Ok (d', a # filter (is_sealed ?s) [Suc a..<b])"
      unfolding upt unseal_range.simps Let_def bt l_def [symmetric] get un rbind.simps option.case c_def [symmetric] d1(1) d'(1)
      using True aT by simp
    have "l = 4096 \<or> a * 4096 + l = T" using aT by (auto simp: l_def min_def)
    then have edge: "a * 4096 + l \<le> off \<Longrightarrow> off < Suc a * 4096 \<Longrightarrow> \<not> off < T" for off by auto
    have inb: "off < b * 4096" if "off < a * 4096 + l" for off
    proof -
      have "Suc a * 4096 \<le> b * 4096" using ab by (intro mult_le_mono1) simp
      then show ?thesis using that l(2) by simp
    qed
    have "bytes_at d' off = (if a * 4096 \<le> off \<and> off < b * 4096 \<and> off < T \<and> bytes_at (eb_data eb) off \<noteq> None
          then Some (?p off) else bytes_at d off)" for off
    proof (cases "a * 4096 \<le> off \<and> off < a * 4096 + l")
      case True
      then have "bytes_at (eb_data eb) off \<noteq> None" using full l(2) unfolding present_def by auto
      moreover have "off < b * 4096" "off < T" "\<not> Suc a * 4096 \<le> off" using True inb l by auto
      ultimately show ?thesis unfolding d'(3) d1(3) using True cn by simp
    next
      case False
      show ?thesis
      proof (cases "Suc a * 4096 \<le> off")
        case t: True
        then have "a * 4096 \<le> off" by simp
        with t False show ?thesis unfolding d'(3) d1(3) by auto
      next
        case f: False
        with edge [of off] False have "\<not> (a * 4096 \<le> off \<and> off < T)" by auto
        with f False show ?thesis unfolding d'(3) d1(3) by auto
      qed
    qed
    with run d'(2) upt True show ?thesis by (intro exI [of _ d']) simp
  qed
qed

lemma truncate_preserves_plain:
  assumes ok: "entry_batch_ok eb" and t: "0 < t" "t < SECTORS_PER_LOAD"
  defines "first \<equiv> truncated_seal_index (eb_seal eb) (t div 16)"
  shows "\<exists>eb' idx. truncate_batch keccak eb t = Ok (eb', idx) \<and> entry_batch_ok eb' \<and>
     (\<forall>off. bytes_at (eb_data eb') off \<noteq> None \<longleftrightarrow> off < t * 256 \<and> bytes_at (eb_data eb) off \<noteq> None) \<and>
     (\<forall>off < t * 256. bytes_at (eb_data eb) off \<noteq> None \<longrightarrow> plain_byte keccak eb' off = plain_byte keccak eb off) \<and>
     (\<forall>y. is_sealed (eb_seal eb') y \<longleftrightarrow> is_sealed (eb_seal eb) y \<and> y < first) \<and>
     set idx = {y. is_sealed (eb_seal eb) y \<and> first \<le> y \<and> y * 16 < t}"
proof -
  let ?s = "eb_seal eb" and ?d = "eb_data eb"
  have bok: "batch_ok ?d" and cok: "contexts_ok ?s" using ok by (simp_all add: entry_batch_ok_def)
  have t1: "t < 1024" using t(2) by (simp add: layout_values)
  define r lst where "r = t div 16" and "lst = (t - 1) div 16"
  have r: "r < 64" "lst < 64" using t1 by (auto simp: r_def lst_def)
  have u16: "as_u16 (t div SECTORS_PER_SEAL) = r" "as_u16 ((t - 1) div SECTORS_PER_SEAL) = lst"
    using r by (simp_all add: as_u16_def layout_values r_def lst_def)
  have fr: "first \<le> r" using truncated_seal_index_le [OF cok] by (simp add: first_def r_def)
  have fl: "first \<le> lst + 1" using fr by (auto simp: r_def lst_def)
  obtain d0 where d0: "truncate_data ?d (t * 256) = Ok d0" "batch_ok d0"
    "\<And>off. bytes_at d0 off = (if off < t * 256 then bytes_at ?d off else None)"
    using truncate_data_refines [OF bok, of "t * 256"] t1 t(1) by (auto simp: layout_values)
  have xs: "\<forall>x < lst + 1. x * 4096 < t * 256"
  proof (intro allI impI)
    fix x assume "x < lst + 1"
    then have "x * 16 \<le> lst * 16" by simp
    also have "\<dots> \<le> t - 1" by (simp add: lst_def)
    finally show "x * 4096 < t * 256" using t(1) by linarith
  qed
  obtain d' where d': "unseal_range keccak ?s t d0 [first..<lst + 1] = Ok (d', filter (is_sealed ?s) [first..<lst + 1])" "batch_ok d'"
    and at: "\<And>off. bytes_at d' off = (if first * 4096 \<le> off \<and> off < (lst + 1) * 4096 \<and> off < t * 256 \<and> bytes_at ?d off \<noteq> None
          then Some (plain_byte keccak eb off) else bytes_at d0 off)"
    using unseal_range_plain [OF ok refl _ xs fl d0(2), of keccak] d0(3) t1 by (auto simp: layout_values)
  obtain s' where s': "truncate_seal_info ?s r = Ok s'" "contexts_ok s'" "miner_id s' = miner_id ?s" "load_index s' = load_index ?s"
    and sl: "\<And>i. is_sealed s' i \<longleftrightarrow> is_sealed ?s i \<and> i < first"
    and dg: "\<And>i. i < first \<Longrightarrow> get_seal_context_digest s' i = get_seal_context_digest ?s i"
    using truncate_seal_info_spec [OF cok r(1), of first] by (auto simp: first_def r_def)
  let ?eb = "\<lparr>eb_seal = s', eb_data = d'\<rparr>" and ?idx = "filter (is_sealed ?s) [first..<lst + 1]"
  have run: "truncate_batch keccak eb t = Ok (?eb, ?idx)"
    using t d0(1) d'(1) s'(1) unfolding truncate_batch_def truncate_seal_def Let_def u16
    by (simp add: layout_values first_def r_def [symmetric])
  have lT: "t * 256 \<le> (lst + 1) * 4096"
    using dividend_less_div_times [of 16 "t - 1"] t(1) by (simp add: lst_def)
  have at': "bytes_at d' off = (if \<not> off < t * 256 then None
       else if first * 4096 \<le> off \<and> bytes_at ?d off \<noteq> None then Some (plain_byte keccak eb off) else bytes_at ?d off)" for off
    using at [of off] d0(3) [of off] lT by auto
  then have some: "bytes_at d' off \<noteq> None \<longleftrightarrow> off < t * 256 \<and> bytes_at ?d off \<noteq> None" for off by auto
  have fT: "first * 4096 \<le> t * 256"
    using fr div_times_less_eq_dividend [of t 16] by (simp add: r_def)
  have kept: "off < first * 4096" if "y < first" "off < (y + 1) * 4096" for y off
  proof -
    have "(y + 1) * 4096 \<le> first * 4096" using that(1) by (intro mult_le_mono1) simp
    with that(2) show ?thesis by (rule less_le_trans)
  qed
  have "seal_full d' y" if y: "is_sealed ?s y" "y < first" for y
    unfolding seal_full_def present_def layout_values
  proof (intro allI impI)
    fix off assume off: "y * 4096 \<le> off" "off < (y + 1) * 4096"
    have "seal_full ?d y" using ok y(1) by (simp add: entry_batch_ok_def)
    then have "bytes_at ?d off \<noteq> None" using off unfolding seal_full_def present_def layout_values by blast
    moreover have "off < t * 256" using kept [OF y(2) off(2)] fT by (rule less_le_trans)
    ultimately show "bytes_at d' off \<noteq> None" using some by blast
  qed
  then have eok: "entry_batch_ok ?eb" using ok d'(2) s'(2,3) sl dg unfolding entry_batch_ok_def by auto
  have "plain_byte keccak ?eb off = plain_byte keccak eb off" if "off < t * 256" "bytes_at ?d off \<noteq> None" for off
  proof (cases "off div 4096 < first")
    case True
    show ?thesis
    proof (rule plain_byte_cong [where x = "off div 4096"])
      fix o' assume "o' < (off div 4096 + 1) * 4096"
      then have lt: "o' < first * 4096" by (rule kept [OF True])
      have "o' < t * 256" using lt fT by (rule less_le_trans)
      moreover have "\<not> first * 4096 \<le> o'" using lt by (simp only: not_le)
      ultimately show "bytes_at (eb_data ?eb) o' = bytes_at ?d o'" unfolding entry_batch.simps at' by simp
    qed (use True sl dg s' in auto)
  next
    case False
    then have "first * 4096 \<le> off" by (simp add: not_less less_eq_div_iff_mult_less_eq)
    with False sl at' [of off] that show ?thesis by (simp add: plain_byte_def)
  qed
  moreover have "set ?idx = {y. is_sealed ?s y \<and> first \<le> y \<and> y * 16 < t}"
  proof -
    have iff: "y < lst + 1 \<longleftrightarrow> y * 16 < t" for y
    proof -
      have "y \<le> (t - 1) div 16 \<longleftrightarrow> y * 16 \<le> t - 1" by (rule less_eq_div_iff_mult_less_eq) simp
      then show ?thesis using t(1) unfolding lst_def by linarith
    qed
    show ?thesis unfolding set_filter set_upt iff [symmetric] atLeastLessThan_iff by blast
  qed
  moreover have "bytes_at (eb_data ?eb) off \<noteq> None \<longleftrightarrow> off < t * 256 \<and> bytes_at ?d off \<noteq> None" for off
    using some by simp
  moreover have "is_sealed (eb_seal ?eb) y \<longleftrightarrow> is_sealed ?s y \<and> y < first" for y using sl by simp
  ultimately show ?thesis using run eok by blast
qed

end
