(* ===== verification/Load_Chunk_Correct.thy ===== *)
theory Load_Chunk_Correct
  imports Entry_Batch_Laws
begin

text \<open>
  The properties of the load chunk and its sealing. \<open>bytes_at\<close> is the content of the data as a map,
  \<open>plain_byte\<close> the plain text behind the sealing, \<open>entry_batch_ok\<close> the invariant. The examples use
  an identity for Keccak: nothing here depends on the digest.
\<close>

subsection \<open>The cipher\<close>

text \<open>
  C11. Unsealing undoes sealing: whole 32-byte words sealed for a miner, a context and a sector come
  back unchanged, and sealing keeps the length.
\<close>

theorem unseal_seal:
  assumes "32 dvd length data"
  shows "\<exists>s. seal keccak data miner ctx sector = Ok s \<and> length s = length data \<and>
             unseal keccak s miner ctx sector = Ok data"
  using unseal_seal_mask [OF assms, of keccak]
  by (simp add: seal_def unseal_def seal_with_mask_seed_def unseal_with_mask_seed_def)

theorem unseal_seal_witness:
  "\<exists>s. seal (\<lambda>x. take 32 x) (replicate 64 5) [1] [2] 3 = Ok s \<and> length s = 64 \<and>
       unseal (\<lambda>x. take 32 x) s [1] [2] 3 = Ok (replicate 64 (5::8 word))"
  using unseal_seal [of "replicate 64 (5::8 word)" "\<lambda>x. take 32 x" "[1]" "[2]" 3] by simp

subsection \<open>The data of a load chunk\<close>

text \<open>
  C12. \<open>insert_data\<close> into free sectors refines the extension of the map of bytes: it succeeds, keeps the
  invariant, changes exactly those bytes, and reports exactly the seal chunks that became complete.
\<close>

theorem insert_data_refinement:
  assumes "batch_ok (Incomplete xs)" and "length data = n * 256" and "0 < n" and "a + n \<le> SECTORS_PER_LOAD"
    and "\<forall>off \<in> {a * 256..<(a + n) * 256}. bytes_at (Incomplete xs) off = None"
  shows "\<exists>d' idx. insert_data (Incomplete xs) (a * 256) data = Ok (d', idx) \<and> batch_ok d' \<and>
     (\<forall>off. bytes_at d' off =
        (if off \<in> {a * 256..<(a + n) * 256} then Some (data ! (off - a * 256)) else bytes_at (Incomplete xs) off)) \<and>
     set idx = {x. seal_full d' x \<and> \<not> seal_full (Incomplete xs) x}"
proof -
  have "free_range xs a (a + n)" unfolding free_range_bytes by (rule assms(5))
  then have "\<exists>d' idx. insert_data (Incomplete xs) (a * 256) data = Ok (d', idx) \<and> batch_ok d' \<and>
     (\<forall>off. bytes_at d' off =
        (if a * 256 \<le> off \<and> off < (a + n) * 256 then Some (data ! (off - a * 256)) else list_lookup xs off)) \<and>
     set idx = {x. seal_full d' x \<and> \<not> seal_full (Incomplete xs) x}"
    using assms by (intro insert_data_refines) simp_all
  then show ?thesis unfolding atLeastLessThan_iff bytes_at_simps(2) .
qed

theorem insert_data_refinement_witness:
  "\<exists>d' idx. insert_data (Incomplete [\<lparr>start_sector = 0, pb_data = replicate 256 1\<rparr>]) (2 * 256) (replicate (1 * 256) 7) = Ok (d', idx) \<and>
     batch_ok d' \<and>
     (\<forall>off. bytes_at d' off =
        (if off \<in> {2 * 256..<(2 + 1) * 256} then Some (replicate (1 * 256) 7 ! (off - 2 * 256))
         else bytes_at (Incomplete [\<lparr>start_sector = 0, pb_data = replicate 256 1\<rparr>]) off)) \<and>
     set idx = {x. seal_full d' x \<and> \<not> seal_full (Incomplete [\<lparr>start_sector = 0, pb_data = replicate 256 1\<rparr>]) x}"
  by (rule insert_data_refinement)
     (auto simp: batch_ok_def whole_def end_sector_def bytes_to_chunks_def layout_values pb_lookup_def first_byte_def last_byte_def)

text \<open>
  C13. Data written after a truncation is read back, and everything below the truncation point reads
  as before: \<open>truncate\<close>, \<open>insert_data\<close> and \<open>get\<close> composed.
\<close>

theorem truncate_insert_get:
  assumes "batch_ok d" and "256 dvd n" and "0 < n" and "n < BYTES_PER_LOAD" and "xs \<noteq> []" and "256 dvd length xs"
    and "n + length xs \<le> BYTES_PER_LOAD"
  shows "\<exists>d1 d2 idx. truncate_data d n = Ok d1 \<and> insert_data d1 n xs = Ok (d2, idx) \<and> batch_ok d2 \<and>
     get_data d2 n (length xs) = Ok (Some xs) \<and> (\<forall>b l. 0 < l \<longrightarrow> b + l \<le> n \<longrightarrow> get_data d2 b l = get_data d b l)"
  using chunk_store.cut_then_store [OF assms] by metis

theorem truncate_insert_get_witness:
  "\<exists>d1 d2 idx. truncate_data (Complete (replicate 262144 1)) 512 = Ok d1 \<and> insert_data d1 512 (replicate 256 9) = Ok (d2, idx) \<and>
     batch_ok d2 \<and> get_data d2 512 (length (replicate 256 (9::8 word))) = Ok (Some (replicate 256 9)) \<and>
     (\<forall>b l. 0 < l \<longrightarrow> b + l \<le> 512 \<longrightarrow> get_data d2 b l = get_data (Complete (replicate 262144 1)) b l)"
  by (rule truncate_insert_get) (simp_all add: batch_ok_def layout_values)

text \<open>
  Writing over data that is already there is refused with an error, whatever part of it overlaps.
\<close>

lemma insert_data_overlap:
  assumes "batch_ok d" and "xs \<noteq> []" and "256 dvd a" and "256 dvd length xs" and "a + length xs \<le> BYTES_PER_LOAD"
    and "\<exists>off \<in> {a..<a + length xs}. bytes_at d off \<noteq> None"
  shows "\<exists>e. insert_data d a xs = Err e"
  by (rule chunk_store.occupied [OF assms])

lemma insert_data_overlap_example:
  "\<exists>e. insert_data (Incomplete [\<lparr>start_sector = 1, pb_data = replicate 256 1\<rparr>]) 0 (replicate 1024 7) = Err e"
  by (rule insert_data_overlap)
     (auto simp: batch_ok_def whole_def end_sector_def bytes_to_chunks_def layout_values pb_lookup_def first_byte_def
       last_byte_def intro!: bexI [of _ 256])

subsection \<open>The sealing state\<close>



subsection \<open>The load chunk\<close>

text \<open>A complete load chunk with nothing sealed, the same chunk with its first seal chunk sealed, and the
  answer that seals it.\<close>

definition example_batch :: entry_batch where
  "example_batch = \<lparr>eb_seal = new_seal_info 0, eb_data = Complete (replicate 262144 1)\<rparr>"

definition example_sealed :: entry_batch where
  "example_sealed = example_batch\<lparr>eb_seal := \<lparr>bitmap = 1, load_index = 0, miner_id = [1],
     seal_contexts = [\<lparr>context_digest = [2], end_seal_index = 64\<rparr>]\<rparr>\<rparr>"

definition example_answer :: "(byte list \<Rightarrow> h256) \<Rightarrow> seal_answer" where
  "example_answer keccak = \<lparr>sa_seal_index = 0, sa_version = 0,
     sa_sealed_data = (case seal keccak (seal_content (eb_data example_batch) 0) [1] [2] 0 of Ok c \<Rightarrow> c | _ \<Rightarrow> []),
     sa_miner_id = [1], sa_seal_context = [2], sa_context_end_seal = 64\<rparr>"

lemma example_present: "b \<le> 262144 \<Longrightarrow> present (eb_data example_batch) a b" "eb_data example_sealed = eb_data example_batch"
  by (auto simp: present_def example_batch_def example_sealed_def vec_get_def)

lemma example_full: "x < 64 \<Longrightarrow> seal_full (eb_data example_batch) x"
  unfolding seal_full_def by (rule example_present) (simp add: layout_values)

lemma example_batch_sealed [simp]: "\<not> is_sealed (eb_seal example_batch) x"
  by (simp add: example_batch_def new_seal_info_def is_sealed_def)

lemma example_batch_ok: "entry_batch_ok example_batch"
  by (simp add: entry_batch_ok_def) (simp add: example_batch_def batch_ok_def contexts_ok_def new_seal_info_def layout_values)

lemma example_sealed_iff: "is_sealed (eb_seal example_sealed) x \<longleftrightarrow> x = 0"
  by (simp add: example_sealed_def is_sealed_def bit_1_iff)

lemma zero_id_not_one [simp]: "zero_id \<noteq> [1]" "[1] \<noteq> zero_id"
  by (auto simp: zero_id_def dest!: arg_cong [of _ _ length])

lemma example_sealed_ok: "entry_batch_ok example_sealed"
  using example_full [of 0] example_batch_ok
  by (simp add: entry_batch_ok_def example_sealed_iff example_present(2))
     (simp add: example_sealed_def contexts_ok_def get_digest_iff layout_values)

text \<open>
  C15. Reading unsealed data returns the plain text of the sectors asked for, whether they are
  sealed, unsealed or a mixture, when the read starts inside a seal chunk or in an unsealed one.
\<close>

theorem get_unsealed_data_plain:
  assumes "entry_batch_ok eb" and "0 < n" and "start + n \<le> SECTORS_PER_LOAD"
    and "present (eb_data eb) (start * 256) ((start + n) * 256)"
    and "start mod 16 \<noteq> 0 \<or> \<not> is_sealed (eb_seal eb) (start div 16)"
  shows "get_unsealed_data keccak eb start n =
           Ok (Some (map (plain_byte keccak eb) [start * 256..<(start + n) * 256]))"
proof -
  have "unsealed_byte keccak eb start off = plain_byte keccak eb off" if "start * 256 \<le> off" for off
  proof (cases "start mod 16 = 0 \<and> off < start * 256 + 4096")
    case True
    then obtain x where x: "start = x * 16" by (metis mod_0_imp_dvd dvd_def mult.commute)
    with assms(5) have "\<not> is_sealed (eb_seal eb) x" by simp
    from plain_unsealed [OF this, of off keccak] True that x show ?thesis by (simp add: unsealed_byte_def)
  qed (auto simp: unsealed_byte_def)
  then show ?thesis unfolding get_unsealed_exact [OF assms(1-4)] by simp
qed

theorem get_unsealed_data_plain_witness:
  "get_unsealed_data (\<lambda>x. x) example_sealed 1 40 =
     Ok (Some (map (plain_byte (\<lambda>x. x) example_sealed) [1 * 256..<(1 + 40) * 256]))"
  by (rule get_unsealed_data_plain [OF example_sealed_ok])
     (simp_all add: example_present layout_values)

text \<open>
  C16. A read that starts at the beginning of a sealed seal chunk returns that chunk as it is stored,
  sealed, and the plain text after it.
\<close>

theorem get_unsealed_data_aligned:
  assumes "entry_batch_ok eb" and "is_sealed (eb_seal eb) x" and "16 \<le> n" and "x * 16 + n \<le> SECTORS_PER_LOAD"
    and "present (eb_data eb) (x * 16 * 256) ((x * 16 + n) * 256)"
  shows "get_unsealed_data keccak eb (x * 16) n =
           Ok (Some (seal_content (eb_data eb) x @ map (plain_byte keccak eb) [(x + 1) * 4096..<(x * 16 + n) * 256]))"
proof -
  have e: "x * 16 * 256 = x * 4096" "(x * 16 + n) * 256 = (x + 1) * 4096 + (n - 16) * 256" using assms(3) by auto
  have "[x * 16 * 256..<(x * 16 + n) * 256] = [x * 4096..<(x + 1) * 4096] @ [(x + 1) * 4096..<(x * 16 + n) * 256]"
    unfolding e by (rule upt_add_eq_append) simp
  moreover have "map (unsealed_byte keccak eb (x * 16)) [x * 4096..<(x + 1) * 4096] = seal_content (eb_data eb) x"
    by (simp add: seal_content_def content_def unsealed_byte_def)
  moreover have "map (unsealed_byte keccak eb (x * 16)) [(x + 1) * 4096..<(x * 16 + n) * 256] =
      map (plain_byte keccak eb) [(x + 1) * 4096..<(x * 16 + n) * 256]"
    by (simp add: unsealed_byte_def)
  ultimately show ?thesis
    unfolding get_unsealed_exact [OF assms(1) less_le_trans [OF _ assms(3)] assms(4,5), simplified] by simp
qed

theorem get_unsealed_data_aligned_witness:
  "get_unsealed_data (\<lambda>x. x) example_sealed (0 * 16) 20 =
     Ok (Some (seal_content (eb_data example_sealed) 0 @
                map (plain_byte (\<lambda>x. x) example_sealed) [(0 + 1) * 4096..<(0 * 16 + 20) * 256]))"
  by (rule get_unsealed_data_aligned [OF example_sealed_ok])
     (simp_all add: example_sealed_iff example_present layout_values)

text \<open>
  C17. Submitting the sealed form of a complete seal chunk under a context that fits succeeds, keeps the
  invariant, marks exactly that chunk, and changes no byte of the plain text.
\<close>

theorem submit_seal_result_plain:
  assumes "entry_batch_ok eb" and "answer_fits eb a" and "x = sa_seal_index a mod SEALS_PER_LOAD"
    and "seal keccak (seal_content (eb_data eb) x) (sa_miner_id a) (sa_seal_context a)
           (global_seal_sector (eb_seal eb) x) = Ok (sa_sealed_data a)"
  shows "\<exists>eb'. submit_seal_result eb a = Ok eb' \<and> entry_batch_ok eb' \<and>
           (\<forall>y. is_sealed (eb_seal eb') y \<longleftrightarrow> y = x \<or> is_sealed (eb_seal eb) y) \<and>
           (\<forall>off. bytes_at (eb_data eb') off = None \<longleftrightarrow> bytes_at (eb_data eb) off = None) \<and>
           (\<forall>off. plain_byte keccak eb' off = plain_byte keccak eb off)"
  by (rule submit_preserves_plain [OF assms])

theorem submit_seal_result_plain_witness:
  "\<exists>eb'. submit_seal_result example_batch (example_answer (\<lambda>x. x)) = Ok eb' \<and> entry_batch_ok eb' \<and>
           (\<forall>y. is_sealed (eb_seal eb') y \<longleftrightarrow> y = 0 \<or> is_sealed (eb_seal example_batch) y) \<and>
           (\<forall>off. bytes_at (eb_data eb') off = None \<longleftrightarrow> bytes_at (eb_data example_batch) off = None) \<and>
           (\<forall>off. plain_byte (\<lambda>x. x) eb' off = plain_byte (\<lambda>x. x) example_batch off)"
proof (rule submit_seal_result_plain [OF example_batch_ok])
  have "32 dvd length (seal_content (eb_data example_batch) 0)" by (simp add: seal_content_def)
  from unseal_seal_mask [OF this, of "\<lambda>x. x"] obtain c where
    "seal (\<lambda>x. x) (seal_content (eb_data example_batch) 0) [1] [2] 0 = Ok c"
    unfolding seal_def seal_with_mask_seed_def by blast
  then show "seal (\<lambda>x. x) (seal_content (eb_data example_batch) 0) (sa_miner_id (example_answer (\<lambda>x. x)))
      (sa_seal_context (example_answer (\<lambda>x. x))) (global_seal_sector (eb_seal example_batch) 0) =
      Ok (sa_sealed_data (example_answer (\<lambda>x. x)))"
    by (simp add: example_answer_def global_seal_sector_def) (simp add: example_batch_def new_seal_info_def)
  show "answer_fits example_batch (example_answer (\<lambda>x. x))"
    using example_full [of 0]
    by (simp add: answer_fits_def example_answer_def miner_ok_def get_digest_iff layout_values)
       (simp add: example_batch_def new_seal_info_def)
qed (simp add: example_answer_def)

text \<open>
  C18. Truncation keeps the invariant and the plain text below the cut, drops everything above it,
  unseals exactly the sealed chunks of the contexts that are cut, and reports those for resealing.
\<close>

theorem truncate_batch_plain:
  assumes "entry_batch_ok eb" and "0 < t" and "t < SECTORS_PER_LOAD"
  defines "first \<equiv> truncated_seal_index (eb_seal eb) (t div 16)"
  shows "\<exists>eb' idx. truncate_batch keccak eb t = Ok (eb', idx) \<and> entry_batch_ok eb' \<and>
     (\<forall>off. bytes_at (eb_data eb') off \<noteq> None \<longleftrightarrow> off < t * 256 \<and> bytes_at (eb_data eb) off \<noteq> None) \<and>
     (\<forall>off < t * 256. bytes_at (eb_data eb) off \<noteq> None \<longrightarrow> plain_byte keccak eb' off = plain_byte keccak eb off) \<and>
     (\<forall>y. is_sealed (eb_seal eb') y \<longleftrightarrow> is_sealed (eb_seal eb) y \<and> y < first) \<and>
     set idx = {y. is_sealed (eb_seal eb) y \<and> first \<le> y \<and> y * 16 < t}"
  unfolding first_def by (rule truncate_preserves_plain [OF assms(1-3)])

theorem truncate_batch_plain_witness:
  "\<exists>eb' idx. truncate_batch (\<lambda>x. x) example_sealed 20 = Ok (eb', idx) \<and> entry_batch_ok eb' \<and>
     (\<forall>off. bytes_at (eb_data eb') off \<noteq> None \<longleftrightarrow> off < 20 * 256 \<and> bytes_at (eb_data example_sealed) off \<noteq> None) \<and>
     (\<forall>off < 20 * 256. bytes_at (eb_data example_sealed) off \<noteq> None \<longrightarrow>
        plain_byte (\<lambda>x. x) eb' off = plain_byte (\<lambda>x. x) example_sealed off) \<and>
     (\<forall>y. is_sealed (eb_seal eb') y \<longleftrightarrow>
        is_sealed (eb_seal example_sealed) y \<and> y < truncated_seal_index (eb_seal example_sealed) (20 div 16)) \<and>
     set idx = {y. is_sealed (eb_seal example_sealed) y \<and>
                   truncated_seal_index (eb_seal example_sealed) (20 div 16) \<le> y \<and> y * 16 < 20}"
  by (rule truncate_batch_plain [OF example_sealed_ok]) (simp_all add: layout_values)

subsection \<open>The Merkle root\<close>

text \<open>On a power of two of leaves the file tree and the append-only tree have the same root.\<close>

lemma two_pow_gt: "Suc 0 < 2 * 2 ^ k" "\<not> 2 * 2 ^ k \<le> Suc 0"
  using one_le_power [of "2::nat" k] by linarith+

lemma up_pair_up: "even (length xs) \<Longrightarrow> up (raw_leaf_sha3 keccak) xs = pair_up (sha3_algo keccak) h xs"
  by (induction "sha3_algo keccak" h xs rule: pair_up.induct) (auto simp: raw_leaf_sha3_def sha3_algo_def)

lemma light_root_layer:
  assumes "length xs = 2 ^ k"
  shows "light_root (raw_leaf_sha3 keccak) xs = layer_at (sha3_algo keccak) 0 xs k ! 0"
proof -
  have "light_root (raw_leaf_sha3 keccak) (layer_at (sha3_algo keccak) 0 xs j) = light_root (raw_leaf_sha3 keccak) xs \<and>
      length (layer_at (sha3_algo keccak) 0 xs j) = 2 ^ (k - j)" if "j \<le> k" for j
    using that
  proof (induction j)
    case (Suc j)
    let ?l = "layer_at (sha3_algo keccak) 0 xs j"
    from Suc have IH: "light_root (raw_leaf_sha3 keccak) ?l = light_root (raw_leaf_sha3 keccak) xs" "length ?l = 2 ^ (k - j)" by auto
    have kj: "k - j = Suc (k - Suc j)" using Suc.prems by simp
    have "even (length ?l)" "1 < length ?l" unfolding IH(2) kj power_Suc by (simp_all add: two_pow_gt)
    then show ?case using IH up_pair_up [of ?l keccak j] light_root_rec [of ?l "raw_leaf_sha3 keccak"] kj by simp
  qed (simp add: assms)
  from this [of k] show ?thesis
    by (cases "layer_at (sha3_algo keccak) 0 xs k") (auto split: if_splits)
qed

text \<open>What the tree relies on of Keccak: no digest is one of the two marker hashes.\<close>

definition hash_ok :: "(byte list \<Rightarrow> h256) \<Rightarrow> bool" where
  "hash_ok keccak \<longleftrightarrow> (\<forall>m. keccak m \<noteq> h256_zero \<and> keccak m \<noteq> h256_null)"

lemma tree_depth_pow2: "tree_depth 1 (2 ^ k) = Suc k"
proof (induction k)
  case 0
  then show ?case by (simp add: tree_depth.simps)
next
  case (Suc k)
  have "(2 * 2 ^ k + 1) div 2 = (2::nat) ^ k" by simp
  then have "tree_depth 1 (2 * 2 ^ k) = Suc (tree_depth 0 (2 ^ k))"
    by (subst tree_depth.simps) (simp add: two_pow_gt)
  moreover have "tree_depth 0 (2 ^ k) = tree_depth 1 (2 ^ k)"
    by (subst (1 2) tree_depth.simps) simp
  ultimately show ?case using Suc by simp
qed

lemma sub_merkle_tree_root:
  assumes "hash_ok keccak" and "length data = 2 ^ k * 256" and "k \<le> 63"
  obtains t where "sub_merkle_tree keccak data = Ok t"
    "light_tree_root t = Ok (layer_at (sha3_algo keccak) 0 (map keccak (chunks 256 data)) k ! 0)"
proof -
  let ?L = "raw_leaf_sha3 keccak" and ?ls = "map keccak (chunks 256 data)"
  have len: "length ?ls = 2 ^ k" using assms(2) by (simp add: length_chunks)
  have "null_free_light ?L" "lt_null ?L \<notin> set (map (lt_leaf ?L) ?ls)" "map (lt_leaf ?L) ?ls = ?ls"
    using assms(1) by (auto simp: hash_ok_def null_free_light_def raw_leaf_sha3_def h256_zero_def)
  moreover have "length ?ls \<le> 2 ^ 63" unfolding len using assms(3) by (intro power_increasing) simp_all
  moreover have "?ls \<noteq> []" using len by auto
  ultimately obtain t where t: "from_iter ?L ?ls = Ok t" "stored ?L (lt_data t) (lt_links t) 0 ?ls"
    using from_iter_stored [of ?L ?ls] by metis
  have "light_tree_root t = Ok (light_root ?L ?ls)"
    using stored_root [OF t(2)] \<open>?ls \<noteq> []\<close> by (simp add: light_tree_root_def)
  moreover have "sub_merkle_tree keccak data = Ok t"
    using t(1) assms(2) by (simp add: sub_merkle_tree_def data_to_merkle_leaves_def CHUNK_SIZE_def chunks_exact_def sha3_algo_def)
  ultimately show ?thesis using light_root_layer [OF len] that by simp
qed



end
