(* ===== verification/Shared_Types_Correct.thy ===== *)
theory Shared_Types_Correct
  imports Shared_Types Example_Hash
begin

text \<open>
  The properties of \<open>Merkle_Light\<close> and \<open>Shared_Types\<close>: the padded size of a file, proofs of a file
  are complete and sound for the position they claim, and the proof of a segment leads to the
  root of its file.
\<close>

subsection \<open>Positions\<close>

lemma position_light_path:
  assumes "j < length ls" and "length ls \<le> 2 ^ 63"
  shows "position_loop (length ls) acc (rev (map snd (light_path L ls j))) = Ok (acc + j)"
  using assms
proof (induction "length ls" arbitrary: ls j acc rule: less_induct)
  case less
  show ?case
  proof (cases "1 < length ls")
    case False
    then show ?thesis using less.prems(1) by simp
  next
    case True
    then obtain s where np: "next_pow2 (length ls) = Ok (2 * s)" and s: "halves (length ls) s"
      using halves_next_pow2 less.prems(2) by metis
    have sn: "0 < s" "s < length ls" using s halves_pos by (auto simp: halves_def)
    note split = light_path_split [OF s less.prems(1), of L]
    show ?thesis
    proof (cases "j < s")
      case left: True
      have "position_loop s acc (rev (map snd (light_path L (take s ls) j))) = Ok (acc + j)"
        using less.hyps [of "take s ls" j acc] left sn less.prems(2) by simp
      with True np left split show ?thesis by simp
    next
      case False
      have "position_loop (length ls - s) (acc + s) (rev (map snd (light_path L (drop s ls) (j - s)))) = Ok (acc + s + (j - s))"
        using less.hyps [of "drop s ls" "j - s" "acc + s"] False sn less.prems by simp
      with True np False split sn show ?thesis by simp
    qed
  qed
qed

definition light_collision :: "'e light_algo \<Rightarrow> bool" where
  "light_collision L \<longleftrightarrow> (\<exists>l r l' r'. lt_node L l r = lt_node L l' r' \<and> (l, r) \<noteq> (l', r'))"

lemma position_loop_range:
  "position_loop n acc bs = Ok pos \<Longrightarrow> 0 < n \<Longrightarrow> n \<le> 2 ^ 63 \<Longrightarrow> acc \<le> pos \<and> pos - acc < n"
proof (induction n acc bs rule: position_loop.induct)
  case (2 n acc b bs)
  then have "1 < n" by (auto split: if_splits)
  then obtain s where np: "next_pow2 n = Ok (2 * s)" and s: "halves n s"
    using halves_next_pow2 2(5) by metis
  have sn: "0 < s" "s < n" using s halves_pos by (auto simp: halves_def)
  show ?case
  proof (cases b)
    case True
    then have "position_loop s acc bs = Ok pos" using 2(3) \<open>1 < n\<close> np by simp
    then show ?thesis using 2(2) [of "2 * s" s] True \<open>1 < n\<close> np sn 2(5) by simp
  next
    case False
    then have "position_loop (n - s) (acc + s) bs = Ok pos" using 2(3) \<open>1 < n\<close> np by simp
    moreover have "n - s \<le> 2 ^ 63" using 2(5) by simp
    ultimately have "acc + s \<le> pos \<and> pos - (acc + s) < n - s"
      using 2(1) [of "2 * s" s] False \<open>1 < n\<close> np sn by simp
    then show ?thesis by linarith
  qed
qed (auto split: if_splits)

lemma climb_position_sound:
  assumes "position_loop (length ls) acc (rev (map snd ps)) = Ok pos" and "length ls \<le> 2 ^ 63"
    and "climb_path L h ps = light_root L ls" and "ls \<noteq> []"
  shows "acc \<le> pos \<and> pos - acc < length ls \<and> (h = ls ! (pos - acc) \<or> light_collision L)"
  using assms
proof (induction ps arbitrary: ls acc rule: rev_induct)
  case Nil
  then show ?case by (cases ls) (auto split: if_splits)
next
  case (snoc x ps)
  obtain y b where x: "x = (y, b)" by fastforce
  have n1: "1 < length ls" using snoc.prems(1) by (auto simp: x split: if_splits)
  then obtain s where np: "next_pow2 (length ls) = Ok (2 * s)" and s: "halves (length ls) s"
    using halves_next_pow2 snoc.prems(2) by metis
  have sn: "0 < s" "s < length ls" using s halves_pos by (auto simp: halves_def)
  have root: "(if b then lt_node L (climb_path L h ps) y else lt_node L y (climb_path L h ps)) =
      lt_node L (light_root L (take s ls)) (light_root L (drop s ls))"
    using snoc.prems(3) light_root_split [OF s, of L] by (simp add: x climb_path_append)
  show ?case
  proof (cases b)
    case True
    have pos: "position_loop s acc (rev (map snd ps)) = Ok pos" using snoc.prems(1) n1 np True by (simp add: x)
    show ?thesis
    proof (cases "climb_path L h ps = light_root L (take s ls)")
      case c: True
      have "take s ls \<noteq> []" "length (take s ls) = s" "s \<le> 2 ^ 63" using sn snoc.prems(2,4) by auto
      then have "acc \<le> pos \<and> pos - acc < s \<and> (h = take s ls ! (pos - acc) \<or> light_collision L)"
        using snoc.IH [of "take s ls" acc] pos c by (simp del: nth_take)
      then show ?thesis using sn by auto
    next
      case False
      then have "light_collision L" using root True unfolding light_collision_def by force
      moreover have "acc \<le> pos \<and> pos - acc < s" using pos sn snoc.prems(2) by (intro position_loop_range) auto
      ultimately show ?thesis using sn by auto
    qed
  next
    case False
    have pos: "position_loop (length ls - s) (acc + s) (rev (map snd ps)) = Ok pos"
      using snoc.prems(1) n1 np False by (simp add: x)
    show ?thesis
    proof (cases "climb_path L h ps = light_root L (drop s ls)")
      case c: True
      have "drop s ls \<noteq> []" "length (drop s ls) = length ls - s" "length ls - s \<le> 2 ^ 63" using sn snoc.prems(2) by auto
      then have *: "acc + s \<le> pos \<and> pos - (acc + s) < length ls - s \<and> (h = drop s ls ! (pos - (acc + s)) \<or> light_collision L)"
        using snoc.IH [of "drop s ls" "acc + s"] pos c by (simp del: nth_drop)
      then have "s + (pos - (acc + s)) = pos - acc" by linarith
      with * sn show ?thesis by auto
    next
      case c: False
      then have "light_collision L" using root False unfolding light_collision_def by force
      moreover have "acc + s \<le> pos \<and> pos - (acc + s) < length ls - s" using pos sn snoc.prems(2) by (intro position_loop_range) auto
      ultimately show ?thesis using sn by auto
    qed
  qed
qed

subsection \<open>Properties\<close>

text \<open>The proof leads from the hash \<open>x\<close> to the root \<open>r\<close>.\<close>

definition fp_proves :: "'e light_algo \<Rightarrow> 'e file_proof \<Rightarrow> 'e \<Rightarrow> 'e \<Rightarrow> bool" where
  "fp_proves L p x r \<longleftrightarrow>
     (\<exists>raw. raw_file_proof p = Ok raw \<and> light_proof_item raw = Ok x \<and> light_proof_root raw = Ok r \<and>
            light_validate L raw = Ok True)"

lemma fp_proves_path:
  assumes "climb_path L x ps = r"
  shows "fp_proves L (file_proof_new (x # map fst ps @ [r]) (map snd ps)) x r"
proof (cases "ps = []")
  case True
  with assms show ?thesis
    by (simp add: fp_proves_def file_proof_new_def raw_file_proof_def light_proof_new_def light_proof_item_def
        light_proof_root_def light_validate_def vec_index_def)
next
  case False
  have s: "slice (x # map fst ps @ [r]) 1 (Suc (length ps)) = map fst ps" by (simp add: slice_def)
  have "light_validate L \<lparr>lp_lemma = x # map fst ps @ [r], lp_path = map snd ps\<rparr> = Ok True"
    using False s light_climb_path [of L x ps] assms by (simp add: light_validate_def nth_append)
  with False show ?thesis
    by (simp add: fp_proves_def file_proof_new_def raw_file_proof_def light_proof_new_def light_proof_item_def
        light_proof_root_def vec_index_def nth_append)
qed

lemma fp_provesD:
  assumes "fp_proves L p x r"
  obtains ps where "fp_path p = map snd ps" "climb_path L x ps = r"
    "fp_lemma p = (if ps = [] then [x] else x # map fst ps @ [r])"
proof -
  from assms have len: "length (fp_lemma p) = 1 \<and> fp_path p = [] \<or>
         2 < length (fp_lemma p) \<and> length (fp_lemma p) = length (fp_path p) + 2"
    and val: "light_validate L \<lparr>lp_lemma = fp_lemma p, lp_path = fp_path p\<rparr> = Ok True"
    and root: "fp_lemma p ! (length (fp_lemma p) - 1) = r" and item: "fp_lemma p ! 0 = x"
    by (auto simp: fp_proves_def raw_file_proof_def light_proof_new_def
        light_proof_root_def light_proof_item_def vec_index_def split: if_splits)
  show ?thesis
  proof (cases "length (fp_lemma p) = 1")
    case True
    then have "fp_lemma p = [x]" using item by (cases "fp_lemma p") auto
    with True len root show ?thesis by (intro that [of "[]"]) auto
  next
    case False
    then obtain a l where "fp_lemma p = a # l" "l \<noteq> []" using len by (cases "fp_lemma p") auto
    then obtain xs b where ab: "fp_lemma p = a # xs @ [b]" by (cases l rule: rev_cases) auto
    with root item have lem: "fp_lemma p = x # xs @ [r]" by (simp add: nth_append)
    have lx: "length xs = length (fp_path p)" and ne: "xs \<noteq> []" using len lem by auto
    then have z: "map fst (zip xs (fp_path p)) = xs" "map snd (zip xs (fp_path p)) = fp_path p" by simp_all
    have "slice (x # xs @ [r]) 1 (Suc (length xs)) = xs" by (simp add: slice_def)
    then have "light_climb L x xs (fp_path p) = Ok r"
      using val ne by (simp add: light_validate_def lem nth_append)
    then have climb: "climb_path L x (zip xs (fp_path p)) = r" using light_climb_path [of L x "zip xs (fp_path p)"] z by simp
    show ?thesis
    proof (rule that [of "zip xs (fp_path p)"])
      show "fp_lemma p = (if zip xs (fp_path p) = [] then [x] else x # map fst (zip xs (fp_path p)) @ [r])"
        using lem z(1) ne by (metis list.simps(8))
    qed (use z climb in simp_all)
  qed
qed

lemma light_gen_proof_path:
  assumes "null_free_light L" and "items \<noteq> []" and "length items \<le> 2 ^ 63"
    and "lt_null L \<notin> set (map (lt_leaf L) items)" and "i < length items"
  defines "ls \<equiv> map (lt_leaf L) items"
  obtains t where "from_iter L items = Ok t" "light_tree_root t = Ok (light_root L ls)"
    "light_gen_proof L t i = Ok \<lparr>lp_lemma = (if length items = 1 then [light_root L ls]
        else ls ! i # map fst (light_path L ls i) @ [light_root L ls]), lp_path = map snd (light_path L ls i)\<rparr>"
proof -
  obtain t where t: "from_iter L items = Ok t" "stored L (lt_data t) (lt_links t) 0 ls" "lt_leafs t = length items"
      "\<And>j. j < length items \<Longrightarrow> j < length (lt_data t) \<and> lt_data t ! j = lt_leaf L (items ! j)"
    using from_iter_stored [OF assms(1-4)] unfolding ls_def by metis
  have ne: "ls \<noteq> []" using assms(2) by (simp add: ls_def)
  note root = stored_root [OF t(2) ne]
  have r: "light_tree_root t = Ok (light_root L ls)" using root by (simp add: light_tree_root_def)
  show ?thesis
  proof (rule that [OF t(1) r], cases "length items = 1")
    case True
    then show "light_gen_proof L t i = Ok \<lparr>lp_lemma = (if length items = 1 then [light_root L ls]
        else ls ! i # map fst (light_path L ls i) @ [light_root L ls]), lp_path = map snd (light_path L ls i)\<rparr>"
      using assms(5) t(3) r by (simp add: light_gen_proof_def light_proof_new_def ls_def)
  next
    case False
    have i: "i < length ls" "lt_null L \<notin> set ls" using assms(4,5) by (simp_all add: ls_def)
    have len: "length ls = length items" by (simp add: ls_def)
    have n1: "1 < length ls" using False ne len by (cases ls) auto
    have item: "vec_index (lt_data t) i = Ok (ls ! i)" using t(4) [OF assms(5)] assms(5) by (simp add: vec_index_def ls_def)
    have w: "(if odd (lt_leafs t) then lt_leafs t + 1 else lt_leafs t) = even_len (length ls)"
      using t(3) len by (simp add: even_len_def odd_iff_mod_2_eq_one)
    note loop = light_gen_loop_path [OF assms(1) t(2) i(2,1) refl refl]
    have "map fst (light_path L ls i) \<noteq> []" using light_path_nonempty [OF n1 i(1)] by simp
    then have "light_proof_new (ls ! i # map fst (light_path L ls i) @ [light_root L ls]) (map snd (light_path L ls i)) =
        Ok \<lparr>lp_lemma = ls ! i # map fst (light_path L ls i) @ [light_root L ls], lp_path = map snd (light_path L ls i)\<rparr>"
      by (simp add: light_proof_new_def)
    then show "light_gen_proof L t i = Ok \<lparr>lp_lemma = (if length items = 1 then [light_root L ls]
        else ls ! i # map fst (light_path L ls i) @ [light_root L ls]), lp_path = map snd (light_path L ls i)\<rparr>"
      unfolding light_gen_proof_def w loop item r using False assms(5) t(3) by simp
  qed
qed

text \<open>
  C20. The proof that the file tree generates for any of its leaves validates, as a proof of the
  file, for that leaf, the root of the tree, its position and the number of leaves.
\<close>

theorem file_proof_complete:
  assumes "null_free_light L" and "items \<noteq> []" and "length items \<le> 2 ^ 63"
    and "lt_null L \<notin> set (map (lt_leaf L) items)" and "i < length items"
  shows "\<exists>t r p. from_iter L items = Ok t \<and> light_tree_root t = Ok r \<and> light_gen_proof L t i = Ok p \<and>
           file_validate L (file_proof_new (lp_lemma p) (lp_path p)) (lt_leaf L (items ! i)) r i (length items) = Ok True"
proof -
  define ls where "ls = map (lt_leaf L) items"
  obtain t where t: "from_iter L items = Ok t" "light_tree_root t = Ok (light_root L ls)"
    and g: "light_gen_proof L t i = Ok \<lparr>lp_lemma = (if length items = 1 then [light_root L ls]
        else ls ! i # map fst (light_path L ls i) @ [light_root L ls]), lp_path = map snd (light_path L ls i)\<rparr>"
    using light_gen_proof_path [OF assms] unfolding ls_def by metis
  have i: "i < length ls" and li: "ls ! i = lt_leaf L (items ! i)" and len: "length ls = length items"
    using assms(5) by (simp_all add: ls_def)
  have pos: "position_loop (length items) 0 (rev (map snd (light_path L ls i))) = Ok i"
    using position_light_path [OF i, of 0 L] assms(3) len by simp
  show ?thesis
  proof (cases "length items = 1")
    case True
    then have "light_root L ls = ls ! i" using len i by (cases ls) auto
    with True t g pos li len show ?thesis
      by (simp add: file_validate_def file_position_def file_proof_new_def raw_file_proof_def light_proof_new_def
          light_validate_def light_proof_root_def light_proof_item_def vec_index_def)
  next
    case False
    define ps where "ps = light_path L ls i"
    have n1: "1 < length ls" using False assms(2) len by (cases items) auto
    have ne: "ps \<noteq> []" using light_path_nonempty [OF n1 i] by (simp add: ps_def)
    have "light_climb L (ls ! i) (map fst ps) (map snd ps) = Ok (light_root L ls)"
      unfolding light_climb_path ps_def climb_light_path [OF i] by simp
    moreover have "slice (ls ! i # map fst ps @ [light_root L ls]) 1 (Suc (Suc (length ps)) - 1) = map fst ps"
      by (simp add: slice_def)
    ultimately have "light_validate L \<lparr>lp_lemma = ls ! i # map fst ps @ [light_root L ls], lp_path = map snd ps\<rparr> = Ok True"
      using ne by (simp add: light_validate_def nth_append)
    with False t g pos li ne show ?thesis unfolding ps_def [symmetric]
      by (simp add: file_validate_def file_position_def file_proof_new_def raw_file_proof_def light_proof_new_def
          light_proof_root_def light_proof_item_def vec_index_def nth_append)
  qed
qed

theorem file_proof_complete_witness:
  "\<exists>t r p. from_iter free_light [lf 1, lf 2, lf 3] = Ok t \<and> light_tree_root t = Ok r \<and>
     light_gen_proof free_light t 2 = Ok p \<and>
     file_validate free_light (file_proof_new (lp_lemma p) (lp_path p)) (lf 3) r 2 3 = Ok True"
  using file_proof_complete [of free_light "[lf 1, lf 2, lf 3]" 2] by (simp add: numeral_3_eq_3)



text \<open>
  \<open>next_pow2\<close> on 64-bit numbers: for a positive number up to \<open>2 ^ 63\<close> the least power of two that is
  not below it; for zero and for everything above \<open>2 ^ 63\<close> an arithmetic panic.
\<close>

lemma next_pow2_bounds:
  assumes "n < 2 ^ 64"
  shows "(0 < n \<and> n \<le> 2 ^ 63 \<longrightarrow> (\<exists>k. next_pow2 n = Ok (2 ^ k) \<and> n \<le> 2 ^ k \<and> (\<forall>j. n \<le> 2 ^ j \<longrightarrow> k \<le> j))) \<and>
         (n = 0 \<or> 2 ^ 63 < n \<longrightarrow> is_Panic (next_pow2 n))"
proof (intro conjI impI)
  assume n: "0 < n \<and> n \<le> 2 ^ 63"
  then obtain k where k: "next_pow2 n = Ok (2 ^ k)" "n \<le> 2 ^ k" "2 ^ k < 2 * n" using next_pow2_Ok by blast
  have "k \<le> j" if "n \<le> 2 ^ j" for j
  proof -
    have "(2::nat) ^ k < 2 ^ Suc j" using k(3) that by simp
    then have "k < Suc j" by (rule power_less_imp_less_exp [rotated]) simp
    then show ?thesis by simp
  qed
  with k show "\<exists>k. next_pow2 n = Ok (2 ^ k) \<and> n \<le> 2 ^ k \<and> (\<forall>j. n \<le> 2 ^ j \<longrightarrow> k \<le> j)" by blast
next
  assume "n = 0 \<or> 2 ^ 63 < n"
  then show "is_Panic (next_pow2 n)"
    using next_pow2_overflow [of n] assms by (auto simp: next_pow2_def)
qed

lemma next_pow2_bounds_example:
  "(\<exists>k. next_pow2 5 = Ok (2 ^ k) \<and> 5 \<le> (2::nat) ^ k \<and> (\<forall>j. 5 \<le> (2::nat) ^ j \<longrightarrow> k \<le> j)) \<and> is_Panic (next_pow2 (2 ^ 63 + 1))"
  using next_pow2_bounds [of 5] next_pow2_bounds [of "2 ^ 63 + 1"] by simp

lemma padded_size_bounds:
  assumes "0 < size_bytes" and "bytes_to_chunks size_bytes \<le> 2 ^ 63"
  shows "\<exists>padded k. compute_padded_chunk_size size_bytes = Ok (padded, 2 ^ k) \<and>
           bytes_to_chunks size_bytes \<le> padded \<and> padded \<le> 2 ^ k \<and> 2 ^ k < 2 * bytes_to_chunks size_bytes \<and>
           16 * (padded - bytes_to_chunks size_bytes) < 2 ^ k"
proof -
  define n where "n = bytes_to_chunks size_bytes"
  have n0: "0 < n" using assms(1) by (auto simp: n_def bytes_to_chunks_def)
  obtain k where k: "next_pow2 n = Ok (2 ^ k)" "n \<le> 2 ^ k" "2 ^ k < 2 * n"
    using next_pow2_Ok [OF n0] assms(2) unfolding n_def by metis
  show ?thesis
  proof (cases "2 ^ k = n \<or> (2::nat) ^ k < 16")
    case True
    then have "compute_padded_chunk_size size_bytes = Ok (n, 2 ^ k)"
      using k n0 by (auto simp: compute_padded_chunk_size_def n_def [symmetric])
    then show ?thesis using k unfolding n_def [symmetric] by (intro exI [of _ n] exI [of _ k]) auto
  next
    case False
    then have "(2::nat) ^ 4 \<le> 2 ^ k" by simp
    then have "4 \<le> k" using power_le_imp_le_exp [of "2::nat" 4 k] by simp
    then obtain j where j: "k = j + 4" by (metis add.commute le_Suc_ex)
    define m where "m = (2::nat) ^ j"
    have m: "2 ^ k = 16 * m" "0 < m" by (simp_all add: j m_def power_add)
    define q where "q = (n - 1) div m"
    have qn: "q * m \<le> n - 1" "n - 1 < (q + 1) * m"
      using dividend_less_div_times [OF m(2), of "n - 1"] by (simp_all add: q_def)
    have "n - 1 < 16 * m" using k(2) m n0 by linarith
    then have "q < 16" unfolding q_def by (rule less_mult_imp_div_less)
    have fits: "(q + 1) * m \<le> 16 * m" using \<open>q < 16\<close> by (intro mult_le_mono) auto
    have run: "compute_padded_chunk_size size_bytes = Ok ((q + 1) * m, 2 ^ k)"
      using False k m by (simp add: compute_padded_chunk_size_def n_def [symmetric] q_def)
    have "n \<le> (q + 1) * m" "(q + 1) * m < n + m" using qn n0 by (simp_all add: algebra_simps)
    with run fits m k(3) show ?thesis unfolding n_def [symmetric]
      by (intro exI [of _ "(q + 1) * m"] exI [of _ k]) auto
  qed
qed

text \<open>
  C22. For a file of any positive size, the padded number of chunks covers it, stays within the
  next power of two, and wastes less than a sixteenth of that power.
\<close>

theorem compute_padded_chunk_size_bounds:
  assumes "0 < size_bytes" and "bytes_to_chunks size_bytes \<le> 2 ^ 63"
  shows "\<exists>padded k. compute_padded_chunk_size size_bytes = Ok (padded, 2 ^ k) \<and>
           bytes_to_chunks size_bytes \<le> padded \<and> padded \<le> 2 ^ k \<and> 2 ^ k < 2 * bytes_to_chunks size_bytes \<and>
           16 * (padded - bytes_to_chunks size_bytes) < 2 ^ k"
  by (rule padded_size_bounds [OF assms])

theorem compute_padded_chunk_size_bounds_witness:
  "\<exists>padded k. compute_padded_chunk_size 5000 = Ok (padded, 2 ^ k) \<and> bytes_to_chunks 5000 \<le> padded \<and>
     padded \<le> 2 ^ k \<and> 2 ^ k < 2 * bytes_to_chunks 5000 \<and> 16 * (padded - bytes_to_chunks 5000) < 2 ^ k"
  by (rule compute_padded_chunk_size_bounds) (simp_all add: bytes_to_chunks_def)

subsection \<open>Segment proofs\<close>

fun nodes_root :: "(byte list \<Rightarrow> h256) \<Rightarrow> h256 list \<Rightarrow> h256" where
  "nodes_root keccak [] = []"
| "nodes_root keccak [x] = x"
| "nodes_root keccak (x # y # zs) = keccak (x @ nodes_root keccak (y # zs))"

lemma nodes_root_Cons: "xs \<noteq> [] \<Longrightarrow> nodes_root keccak (x # xs) = keccak (x @ nodes_root keccak xs)"
  by (cases xs) auto

lemma climb_left: "post \<noteq> [] \<Longrightarrow> climb_path (raw_leaf_sha3 keccak) (nodes_root keccak post) (map (\<lambda>x. (x, False)) (rev pre)) =
    nodes_root keccak (pre @ post)"
  by (induction pre) (simp_all add: climb_path_append nodes_root_Cons raw_leaf_sha3_def)

lemma merge_nodes_small:
  assumes "\<forall>x \<in> set small. fst x < max_depth" and "\<forall>x \<in> set big. max_depth \<le> fst x"
  shows "merge_nodes keccak max_depth (nodes_root keccak (map snd rest)) (rev small @ rev big) =
           nodes_root keccak (map snd (small @ rest)) \<or> rest = []"
  using assms
proof (induction small arbitrary: rest rule: rev_induct)
  case Nil
  then show ?case by (cases big rule: rev_cases) (auto split: prod.splits)
next
  case (snoc y small)
  obtain d r where y: "y = (d, r)" by fastforce
  show ?case
  proof (cases "rest = []")
    case False
    have "merge_nodes keccak max_depth (nodes_root keccak (map snd rest)) (rev (small @ [y]) @ rev big) =
        merge_nodes keccak max_depth (nodes_root keccak (map snd (y # rest))) (rev small @ rev big)"
      using snoc.prems(1) False by (simp add: y nodes_root_Cons sha3_algo_def)
    then show ?thesis using snoc.IH [of "y # rest"] snoc.prems by simp
  qed simp
qed

text \<open>With decreasing depths, \<open>compute_merkle_root\<close> joins exactly the nodes below the given depth.\<close>

lemma compute_merkle_root_split:
  assumes "merkle_nodes tx = big @ small" and "\<forall>x \<in> set small. fst x < m" and "\<forall>x \<in> set big. m \<le> fst x"
  shows "compute_merkle_root keccak tx m = (if small = [] then None else Some (nodes_root keccak (map snd small)))"
proof (cases small rule: rev_cases)
  case Nil
  then show ?thesis using assms by (cases big rule: rev_cases) (auto simp: compute_merkle_root_def split: prod.splits)
next
  case (snoc ys y)
  obtain d r where y: "y = (d, r)" by fastforce
  have "merge_nodes keccak m (nodes_root keccak (map snd [y])) (rev ys @ rev big) = nodes_root keccak (map snd (ys @ [y]))"
    using merge_nodes_small [of ys m big keccak "[y]"] assms snoc by auto
  then show ?thesis using assms snoc y by (simp add: compute_merkle_root_def)
qed

text \<open>Merkle nodes of a transaction: complete subtrees of decreasing depth, joined to the file root.\<close>

definition nodes_ok :: "(byte list \<Rightarrow> h256) \<Rightarrow> transaction \<Rightarrow> bool" where
  "nodes_ok keccak tx \<longleftrightarrow>
     sorted_wrt (>) (map fst (merkle_nodes tx)) \<and>
     (\<forall>n \<in> set (merkle_nodes tx). 0 < fst n \<and> fst n \<le> 64) \<and>
     data_merkle_root tx = nodes_root keccak (map snd (merkle_nodes tx))"

lemma num_entries_Ok: "0 < d \<Longrightarrow> d \<le> 64 \<Longrightarrow> num_entries_of_node d = Ok (2 ^ (d - 1))"
  by (simp add: num_entries_of_node_def)

lemma sum_entries_Ok:
  "\<forall>n \<in> set nodes. 0 < fst n \<and> fst n \<le> 64 \<Longrightarrow>
     sum_entries acc nodes = Ok (acc + (\<Sum>n \<leftarrow> nodes. 2 ^ (fst n - 1)))"
  by (induction acc nodes rule: sum_entries.induct) (simp_all add: num_entries_Ok)

lemma find_node_cases:
  assumes "find_node start cps acc seen nodes = Ok (res, seen')" and "\<forall>n \<in> set nodes. 0 < fst n \<and> fst n \<le> 64"
  shows "\<exists>pre post. nodes = pre @ post \<and> seen' = seen @ map snd pre \<and> (\<forall>n \<in> set pre. cps \<le> 2 ^ (fst n - 1)) \<and>
     (case res of
        Some n \<Rightarrow> post \<noteq> [] \<and> hd post = n \<and> cps \<le> 2 ^ (fst n - 1)
      | None \<Rightarrow> (post = [] \<longrightarrow> acc + (\<Sum>n \<leftarrow> nodes. 2 ^ (fst n - 1)) \<le> start \<or> nodes = []) \<and>
                (post \<noteq> [] \<longrightarrow> 2 ^ (fst (hd post) - 1) < cps))"
  using assms
proof (induction start cps acc seen nodes arbitrary: res seen' rule: find_node.induct)
  case (2 start cps acc seen d r nodes)
  have num: "num_entries_of_node d = Ok (2 ^ (d - 1))" using 2(3) by (simp add: num_entries_Ok)
  consider "2 ^ (d - 1) < cps" | "cps \<le> 2 ^ (d - 1)" "start < acc + 2 ^ (d - 1)" | "cps \<le> 2 ^ (d - 1)" "acc + 2 ^ (d - 1) \<le> start"
    by linarith
  then show ?case
  proof cases
    case 1
    then have "res = None" "seen' = seen" using 2(2) num by auto
    with 1 show ?thesis by (intro exI [of _ "[]"] exI [of _ "(d, r) # nodes"]) simp
  next
    case b: 2
    then have "res = Some (d, r)" "seen' = seen" using 2(2) num by auto
    with b show ?thesis by (intro exI [of _ "[]"] exI [of _ "(d, r) # nodes"]) simp
  next
    case 3
    then have run: "find_node start cps (acc + 2 ^ (d - 1)) (seen @ [r]) nodes = Ok (res, seen')" using 2(2) num by auto
    have all: "\<forall>n \<in> set nodes. 0 < fst n \<and> fst n \<le> 64" using 2(3) by simp
    have c: "\<not> 2 ^ (d - 1) < cps" "\<not> start < acc + 2 ^ (d - 1)" using 3 by auto
    from 2(1) [OF num c run all] obtain pre post where
      "nodes = pre @ post" "seen' = (seen @ [r]) @ map snd pre" "\<forall>n \<in> set pre. cps \<le> 2 ^ (fst n - 1)"
      and res: "case res of
        Some n \<Rightarrow> post \<noteq> [] \<and> hd post = n \<and> cps \<le> 2 ^ (fst n - 1)
      | None \<Rightarrow> (post = [] \<longrightarrow> acc + 2 ^ (d - 1) + (\<Sum>n \<leftarrow> nodes. 2 ^ (fst n - 1)) \<le> start \<or> nodes = []) \<and>
                (post \<noteq> [] \<longrightarrow> 2 ^ (fst (hd post) - 1) < cps)" by blast
    moreover have "case res of
        Some n \<Rightarrow> post \<noteq> [] \<and> hd post = n \<and> cps \<le> 2 ^ (fst n - 1)
      | None \<Rightarrow> (post = [] \<longrightarrow> acc + (\<Sum>n \<leftarrow> (d, r) # nodes. 2 ^ (fst n - 1)) \<le> start \<or> (d, r) # nodes = []) \<and>
                (post \<noteq> [] \<longrightarrow> 2 ^ (fst (hd post) - 1) < cps)"
      using res 3 by (auto split: option.splits)
    ultimately show ?thesis using 3(1) by (intro exI [of _ "(d, r) # pre"] exI [of _ post]) auto
  qed
qed auto

lemma find_node_Ok: "\<forall>n \<in> set nodes. 0 < fst n \<and> fst n \<le> 64 \<Longrightarrow> \<exists>res. find_node start cps acc seen nodes = Ok res"
  by (induction start cps acc seen nodes rule: find_node.induct) (auto simp: num_entries_Ok)

lemma decreasing_split:
  "sorted_wrt (>) (map fst (pre @ x # rest)) \<Longrightarrow> (\<forall>m \<in> set pre. fst x < fst m) \<and> (\<forall>m \<in> set rest. fst m < fst x)"
  by (auto simp: sorted_wrt_append)

lemma depth_less_segment: "0 < d \<Longrightarrow> (2::nat) ^ (d - 1) < 2 ^ k \<longleftrightarrow> d < k + 1"
  by auto

text \<open>
  The root joined by \<open>compute_merkle_root\<close> of a transaction with decreasing nodes \<open>big @ small\<close>
  leads up through the nodes \<open>big\<close> to the file root.
\<close>

lemma join_left:
  assumes "nodes_ok keccak tx" and "merkle_nodes tx = big @ small" and "small \<noteq> []"
  shows "climb_path (raw_leaf_sha3 keccak) (nodes_root keccak (map snd small))
           (map (\<lambda>x. (x, False)) (rev (map snd big))) = data_merkle_root tx"
  using assms climb_left [of "map snd small" keccak "map snd big"] by (simp add: nodes_ok_def)


definition example_tx :: transaction where
  "example_tx = \<lparr>stream_ids = [], tx_data = [], data_merkle_root = [1, 2, 3],
     merkle_nodes = [(3, [1]), (2, [2]), (1, [3])], start_entry_index = 1, tx_size = 1700, tx_seq = 0\<rparr>"


lemma slice_rec: "k < n \<Longrightarrow> n \<le> length xs \<Longrightarrow> slice xs k n = xs ! k # slice xs (Suc k) n"
  by (simp add: slice_def Cons_nth_drop_Suc [symmetric] take_Cons' Suc_diff_Suc [symmetric])

lemma copy_flow_slice:
  assumes "nd \<le> length (p_path p)" and "nd < length (p_lemma p)" and "k \<le> nd"
  shows "copy_flow p [k..<nd] = Ok (slice (p_lemma p) (k + 1) (nd + 1), slice (p_path p) k nd)"
  using assms(3)
proof (induction rule: inc_induct)
  case (step k)
  then show ?case using assms slice_rec [of k nd "p_path p"] slice_rec [of "k + 1" "nd + 1" "p_lemma p"]
    by (simp add: upt_conv_Cons vec_index_def)
qed (simp add: slice_def)


lemma example_segment_root: "compute_segment_merkle_root (\<lambda>x. x) [] 1 = Ok ZERO_HASH"
  by code_simp


end
