(* ===== verification/Kv_Store.thy ===== *)
theory Kv_Store
  imports Rust_Prelude
begin

text \<open>
  What the storage components share: methods on \<open>&mut self\<close> that may fail, ordered maps, and the
  key-value store.

  \<^item> \<open>('s, 'a) op\<close> is a method on \<open>&mut self\<close>: it returns the state it leaves and its outcome. A
    method that fails half way leaves the changes made so far.
  \<^item> A column of the database (\<^verbatim>\<open>kvdb\<close>, wrapped by \<open>IonianKeyValueDB\<close> of
    \<^verbatim>\<open>node/storage/src/lib.rs\<close>) is a finite map from keys to decoded values. The keys are 64-bit
    indices in big-endian form, so the order of the bytes is the order of the numbers, and iteration
    is in that order. A transaction is a list of puts and deletes; \<open>write\<close> applies it as one step.
    Input/output errors of the database are left out.
\<close>

named_theorems op_simps

subsection \<open>Methods on mutable state\<close>

type_synonym ('s, 'a) op = "'s \<Rightarrow> 's \<times> 'a res"

definition op_lift :: "'a res \<Rightarrow> ('s, 'a) op" where
  "op_lift r s = (s, r)"

definition op_read :: "('s \<Rightarrow> 'a res) \<Rightarrow> ('s, 'a) op" where
  "op_read f s = (s, f s)"

definition op_modify :: "('s \<Rightarrow> 's) \<Rightarrow> ('s, unit) op" where
  "op_modify f s = (f s, Ok ())"

definition op_bind :: "('s, 'a) op \<Rightarrow> ('a \<Rightarrow> ('s, 'b) op) \<Rightarrow> ('s, 'b) op" where
  "op_bind m f s =
     (case m s of
        (s', Ok x) \<Rightarrow> f x s'
      | (s', Err e) \<Rightarrow> (s', Err e)
      | (s', Panic p) \<Rightarrow> (s', Panic p))"

text \<open>A method that computes the new state or fails leaving the old one.\<close>

definition op_update :: "('s \<Rightarrow> ('s \<times> 'a) res) \<Rightarrow> ('s, 'a) op" where
  "op_update f s = (case f s of Ok (s', x) \<Rightarrow> (s', Ok x) | Err e \<Rightarrow> (s, Err e) | Panic p \<Rightarrow> (s, Panic p))"

fun op_for :: "('a \<Rightarrow> ('s, unit) op) \<Rightarrow> 'a list \<Rightarrow> ('s, unit) op" where
  "op_for f [] = op_lift (Ok ())"
| "op_for f (x # xs) = op_bind (f x) (\<lambda>_. op_for f xs)"

lemmas op_defs = op_lift_def op_read_def op_modify_def op_bind_def op_update_def

lemma op_bind_Ok [op_simps]: "m s = (s', Ok x) \<Longrightarrow> op_bind m f s = f x s'"
  by (simp add: op_bind_def)

lemma op_bind_Err [op_simps]: "m s = (s', Err e) \<Longrightarrow> op_bind m f s = (s', Err e)"
  by (simp add: op_bind_def)

lemma op_bind_Panic [op_simps]: "m s = (s', Panic e) \<Longrightarrow> op_bind m f s = (s', Panic e)"
  by (simp add: op_bind_def)

lemma op_bind_lift [simp]: "op_bind (op_lift (Ok x)) f = f x"
  by (rule ext) (simp add: op_bind_def op_lift_def)

lemma op_bind_modify [simp]: "op_bind (op_modify g) f s = f () (g s)"
  by (simp add: op_bind_def op_modify_def)

lemma op_bind_eq_Ok:
  "op_bind m f s = (t, Ok y) \<longleftrightarrow> (\<exists>s' x. m s = (s', Ok x) \<and> f x s' = (t, Ok y))"
  by (auto simp: op_bind_def split: prod.splits res.splits)

text \<open>An invariant of the state kept by every step of a loop is kept by the loop.\<close>

lemma op_for_invariant:
  assumes "\<And>x s. x \<in> set xs \<Longrightarrow> I s \<Longrightarrow> I (fst (f x s))" and "I s"
  shows "I (fst (op_for f xs s))"
  using assms
proof (induction xs arbitrary: s)
  case (Cons x xs)
  have "I (fst (f x s))" using Cons.prems by simp
  then show ?case using Cons
    by (cases "f x s") (auto simp: op_bind_def split: res.splits)
qed (simp add: op_lift_def)

subsection \<open>Ordered maps\<close>

text \<open>The entries of a \<open>BTreeMap\<close>, or of a column, in the order of their keys.\<close>

definition btree_keys :: "(nat, 'v) hmap \<Rightarrow> nat list" where
  "btree_keys m = sort (remdups (map fst m))"

definition btree_iter :: "(nat, 'v) hmap \<Rightarrow> (nat \<times> 'v) list" where
  "btree_iter m = map (\<lambda>k. (k, the (hm_get m k))) (btree_keys m)"

text \<open>\<open>split_off(&k)\<close> keeps the entries below \<open>k\<close>.\<close>

definition split_off :: "nat \<Rightarrow> (nat, 'v) hmap \<Rightarrow> (nat, 'v) hmap" where
  "split_off k m = filter (\<lambda>(k', v). k' < k) m"

definition last_key :: "(nat, 'v) hmap \<Rightarrow> nat option" where
  "last_key m = (case rev (btree_keys m) of [] \<Rightarrow> None | k # _ \<Rightarrow> Some k)"

lemma set_btree_keys [simp]: "set (btree_keys m) = dom (hm_get m)"
  by (simp add: btree_keys_def dom_map_of_conv_image_fst)

lemma btree_iter_set [simp]: "(k, v) \<in> set (btree_iter m) \<longleftrightarrow> hm_get m k = Some v"
  by (auto simp: btree_iter_def image_iff)

lemma sorted_btree_keys: "sorted (btree_keys m)" "distinct (btree_keys m)"
  by (simp_all add: btree_keys_def)

lemma hm_get_filter_key: "hm_get (filter (\<lambda>(k, v). P k) m) k = (if P k then hm_get m k else None)"
  by (induction m) (auto split: prod.splits)

lemma hm_get_split_off [simp]: "hm_get (split_off k m) k' = (if k' < k then hm_get m k' else None)"
  unfolding split_off_def by (rule hm_get_filter_key)

lemma last_key_None: "last_key m = None \<longleftrightarrow> m = []"
proof -
  have "length (btree_keys m) = 0 \<longleftrightarrow> m = []" by (simp only: btree_keys_def length_sort) simp
  then show ?thesis by (auto simp: last_key_def split: list.splits)
qed

lemma last_key_max: "last_key m = Some e \<Longrightarrow> hm_get m k \<noteq> None \<Longrightarrow> k \<le> e"
proof -
  assume a: "last_key m = Some e" "hm_get m k \<noteq> None"
  then obtain ks where ks: "btree_keys m = rev ks @ [e]"
    by (auto simp: last_key_def split: list.splits)
  have "k \<in> set (btree_keys m)" using a by (auto simp: dom_def)
  with ks sorted_btree_keys(1) [of m] show ?thesis by (auto simp: sorted_append)
qed

subsection \<open>Transactions\<close>

datatype ('k, 'v) kv_op = Put 'k 'v | Delete 'k

fun kv_apply :: "('k, 'v) kv_op \<Rightarrow> ('k, 'v) hmap \<Rightarrow> ('k, 'v) hmap" where
  "kv_apply (Put k v) m = hm_insert k v m"
| "kv_apply (Delete k) m = hm_remove k m"

definition kv_write :: "('k, 'v) kv_op list \<Rightarrow> ('k, 'v) hmap \<Rightarrow> ('k, 'v) hmap" where
  "kv_write tx m = fold kv_apply tx m"

lemma kv_write_Nil [simp]: "kv_write [] m = m"
  by (simp add: kv_write_def)

lemma kv_write_append [simp]: "kv_write (t1 @ t2) m = kv_write t2 (kv_write t1 m)"
  by (simp add: kv_write_def)

lemma kv_write_Cons [simp]: "kv_write (t # ts) m = kv_write ts (kv_apply t m)"
  by (simp add: kv_write_def)

lemma kv_write_puts:
  "distinct (map fst xs) \<Longrightarrow>
     hm_get (kv_write (map (\<lambda>(k, v). Put k v) xs) m) k = (case hm_get xs k of Some v \<Rightarrow> Some v | None \<Rightarrow> hm_get m k)"
proof (induction xs arbitrary: m)
  case (Cons x xs)
  obtain k' v where x: "x = (k', v)" by (cases x)
  from Cons.prems x have "k' \<notin> fst ` set xs" "distinct (map fst xs)" by auto
  then have "hm_get xs k' = None" by (simp add: map_of_eq_None_iff)
  with Cons.IH [OF \<open>distinct (map fst xs)\<close>, of "hm_insert k' v m"] x show ?case
    by (auto split: option.splits)
qed simp

lemma kv_write_deletes:
  "hm_get (kv_write (map Delete ks) m) k = (if k \<in> set ks then None else hm_get m k)"
  by (induction ks arbitrary: m) auto

end
