(* ===== verification/Flow_Store.thy ===== *)
theory Flow_Store
  imports Kv_Store Entry_Batch
begin

text \<open>
  The flow store, \<^verbatim>\<open>node/storage/src/log_store/flow_store.rs\<close>: the whole flow as load chunks
  (\<open>EntryBatch\<close>) in the database with their Merkle roots, and the in-memory set of seal chunks that
  are ready for sealing. \<open>flow_db\<close> is \<open>FlowDBStore\<close>, its two columns as maps; \<open>flow_store\<close> is
  \<open>FlowStore\<close>. The digest function is the parameter \<open>keccak\<close>.
\<close>

subsection \<open>State\<close>

datatype batch_root = Single h256 | Multiple "nat \<times> h256"

record flow_db =
  col_entry_batch :: "(nat, entry_batch) hmap"
  col_entry_batch_root :: "(nat, batch_root) hmap"

record flow_store =
  flow_db :: flow_db
  to_seal_set :: "(nat, nat) hmap"
  to_seal_version :: nat
  batch_size :: nat

definition new_flow_store :: "flow_db \<Rightarrow> nat \<Rightarrow> flow_store" where
  "new_flow_store db config_batch_size =
     \<lparr>flow_db = db, to_seal_set = [], to_seal_version = 0, batch_size = config_batch_size\<rparr>"

definition bytes_to_entries :: "nat \<Rightarrow> nat" where
  "bytes_to_entries size_bytes =
     (if size_bytes mod CHUNK_SIZE = 0 then size_bytes div CHUNK_SIZE else size_bytes div CHUNK_SIZE + 1)"

text \<open>\<open>(a..b).step_by(n)\<close>\<close>

definition step_by :: "nat \<Rightarrow> nat \<Rightarrow> nat \<Rightarrow> nat list" where
  "step_by a b n = map (\<lambda>k. a + k * n) [0..<(b - a + n - 1) div n]"

definition batch_iter :: "nat \<Rightarrow> nat \<Rightarrow> nat \<Rightarrow> (nat \<times> nat) list res" where
  "batch_iter start_ix end_ix bsize =
     (if bsize = 0 then Panic ''attempt to divide by zero''
      else Ok (map (\<lambda>i. (max start_ix i, min end_ix (i + bsize)))
                 (step_by (start_ix div bsize * bsize) end_ix bsize)))"

subsection \<open>The database\<close>

definition get_entry_batch :: "flow_db \<Rightarrow> nat \<Rightarrow> entry_batch option" where
  "get_entry_batch db batch_index = hm_get (col_entry_batch db) batch_index"

definition get_batch_root :: "flow_db \<Rightarrow> nat \<Rightarrow> batch_root option" where
  "get_batch_root db batch_index = hm_get (col_entry_batch_root db) batch_index"

definition put_batch_root_db :: "flow_db \<Rightarrow> nat \<Rightarrow> h256 \<Rightarrow> nat \<Rightarrow> flow_db" where
  "put_batch_root_db db batch_index root len =
     db\<lparr>col_entry_batch_root :=
          kv_write [Put batch_index (if len = 1 then Single root else Multiple (len, root))]
            (col_entry_batch_root db)\<rparr>"

text \<open>The loop of \<open>put_entry_batch_list\<close>: the roots of the complete batches, in the order of the list.\<close>

fun completed_roots :: "(byte list \<Rightarrow> h256) \<Rightarrow> (nat \<times> entry_batch) list \<Rightarrow> (nat \<times> h256) list res" where
  "completed_roots keccak [] = Ok []"
| "completed_roots keccak ((batch_index, batch) # bs) =
     rbind (build_root keccak batch (batch_index = 0)) (\<lambda>r.
     rbind (completed_roots keccak bs) (\<lambda>rs.
       Ok (case r of Some root \<Rightarrow> (batch_index, root) # rs | None \<Rightarrow> rs)))"

definition put_entry_batch_list ::
  "(byte list \<Rightarrow> h256) \<Rightarrow> flow_db \<Rightarrow> (nat \<times> entry_batch) list \<Rightarrow> (flow_db \<times> (nat \<times> h256) list) res" where
  "put_entry_batch_list keccak db batch_list =
     rbind (completed_roots keccak batch_list) (\<lambda>completed_batches.
       Ok (\<lparr>col_entry_batch = kv_write (map (\<lambda>(i, b). Put i b) batch_list) (col_entry_batch db),
            col_entry_batch_root =
              kv_write (map (\<lambda>(i, r). Put i (Single r)) completed_batches) (col_entry_batch_root db)\<rparr>,
           completed_batches))"

definition put_entry_raw :: "flow_db \<Rightarrow> (nat \<times> entry_batch) list \<Rightarrow> flow_db" where
  "put_entry_raw db batch_list =
     db\<lparr>col_entry_batch := kv_write (map (\<lambda>(i, b). Put i b) batch_list) (col_entry_batch db)\<rparr>"

definition truncate_db ::
  "(byte list \<Rightarrow> h256) \<Rightarrow> flow_db \<Rightarrow> nat \<Rightarrow> nat \<Rightarrow> (flow_db \<times> nat list) res" where
  "truncate_db keccak db start_index bsize =
     (if bsize = 0 then Panic ''attempt to divide by zero'' else
      let start_batch_index = start_index div bsize;
          first_batch_offset = start_index mod bsize
      in rbind (if first_batch_offset \<noteq> 0
                then case get_entry_batch db start_batch_index of
                       Some first_batch \<Rightarrow>
                         rbind (truncate_batch keccak first_batch first_batch_offset) (\<lambda>(first_batch, idx).
                           Ok ([if \<not> entry_batch_is_empty first_batch then Put start_batch_index first_batch
                                else Delete start_batch_index],
                               map (\<lambda>x. start_batch_index * SEALS_PER_LOAD + x) idx))
                     | None \<Rightarrow> Ok ([], [])
                else Ok ([], [])) (\<lambda>(tx, index_to_reseal).
         let start_batch_index = (if first_batch_offset \<noteq> 0 then start_batch_index + 1 else start_batch_index)
         in case last_key (col_entry_batch db) of
              None \<Rightarrow> Ok (db, index_to_reseal)
            | Some last_ix \<Rightarrow>
                let rng = [start_batch_index..<last_ix + 1]
                in Ok (\<lparr>col_entry_batch = kv_write (tx @ map Delete rng) (col_entry_batch db),
                        col_entry_batch_root = kv_write (map Delete rng) (col_entry_batch_root db)\<rparr>,
                       index_to_reseal)))"

subsection \<open>Reading\<close>

definition put_batch_root :: "flow_store \<Rightarrow> nat \<Rightarrow> h256 \<Rightarrow> nat \<Rightarrow> flow_store" where
  "put_batch_root fs batch_index root len =
     fs\<lparr>flow_db := put_batch_root_db (flow_db fs) batch_index root len\<rparr>"

text \<open>The loop of \<open>get_entries\<close> over the pieces of the range.\<close>

fun read_batches ::
  "(byte list \<Rightarrow> h256) \<Rightarrow> flow_store \<Rightarrow> (nat \<times> nat) list \<Rightarrow> byte list option res" where
  "read_batches keccak fs [] = Ok (Some [])"
| "read_batches keccak fs ((start_entry, end_entry) # bs) =
     (let chunk_index = start_entry div batch_size fs;
          off = start_entry - chunk_index * batch_size fs;
          len = end_entry - start_entry;
          (off, len) = (if chunk_index = 0 \<and> off = 0 then (1, len - 1) else (off, len))
      in case get_entry_batch (flow_db fs) chunk_index of
           None \<Rightarrow> Ok None
         | Some entry_batch \<Rightarrow>
             rbind (get_unsealed_data keccak entry_batch off len) (\<lambda>entry_batch_data.
             case entry_batch_data of
               None \<Rightarrow> Ok None
             | Some d \<Rightarrow> rbind (read_batches keccak fs bs) (\<lambda>rest. Ok (map_option (\<lambda>r. d @ r) rest))))"

definition get_entries ::
  "(byte list \<Rightarrow> h256) \<Rightarrow> flow_store \<Rightarrow> nat \<Rightarrow> nat \<Rightarrow> chunk_array option res" where
  "get_entries keccak fs index_start index_end =
     (if index_end \<le> index_start then Err ''invalid entry index''
      else rbind (batch_iter index_start index_end (batch_size fs)) (\<lambda>pieces.
           rbind (read_batches keccak fs pieces) (\<lambda>data.
             Ok (map_option (\<lambda>d. \<lparr>ca_data = d, ca_start = index_start\<rparr>) data))))"

text \<open>One batch of \<open>get_available_entries\<close>: its first range is merged with the last one so far when
  the two are adjacent.\<close>

definition merge_data_list :: "chunk_array list \<Rightarrow> chunk_array list \<Rightarrow> chunk_array list" where
  "merge_data_list entry_list data_list =
     (case data_list of
        [] \<Rightarrow> entry_list
      | d # ds \<Rightarrow>
          if entry_list \<noteq> [] \<and>
             ca_start (last entry_list) + bytes_to_entries (length (ca_data (last entry_list))) = ca_start d
          then butlast entry_list @ [(last entry_list)\<lparr>ca_data := ca_data (last entry_list) @ ca_data d\<rparr>] @ ds
          else entry_list @ data_list)"

fun available_loop ::
  "(byte list \<Rightarrow> h256) \<Rightarrow> flow_store \<Rightarrow> chunk_array list \<Rightarrow> (nat \<times> nat) list \<Rightarrow> chunk_array list res" where
  "available_loop keccak fs entry_list [] = Ok entry_list"
| "available_loop keccak fs entry_list ((start_entry, _) # bs) =
     (case get_entry_batch (flow_db fs) (start_entry div batch_size fs) of
        None \<Rightarrow> available_loop keccak fs entry_list bs
      | Some b \<Rightarrow>
          rbind (into_data_list keccak b start_entry) (\<lambda>data_list.
            available_loop keccak fs (merge_data_list entry_list data_list) bs))"

definition get_available_entries ::
  "(byte list \<Rightarrow> h256) \<Rightarrow> flow_store \<Rightarrow> nat \<Rightarrow> nat \<Rightarrow> chunk_array list res" where
  "get_available_entries keccak fs index_start index_end =
     (if index_end \<le> index_start then Err ''invalid entry index''
      else if batch_size fs = 0 then Panic ''attempt to calculate the remainder with a divisor of zero''
      else if index_start mod batch_size fs \<noteq> 0 \<or> index_end mod batch_size fs \<noteq> 0 then Err ''invalid entry index''
      else rbind (batch_iter index_start index_end (batch_size fs)) (available_loop keccak fs []))"

text \<open>The roots are read from index 0 up to the first one that is missing.\<close>

definition root_subtree :: "batch_root \<Rightarrow> nat \<times> h256" where
  "root_subtree r = (case r of Single r \<Rightarrow> (1, r) | Multiple t \<Rightarrow> t)"

lemma chunk_roots_left:
  assumes "get_batch_root db i = Some r"
  shows "card {k \<in> dom (hm_get (col_entry_batch_root db)). i + 1 \<le> k} < card {k \<in> dom (hm_get (col_entry_batch_root db)). i \<le> k}"
proof (rule psubset_card_mono)
  show "finite {k \<in> dom (hm_get (col_entry_batch_root db)). i \<le> k}"
    using finite_dom_map_of by (rule finite_subset [rotated]) auto
  have "i \<in> {k \<in> dom (hm_get (col_entry_batch_root db)). i \<le> k}" using assms by (auto simp: get_batch_root_def)
  moreover have "i \<notin> {k \<in> dom (hm_get (col_entry_batch_root db)). i + 1 \<le> k}" by simp
  ultimately show "{k \<in> dom (hm_get (col_entry_batch_root db)). i + 1 \<le> k} \<subset> {k \<in> dom (hm_get (col_entry_batch_root db)). i \<le> k}"
    by fastforce
qed

function chunk_root_loop :: "flow_db \<Rightarrow> nat \<Rightarrow> (nat \<times> h256) list" where
  "chunk_root_loop db i =
     (case get_batch_root db i of
        None \<Rightarrow> []
      | Some root \<Rightarrow> root_subtree root # chunk_root_loop db (i + 1))"
  by pat_completeness auto
termination
  by (relation "measure (\<lambda>(db, i). card {k \<in> dom (hm_get (col_entry_batch_root db)). i \<le> k})")
     (use chunk_roots_left in auto)

declare chunk_root_loop.simps [simp del]

definition get_chunk_root_list :: "flow_store \<Rightarrow> (nat \<times> h256) list" where
  "get_chunk_root_list fs = chunk_root_loop (flow_db fs) 0"

record mine_load_chunk =
  loaded_chunk :: "byte list list"
  avalibilities :: "bool list"

fun load_seals :: "entry_batch \<Rightarrow> nat list \<Rightarrow> mine_load_chunk res" where
  "load_seals batch [] = Ok \<lparr>loaded_chunk = [], avalibilities = []\<rparr>"
| "load_seals batch (seal_index # is) =
     rbind (get_sealed_data batch seal_index) (\<lambda>d.
     rbind (load_seals batch is) (\<lambda>m.
       Ok \<lparr>loaded_chunk = (case d of Some data \<Rightarrow> data | None \<Rightarrow> replicate BYTES_PER_SEAL 0) # loaded_chunk m,
           avalibilities = (d \<noteq> None) # avalibilities m\<rparr>))"

definition load_sealed_data :: "flow_store \<Rightarrow> nat \<Rightarrow> mine_load_chunk option res" where
  "load_sealed_data fs chunk_index =
     (case get_entry_batch (flow_db fs) chunk_index of
        None \<Rightarrow> Ok None
      | Some batch \<Rightarrow> rbind (load_seals batch [0..<SEALS_PER_LOAD]) (\<lambda>m. Ok (Some m)))"

subsection \<open>Writing\<close>

definition add_seal_tasks :: "nat list \<Rightarrow> flow_store \<Rightarrow> flow_store" where
  "add_seal_tasks idx fs =
     fs\<lparr>to_seal_set := fold (\<lambda>x. hm_insert x (to_seal_version fs)) idx (to_seal_set fs)\<rparr>"

text \<open>The loop of \<open>append_entries\<close>: the seal tasks are recorded piece by piece, the batches are
  collected and written only after the loop.\<close>

fun append_batches ::
  "chunk_array \<Rightarrow> (nat \<times> nat) list \<Rightarrow> (flow_store, (nat \<times> entry_batch) list) op" where
  "append_batches data [] = op_lift (Ok [])"
| "append_batches data ((start_entry, end_entry) # bs) =
     op_bind (op_lift (sub_array data start_entry end_entry)) (\<lambda>c.
     case c of
       None \<Rightarrow> op_lift (Panic ''in range'')
     | Some chunk \<Rightarrow> (\<lambda>fs.
         let chunk_index = ca_start chunk div batch_size fs;
             batch = (case get_entry_batch (flow_db fs) chunk_index of
                        Some b \<Rightarrow> b | None \<Rightarrow> new_entry_batch chunk_index)
         in op_bind (op_lift (insert_batch_data batch (ca_start chunk mod batch_size fs) (ca_data chunk)))
              (\<lambda>(batch, completed_seals).
            op_bind (op_modify (add_seal_tasks (map (\<lambda>x. chunk_index * SEALS_PER_LOAD + x) completed_seals))) (\<lambda>_.
            op_bind (append_batches data bs) (\<lambda>batch_list.
              op_lift (Ok ((chunk_index, batch) # batch_list))))) fs))"

definition append_entries ::
  "(byte list \<Rightarrow> h256) \<Rightarrow> chunk_array \<Rightarrow> (flow_store, (nat \<times> h256) list) op" where
  "append_entries keccak data fs =
     (if length (ca_data data) mod BYTES_PER_SECTOR \<noteq> 0 then (fs, Err ''append_entries: invalid data size'')
      else op_bind (op_lift (batch_iter (ca_start data) (ca_start data + bytes_to_entries (length (ca_data data))) (batch_size fs)))
             (\<lambda>pieces. op_bind (append_batches data pieces) (\<lambda>batch_list.
              op_update (\<lambda>fs. rbind (put_entry_batch_list keccak (flow_db fs) batch_list) (\<lambda>(db, roots).
                Ok (fs\<lparr>flow_db := db\<rparr>, roots))))) fs)"

definition truncate_flow :: "(byte list \<Rightarrow> h256) \<Rightarrow> nat \<Rightarrow> (flow_store, unit) op" where
  "truncate_flow keccak start_index =
     op_bind (op_update (\<lambda>fs. rbind (truncate_db keccak (flow_db fs) start_index (batch_size fs)) (\<lambda>(db, to_reseal).
                Ok (fs\<lparr>flow_db := db\<rparr>, to_reseal)))) (\<lambda>to_reseal.
     op_bind (op_modify (\<lambda>fs. fs\<lparr>to_seal_set := split_off (start_index div SECTORS_PER_SEAL) (to_seal_set fs),
                                to_seal_version := to_seal_version fs + 1\<rparr>)) (\<lambda>_.
       op_modify (add_seal_tasks to_reseal)))"

subsection \<open>Sealing\<close>

record seal_task =
  st_seal_index :: nat
  st_version :: nat
  st_non_sealed_data :: "byte list"

fun seal_tasks :: "entry_batch \<Rightarrow> (nat \<times> nat) list \<Rightarrow> seal_task list res" where
  "seal_tasks batch_data [] = Ok []"
| "seal_tasks batch_data ((seal_index, version) # ts) =
     rbind (get_non_sealed_data batch_data (seal_index mod SEALS_PER_LOAD)) (\<lambda>d.
     case d of
       None \<Rightarrow> Panic ''Lost seal chunk in to_seal_set''
     | Some non_sealed_data \<Rightarrow>
         rbind (seal_tasks batch_data ts) (\<lambda>tasks.
           Ok (\<lparr>st_seal_index = seal_index, st_version = version, st_non_sealed_data = non_sealed_data\<rparr> # tasks)))"

definition pull_seal_chunk :: "flow_store \<Rightarrow> nat \<Rightarrow> seal_task list option res" where
  "pull_seal_chunk fs seal_index_max =
     (case btree_iter (to_seal_set fs) of
        [] \<Rightarrow> Ok None
      | (first_index, first_version) # to_seal_iter \<Rightarrow>
          if seal_index_max \<le> first_index then Ok None
          else case get_entry_batch (flow_db fs) (first_index div SEALS_PER_LOAD) of
                 None \<Rightarrow> Panic ''Lost data chunk in to_seal_set''
               | Some batch_data \<Rightarrow>
                   rbind (seal_tasks batch_data ((first_index, first_version) #
                            filter (\<lambda>(x, _). first_index div SEALS_PER_LOAD = x div SEALS_PER_LOAD \<and> x < seal_index_max)
                              to_seal_iter)) (\<lambda>tasks. Ok (Some tasks)))"

text \<open>\<open>group_by\<close> of \<^verbatim>\<open>itertools\<close>: runs of consecutive elements with the same key.\<close>

function group_by :: "('a \<Rightarrow> 'k) \<Rightarrow> 'a list \<Rightarrow> ('k \<times> 'a list) list" where
  "group_by f [] = []"
| "group_by f (x # xs) =
     (f x, x # takeWhile (\<lambda>y. f y = f x) xs) # group_by f (dropWhile (\<lambda>y. f y = f x) xs)"
  by pat_completeness auto
termination
  by (relation "measure (\<lambda>(f, xs). length xs)") (auto simp: less_Suc_eq_le length_dropWhile_le)

definition is_consistent :: "flow_store \<Rightarrow> seal_answer \<Rightarrow> bool" where
  "is_consistent fs answer = (hm_get (to_seal_set fs) (sa_seal_index answer) = Some (sa_version answer))"

fun submit_in_chunk :: "entry_batch \<Rightarrow> seal_answer list \<Rightarrow> entry_batch res" where
  "submit_in_chunk batch_chunk [] = Ok batch_chunk"
| "submit_in_chunk batch_chunk (answer # as) =
     rbind (submit_seal_result batch_chunk answer) (\<lambda>b. submit_in_chunk b as)"

fun submit_groups :: "flow_db \<Rightarrow> (nat \<times> seal_answer list) list \<Rightarrow> (nat \<times> entry_batch) list res" where
  "submit_groups db [] = Ok []"
| "submit_groups db ((load_ix, answers_in_chunk) # gs) =
     (case get_entry_batch db load_ix of
        None \<Rightarrow> Panic ''Can not find chunk data''
      | Some batch_chunk \<Rightarrow>
          rbind (submit_in_chunk batch_chunk answers_in_chunk) (\<lambda>b.
          rbind (submit_groups db gs) (\<lambda>updated_chunk. Ok ((load_ix, b) # updated_chunk))))"

definition submit_seal_results :: "flow_store \<Rightarrow> seal_answer list \<Rightarrow> flow_store res" where
  "submit_seal_results fs answers =
     (let consistent = filter (is_consistent fs) answers
      in rbind (submit_groups (flow_db fs) (group_by (\<lambda>a. sa_seal_index a div SEALS_PER_LOAD) consistent))
           (\<lambda>updated_chunk.
             Ok (fs\<lparr>to_seal_set := fold hm_remove (map sa_seal_index consistent) (to_seal_set fs),
                    flow_db := put_entry_raw (flow_db fs) updated_chunk\<rparr>)))"

end
