(* ===== verification/Flow_Store_Laws.thy ===== *)
theory Flow_Store_Laws
  imports Flow_Store Load_Chunk_Correct
begin

text \<open>
  The flow store as a map from byte offsets to plain bytes: \<open>flow_at\<close>, the invariant \<open>flow_ok\<close>, and
  what \<open>get_entries\<close>, \<open>append_entries\<close> and \<open>truncate\<close> do to that map.
\<close>

subsection \<open>One load chunk\<close>

definition batch_at :: "(byte list \<Rightarrow> h256) \<Rightarrow> entry_batch \<Rightarrow> nat \<Rightarrow> byte option" where
  "batch_at keccak eb off = (if bytes_at (eb_data eb) off = None then None else Some (plain_byte keccak eb off))"

lemma batch_at_None [simp]: "batch_at keccak eb off = None \<longleftrightarrow> bytes_at (eb_data eb) off = None"
  by (simp add: batch_at_def)

lemma bytes_at_limit: "batch_ok d \<Longrightarrow> BYTES_PER_LOAD \<le> off \<Longrightarrow> bytes_at d off = None"
proof (cases d)
  case (Incomplete xs)
  assume ok: "batch_ok d" and off: "BYTES_PER_LOAD \<le> off"
  have "last_byte p \<le> off" if p: "p \<in> set xs" for p
  proof -
    have w: "end_sector p \<le> 1024" using ok Incomplete p by (simp add: batch_ok_def layout_values)
    obtain ys zs where "xs = ys @ p # zs" using p by (meson split_list)
    then have "whole p" using ok Incomplete by (simp add: batch_ok_def ordered_append)
    then have "last_byte p = end_sector p * 256" by (auto simp: whole_def last_byte_def end_sector_def bytes_to_chunks_def first_byte_def layout_values)
    with w off show ?thesis by (simp add: layout_values)
  qed
  then show ?thesis using Incomplete by (simp add: list_lookup_None)
qed (simp add: batch_ok_def vec_get_def)

text \<open>Inserting into free sectors extends the map and keeps the sealing state.\<close>

definition inserted :: "(byte list \<Rightarrow> h256) \<Rightarrow> entry_batch \<Rightarrow> nat \<Rightarrow> byte list \<Rightarrow> entry_batch \<Rightarrow> bool" where
  "inserted keccak eb a data eb' \<longleftrightarrow>
     entry_batch_ok eb' \<and> eb_seal eb' = eb_seal eb \<and>
     (\<forall>off. batch_at keccak eb' off =
        (if a * 256 \<le> off \<and> off < a * 256 + length data then Some (data ! (off - a * 256)) else batch_at keccak eb off))"

lemma sealed_present:
  "entry_batch_ok eb \<Longrightarrow> is_sealed (eb_seal eb) (off div 4096) \<Longrightarrow> bytes_at (eb_data eb) off \<noteq> None"
proof -
  assume "entry_batch_ok eb" "is_sealed (eb_seal eb) (off div 4096)"
  then have "seal_full (eb_data eb) (off div 4096)" by (simp add: entry_batch_ok_def)
  moreover have "off div 4096 * 4096 \<le> off" "off < (off div 4096 + 1) * 4096" by (simp_all add: less_next_multiple [of off 12, simplified])
  ultimately show ?thesis unfolding seal_full_def present_def layout_values by blast
qed

lemma insert_batch_refines:
  assumes ok: "entry_batch_ok eb" and len: "length data = n * 256" "0 < n" and lim: "a + n \<le> SECTORS_PER_LOAD"
    and free: "\<And>off. a * 256 \<le> off \<Longrightarrow> off < (a + n) * 256 \<Longrightarrow> bytes_at (eb_data eb) off = None"
  shows "\<exists>eb' idx. insert_batch_data eb a data = Ok (eb', idx) \<and> inserted keccak eb a data eb' \<and>
     set idx = {x. seal_full (eb_data eb') x \<and> \<not> seal_full (eb_data eb) x}"
proof -
  have b: "batch_ok (eb_data eb)" using ok by (simp add: entry_batch_ok_def)
  have "bytes_at (eb_data eb) (a * 256) = None" using free [of "a * 256"] len by simp
  moreover have "a * 256 < BYTES_PER_LOAD" using lim len by (simp add: layout_values)
  ultimately obtain xs where xs: "eb_data eb = Incomplete xs" using b by (cases "eb_data eb") (auto simp: batch_ok_def vec_get_def)
  have "free_range xs a (a + n)" unfolding free_range_bytes using free xs by auto
  then obtain d' idx where d': "insert_data (Incomplete xs) (a * 256) data = Ok (d', idx)" "batch_ok d'"
    "\<And>off. bytes_at d' off = (if a * 256 \<le> off \<and> off < (a + n) * 256 then Some (data ! (off - a * 256)) else bytes_at (eb_data eb) off)"
    "set idx = {x. seal_full d' x \<and> \<not> seal_full (Incomplete xs) x}"
    using insert_data_refines [of xs data "a + n" a] b xs len lim by auto
  let ?eb = "eb\<lparr>eb_data := d'\<rparr>"
  have grow: "bytes_at d' off \<noteq> None" if "bytes_at (eb_data eb) off \<noteq> None" for off using that by (simp add: d'(3))
  have full: "seal_full d' x" if "seal_full (eb_data eb) x" for x
    using that grow unfolding seal_full_def present_def by blast
  have ok': "entry_batch_ok ?eb" using ok d'(2) full unfolding entry_batch_ok_def by simp
  have same: "plain_byte keccak ?eb off = plain_byte keccak eb off" if p: "bytes_at (eb_data eb) off \<noteq> None" for off
  proof (cases "is_sealed (eb_seal eb) (off div 4096)")
    case True
    have "bytes_at d' o' = bytes_at (eb_data eb) o'" if "o' div 4096 = off div 4096" for o'
    proof -
      have "bytes_at (eb_data eb) o' \<noteq> None" using sealed_present [OF ok, of o'] True that by simp
      then show ?thesis using d'(3) [of o'] free [of o'] by auto
    qed
    then show ?thesis using True by (intro plain_byte_cong [of _ "off div 4096"]) (simp_all add: div_nat_eqI)
  next
    case False
    then show ?thesis using d'(3) [of off] free [of off] p by (auto simp: plain_byte_def)
  qed
  have new: "plain_byte keccak ?eb off = data ! (off - a * 256)" if o: "a * 256 \<le> off" "off < (a + n) * 256" for off
  proof -
    have "\<not> is_sealed (eb_seal eb) (off div 4096)" using sealed_present [OF ok, of off] free [OF o] by blast
    then show ?thesis using d'(3) [of off] o by (simp add: plain_byte_def)
  qed
  have "batch_at keccak ?eb off = (if a * 256 \<le> off \<and> off < a * 256 + length data then Some (data ! (off - a * 256)) else batch_at keccak eb off)" for off
    using new [of off] same [of off] d'(3) [of off] len(1) by (auto simp: batch_at_def)
  then have "inserted keccak eb a data ?eb" using ok' by (simp add: inserted_def)
  moreover have "insert_batch_data eb a data = Ok (?eb, idx)"
    using d'(1) xs by (simp add: insert_batch_data_def layout_values)
  ultimately show ?thesis using d'(4) xs by auto
qed

text \<open>Reading a range with a gap answers \<open>None\<close>, and the root of a chunk never fails to compute.\<close>

lemma get_unsealed_missing:
  assumes ok: "entry_batch_ok eb" and n: "0 < n" and lim: "start + n \<le> SECTORS_PER_LOAD"
    and gap: "\<not> present (eb_data eb) (start * 256) ((start + n) * 256)"
  shows "get_unsealed_data keccak eb start n = Ok None"
proof -
  have b: "batch_ok (eb_data eb)" using ok by (simp add: entry_batch_ok_def)
  have "get_data (eb_data eb) (start * 256) (n * 256) = Ok None"
    using get_data_refines [OF b, of "n * 256" "start * 256"] n lim gap by (simp add: layout_values add_mult_distrib)
  moreover have "get_data (eb_data eb) (start * 256 - 32) (n * 256 + 32) = Ok None" if "start mod 16 \<noteq> 0"
  proof -
    have s: "0 < start" using that by (cases start) auto
    have e: "start * 256 - 32 + (n * 256 + 32) = (start + n) * 256" using s by (cases start) (simp_all add: add_mult_distrib)
    have "\<not> present (eb_data eb) (start * 256 - 32) ((start + n) * 256)" using gap present_mono [of _ "start * 256 - 32"] by auto
    then show ?thesis using get_data_refines [OF b, of "n * 256 + 32" "start * 256 - 32"] lim unfolding e by (simp add: layout_values)
  qed
  ultimately show ?thesis
    by (simp add: get_unsealed_data_def Let_def layout_values)
qed

lemma build_root_total:
  assumes ok: "entry_batch_ok eb" and h: "hash_ok keccak" and first: "first \<longrightarrow> bytes_at (eb_data eb) 0 = None"
  shows "\<exists>r. build_root keccak eb first = Ok r"
proof (cases first)
  case False
  show ?thesis
  proof (cases "present (eb_data eb) (0 * 256) ((0 + SECTORS_PER_LOAD) * 256)")
    case True
    let ?data = "map (unsealed_byte keccak eb 0) [0 * 256..<(0 + SECTORS_PER_LOAD) * 256]"
    have get: "get_unsealed_data keccak eb 0 SECTORS_PER_LOAD = Ok (Some ?data)"
      by (rule get_unsealed_exact [OF ok _ _ True]) (simp_all add: layout_values)
    have "length ?data = 2 ^ 10 * 256" by (simp add: layout_values)
    moreover have "10 \<le> (63::nat)" by simp
    ultimately obtain t r where "sub_merkle_tree keccak ?data = Ok t" "light_tree_root t = Ok r"
      by (rule sub_merkle_tree_root [OF h]) blast
    then show ?thesis using get False by (simp add: build_root_def)
  next
    case False': False
    have "get_unsealed_data keccak eb 0 SECTORS_PER_LOAD = Ok None"
      by (rule get_unsealed_missing [OF ok _ _ False']) (simp_all add: layout_values)
    then show ?thesis using False by (simp add: build_root_def)
  qed
next
  case True
  have b: "batch_ok (eb_data eb)" using ok by (simp add: entry_batch_ok_def)
  obtain xs where xs: "eb_data eb = Incomplete xs"
    using b True first by (cases "eb_data eb") (auto simp: batch_ok_def vec_get_def layout_values)
  show ?thesis
  proof (cases "present (eb_data eb) (1 * 256) ((1 + (SECTORS_PER_LOAD - 1)) * 256)")
    case full: True
    define data where "data = map (unsealed_byte keccak eb 1) [1 * 256..<(1 + (SECTORS_PER_LOAD - 1)) * 256]"
    let ?ls = "map (a_leaf (sha3_algo keccak)) (chunks_exact CHUNK_SIZE data)"
    have get: "get_unsealed_data keccak eb 1 (SECTORS_PER_LOAD - 1) = Ok (Some data)"
      unfolding data_def by (rule get_unsealed_exact [OF ok _ _ full]) (simp_all add: layout_values)
    have "length data = (1 + (SECTORS_PER_LOAD - 1)) * 256 - 1 * 256" unfolding data_def length_map length_upt ..
    then have leaves: "data_to_merkle_leaves keccak data = Ok ?ls"
      by (simp add: data_to_merkle_leaves_def layout_values CHUNK_SIZE_def)
    have "null_free (sha3_algo keccak)" "\<forall>x \<in> set (h256_zero # ?ls). x \<noteq> a_null (sha3_algo keccak)"
      using h by (auto simp: hash_ok_def null_free_def sha3_algo_def h256_zero_def h256_null_def)
    from new_amt_full [OF this] obtain t where t: "new_amt (sha3_algo keccak) (h256_zero # ?ls) 0 None = Ok t"
      "tree_inv (sha3_algo keccak) t (h256_zero # ?ls)" by metis
    obtain r where "amt_root t = Ok r" using tree_root [OF t(2)] by blast
    then show ?thesis using get leaves t(1) xs True by (simp add: build_root_def build_root_for_first_chunk_def)
  next
    case gap: False
    have "get_unsealed_data keccak eb 1 (SECTORS_PER_LOAD - 1) = Ok None"
      by (rule get_unsealed_missing [OF ok _ _ gap]) (simp_all add: layout_values)
    then show ?thesis using xs True by (simp add: build_root_def build_root_for_first_chunk_def)
  qed
qed

subsection \<open>The pieces of a range\<close>

text \<open>\<open>batch_iter\<close> cuts a range at the boundaries of the batches: one piece for every batch it meets.\<close>

definition piece :: "nat \<Rightarrow> nat \<Rightarrow> nat \<Rightarrow> nat \<Rightarrow> nat \<times> nat" where
  "piece n s e ci = (max s (ci * n), min e (ci * n + n))"

lemma batch_iter_pieces:
  assumes "0 < n" and "s \<le> e"
  shows "batch_iter s e n = Ok (map (piece n s e) [s div n..<(e + n - 1) div n])"
proof -
  let ?q = "s div n"
  have le: "?q * n \<le> e" using assms(2) by (rule order_trans [OF div_times_less_eq_dividend])
  have "e + n - 1 = (e - ?q * n + n - 1) + ?q * n" using le assms(1) by simp
  then have "(e + n - 1) div n = (e - ?q * n + n - 1 + ?q * n) div n" by simp
  also have "\<dots> = ?q + (e - ?q * n + n - 1) div n" by (rule div_mult_self1) (use assms(1) in simp)
  finally have "[?q..<(e + n - 1) div n] = map (\<lambda>k. k + ?q) [0..<(e - ?q * n + n - 1) div n]"
    by (simp only: map_add_upt add_0 add.commute)
  moreover have "piece n s e (k + ?q) = (max s (?q * n + k * n), min e (?q * n + k * n + n))" for k
    by (simp add: piece_def add_mult_distrib add.commute)
  ultimately show ?thesis using assms(1)
    by (simp only: batch_iter_def step_by_def map_map comp_def if_False) simp
qed

lemma pieces_in_range:
  assumes "0 < n" and "ci \<in> set [s div n..<(e + n - 1) div n]" and "s < e"
  shows "fst (piece n s e ci) < snd (piece n s e ci)" "fst (piece n s e ci) div n = ci"
    "s \<le> fst (piece n s e ci)" "snd (piece n s e ci) \<le> e" "snd (piece n s e ci) \<le> ci * n + n"
proof -
  have a: "s div n \<le> ci" "ci < (e + n - 1) div n" using assms(2) by auto
  have b: "s < (ci + 1) * n" "ci * n < e"
    using a div_le_iff [OF assms(1), of s ci] less_ceil_div_iff [OF assms(1), of ci e] by blast+
  then show "fst (piece n s e ci) < snd (piece n s e ci)" using assms by (auto simp: piece_def)
  show "fst (piece n s e ci) div n = ci"
  proof (cases "s \<le> ci * n")
    case False
    then have "s div n = ci" using b(1) by (intro div_nat_eqI) (auto simp: algebra_simps)
    with False show ?thesis by (simp add: piece_def)
  qed (use assms(1) in \<open>simp add: piece_def max_def\<close>)
qed (auto simp: piece_def)

lemma concat_pieces:
  assumes "0 < n" and "s < e"
  shows "concat (map (\<lambda>ci. [fst (piece n s e ci) * k..<snd (piece n s e ci) * k]) [s div n..<(e + n - 1) div n]) = [s * k..<e * k]"
proof -
  have "concat (map (\<lambda>ci. [fst (piece n s e ci) * k..<snd (piece n s e ci) * k]) [s div n..<m]) = [s * k..<min e (m * n) * k]"
    if "s div n < m" "(m - 1) * n < e" for m
    using that
  proof (induction m)
    case (Suc m)
    have s_lt: "s < Suc m * n" using Suc.prems(1) assms(1) by (simp add: div_less_iff_less_mult)
    show ?case
    proof (cases "s div n = m")
      case True
      then have "m * n \<le> s" by (metis div_times_less_eq_dividend)
      then show ?thesis using True by (simp add: piece_def add.commute max_def)
    next
      case False
      then have lt: "s div n < m" using Suc.prems(1) by simp
      then have "s < m * n" using assms(1) by (simp add: div_less_iff_less_mult)
      moreover have mn: "m * n < e" using Suc.prems(2) by simp
      then have "(m - 1) * n < e" by (rule le_less_trans [rotated]) simp
      with Suc.IH [OF lt] mn have "concat (map (\<lambda>ci. [fst (piece n s e ci) * k..<snd (piece n s e ci) * k]) [s div n..<m]) = [s * k..<m * n * k]"
        by (simp add: min_def)
      moreover have "[s * k..<min e (Suc m * n) * k] = [s * k..<m * n * k] @ [m * n * k..<min e (Suc m * n) * k]"
        using upt_add_eq_append [of "s * k" "m * n * k" "min e (Suc m * n) * k - m * n * k"] \<open>s < m * n\<close> mn
        by (simp add: mult_le_mono1)
      ultimately show ?thesis using lt by (simp add: piece_def max_def add.commute)
    qed
  qed simp
  moreover have "s div n < (e + n - 1) div n"
    unfolding less_ceil_div_iff [OF assms(1)] by (rule le_less_trans [OF div_times_less_eq_dividend assms(2)])
  moreover from this have "(e + n - 1) div n - 1 < (e + n - 1) div n" by simp
  then have "((e + n - 1) div n - 1) * n < e" by (simp only: less_ceil_div_iff [OF assms(1)])
  moreover have "min e ((e + n - 1) div n * n) = e"
    using ceil_div_le_iff [OF assms(1), of e "(e + n - 1) div n"] by (simp only: min_def) simp
  ultimately show ?thesis by (simp only:)
qed

subsection \<open>The flow as a map\<close>

definition flow_ok :: "flow_store \<Rightarrow> bool" where
  "flow_ok fs \<longleftrightarrow>
     batch_size fs = SECTORS_PER_LOAD \<and>
     (\<forall>ci eb. get_entry_batch (flow_db fs) ci = Some eb \<longrightarrow> entry_batch_ok eb \<and> load_index (eb_seal eb) = ci)"

definition batch_or_new :: "flow_store \<Rightarrow> nat \<Rightarrow> entry_batch" where
  "batch_or_new fs ci = (case get_entry_batch (flow_db fs) ci of Some b \<Rightarrow> b | None \<Rightarrow> new_entry_batch ci)"

definition flow_at :: "(byte list \<Rightarrow> h256) \<Rightarrow> flow_store \<Rightarrow> nat \<Rightarrow> byte option" where
  "flow_at keccak fs off = batch_at keccak (batch_or_new fs (off div BYTES_PER_LOAD)) (off mod BYTES_PER_LOAD)"

lemma new_entry_batch_ok: "entry_batch_ok (new_entry_batch ci)" "bytes_at (eb_data (new_entry_batch ci)) off = None"
    "load_index (eb_seal (new_entry_batch ci)) = ci" "\<not> is_sealed (eb_seal (new_entry_batch ci)) x"
  by (simp_all add: new_entry_batch_def new_data_def entry_batch_ok_def batch_ok_def contexts_ok_def new_seal_info_def is_sealed_def)

lemma batch_or_new_ok:
  assumes "flow_ok fs"
  shows "entry_batch_ok (batch_or_new fs ci)" "load_index (eb_seal (batch_or_new fs ci)) = ci"
  using assms new_entry_batch_ok by (auto simp: flow_ok_def batch_or_new_def split: option.split)

lemma flow_at_None: "flow_at keccak fs off = None \<longleftrightarrow> bytes_at (eb_data (batch_or_new fs (off div BYTES_PER_LOAD))) (off mod BYTES_PER_LOAD) = None"
  by (simp add: flow_at_def)

lemma flow_at_local:
  "x < BYTES_PER_LOAD \<Longrightarrow> flow_at keccak fs (ci * BYTES_PER_LOAD + x) = batch_at keccak (batch_or_new fs ci) x"
  by (simp add: flow_at_def)

text \<open>A read does not begin at a sealed seal chunk, in any batch it meets.\<close>

definition plain_read :: "flow_store \<Rightarrow> nat \<Rightarrow> nat \<Rightarrow> bool" where
  "plain_read fs s e \<longleftrightarrow>
     (\<forall>ci \<in> set [s div SECTORS_PER_LOAD..<(e + SECTORS_PER_LOAD - 1) div SECTORS_PER_LOAD].
        let a = fst (piece SECTORS_PER_LOAD s e ci)
        in a mod SECTORS_PER_SEAL \<noteq> 0 \<or>
           \<not> is_sealed (eb_seal (batch_or_new fs ci)) (a mod SECTORS_PER_LOAD div SECTORS_PER_SEAL))"

lemma batch_plain_read:
  assumes "entry_batch_ok eb" and "0 < n" and "a + n \<le> SECTORS_PER_LOAD"
    and "a mod 16 \<noteq> 0 \<or> \<not> is_sealed (eb_seal eb) (a div 16)"
  shows "get_unsealed_data keccak eb a n =
     Ok (if \<forall>off \<in> {a * 256..<(a + n) * 256}. batch_at keccak eb off \<noteq> None
         then Some (map (\<lambda>off. the (batch_at keccak eb off)) [a * 256..<(a + n) * 256]) else None)"
proof (cases "present (eb_data eb) (a * 256) ((a + n) * 256)")
  case True
  have "unsealed_byte keccak eb a off = the (batch_at keccak eb off)" if "a * 256 \<le> off" "off < (a + n) * 256" for off
  proof (cases "a mod 16 = 0 \<and> off < a * 256 + 4096")
    case t: True
    then obtain x where x: "a = x * 16" by (metis mod_0_imp_dvd dvd_def mult.commute)
    with assms(4) have "\<not> is_sealed (eb_seal eb) x" by simp
    from plain_unsealed [OF this, of off keccak] t that x True show ?thesis
      by (simp add: unsealed_byte_def batch_at_def present_def)
  qed (use that True in \<open>auto simp: unsealed_byte_def batch_at_def present_def\<close>)
  then show ?thesis unfolding get_unsealed_exact [OF assms(1-3) True] using True by (simp add: present_def)
next
  case False
  then have "\<not> (\<forall>off \<in> {a * 256..<(a + n) * 256}. batch_at keccak eb off \<noteq> None)" by (auto simp: present_def)
  then show ?thesis using get_unsealed_missing [OF assms(1-3) False] by (simp only: if_False)
qed

lemma map_shift_upt: "map (\<lambda>x. c + x) [a..<b] = [c + a..<c + b]"
  by (rule nth_equalityI) simp_all

lemma case_if_Some: "(case (if P then Some d else None) of None \<Rightarrow> n | Some d \<Rightarrow> f d) = (if P then f d else n)"
  by simp

lemma read_piece:
  assumes ok: "flow_ok fs" and s: "0 < s" "s < e" and ci: "ci \<in> set [s div 1024..<(e + 1024 - 1) div 1024]"
    and pl: "plain_read fs s e" and p: "piece 1024 s e ci = (a, b)"
  shows "read_batches keccak fs ((a, b) # ps) =
    (if \<forall>off \<in> {a * 256..<b * 256}. flow_at keccak fs off \<noteq> None
     then rbind (read_batches keccak fs ps) (\<lambda>r. Ok (map_option (\<lambda>r. map (\<lambda>off. the (flow_at keccak fs off)) [a * 256..<b * 256] @ r) r))
     else Ok None)"
proof -
  have r: "a < b" "a div 1024 = ci" "s \<le> a" "b \<le> ci * 1024 + 1024"
    using pieces_in_range [of 1024 ci s e] ci s(2) p by simp_all
  let ?o = "a - ci * 1024" and ?n = "b - a" and ?eb = "batch_or_new fs ci"
  have le: "ci * 1024 \<le> a" using r(2) by (metis div_times_less_eq_dividend)
  have o: "a mod 1024 = ?o" using r(2) by (metis minus_div_mult_eq_mod)
  have bs: "batch_size fs = 1024" using ok by (simp add: flow_ok_def layout_values)
  have lim: "?o + ?n \<le> SECTORS_PER_LOAD" "0 < ?n" using r le by (simp_all add: layout_values)
  have "a mod 1024 mod 16 = a mod 16" by (rule mod_mod_cancel) simp
  moreover have "a mod 16 \<noteq> 0 \<or> \<not> is_sealed (eb_seal ?eb) (a mod 1024 div 16)"
    using bspec [OF pl [unfolded plain_read_def layout_values] ci] unfolding Let_def p fst_conv .
  ultimately have "?o mod 16 \<noteq> 0 \<or> \<not> is_sealed (eb_seal ?eb) (?o div 16)" unfolding o by simp
  note get = batch_plain_read [OF batch_or_new_ok(1) [OF ok] lim(2,1) this, of keccak]
  have at: "flow_at keccak fs (ci * 262144 + x) = batch_at keccak ?eb x" if "x < 262144" for x
    using flow_at_local [of x keccak fs ci] that by (simp add: layout_values)
  have up: "[a * 256..<b * 256] = map (\<lambda>x. ci * 262144 + x) [?o * 256..<(?o + ?n) * 256]"
    unfolding map_shift_upt using le r(1) by (simp add: diff_mult_distrib add_mult_distrib)
  have inside: "x < 262144" if "x \<in> set [?o * 256..<(?o + ?n) * 256]" for x
    using that lim(1) by (simp add: layout_values)
  have data: "map (\<lambda>off. the (flow_at keccak fs off)) [a * 256..<b * 256] = map (\<lambda>x. the (batch_at keccak ?eb x)) [?o * 256..<(?o + ?n) * 256]"
    unfolding up map_map comp_def by (rule map_cong [OF refl]) (simp only: at inside)
  have all: "(\<forall>off \<in> {a * 256..<b * 256}. flow_at keccak fs off \<noteq> None) \<longleftrightarrow>
      (\<forall>x \<in> {?o * 256..<(?o + ?n) * 256}. batch_at keccak ?eb x \<noteq> None)"
    unfolding set_upt [symmetric] up set_map ball_simps(9) by (rule ball_cong [OF refl]) (simp only: at inside)
  have tmp: "\<not> (ci = 0 \<and> ?o = 0)" using r(3) s(1) by auto
  show ?thesis
  proof (cases "get_entry_batch (flow_db fs) ci")
    case None
    then have "flow_at keccak fs (a * 256) = None"
      using at [of "?o * 256"] inside [of "?o * 256"] lim le new_entry_batch_ok(2)
      by (simp add: batch_or_new_def diff_mult_distrib algebra_simps)
    then have "\<not> (\<forall>off \<in> {a * 256..<b * 256}. flow_at keccak fs off \<noteq> None)" using r(1) by (auto intro!: bexI [of _ "a * 256"])
    then show ?thesis using None tmp by (subst if_not_P) (assumption, simp add: bs r(2) Let_def)
  next
    case (Some eb)
    then have eb: "?eb = eb" by (simp add: batch_or_new_def)
    have "read_batches keccak fs ((a, b) # ps) = rbind (get_unsealed_data keccak eb ?o ?n) (\<lambda>d.
        case d of None \<Rightarrow> Ok None | Some d \<Rightarrow> rbind (read_batches keccak fs ps) (\<lambda>rest. Ok (map_option (\<lambda>r. d @ r) rest)))"
      by (simp only: read_batches.simps bs r(2) Let_def tmp if_False prod.case Some option.case)
    then show ?thesis unfolding all data get [unfolded eb] eb by (simp only: rbind.simps case_if_Some)
  qed
qed

lemma read_both:
  "(if P then rbind (Ok (if Q then Some x else None)) (\<lambda>r. Ok (map_option (\<lambda>r. d @ r) r)) else Ok None) =
     Ok (if P \<and> Q then Some (d @ x) else None)"
  by simp

lemma read_pieces:
  assumes ok: "flow_ok fs" and s: "0 < s" "s < e" and pl: "plain_read fs s e"
  shows "set cis \<subseteq> set [s div 1024..<(e + 1024 - 1) div 1024] \<Longrightarrow>
    read_batches keccak fs (map (piece 1024 s e) cis) =
    Ok (let offs = concat (map (\<lambda>ci. [fst (piece 1024 s e ci) * 256..<snd (piece 1024 s e ci) * 256]) cis)
        in if \<forall>off \<in> set offs. flow_at keccak fs off \<noteq> None then Some (map (\<lambda>off. the (flow_at keccak fs off)) offs) else None)"
proof (induction cis)
  case (Cons ci cis)
  obtain a b where p: "piece 1024 s e ci = (a, b)" by (cases "piece 1024 s e ci")
  have ci: "ci \<in> set [s div 1024..<(e + 1024 - 1) div 1024]" and sub: "set cis \<subseteq> set [s div 1024..<(e + 1024 - 1) div 1024]"
    using Cons.prems by auto
  show ?case
    unfolding list.map p concat.simps fst_conv snd_conv read_piece [OF ok s ci pl p] Cons.IH [OF sub] Let_def set_append
      ball_Un map_append read_both set_upt ..
qed simp

lemma get_entries_exact:
  assumes ok: "flow_ok fs" and s: "0 < s" "s < e" and pl: "plain_read fs s e"
  shows "get_entries keccak fs s e =
    Ok (if \<forall>off \<in> {s * 256..<e * 256}. flow_at keccak fs off \<noteq> None
        then Some \<lparr>ca_data = map (\<lambda>off. the (flow_at keccak fs off)) [s * 256..<e * 256], ca_start = s\<rparr> else None)"
proof -
  let ?cis = "[s div 1024..<(e + 1024 - 1) div 1024]"
  have bs: "batch_size fs = 1024" using ok by (simp add: flow_ok_def layout_values)
  have "batch_iter s e 1024 = Ok (map (piece 1024 s e) ?cis)" by (rule batch_iter_pieces) (use s in simp_all)
  moreover have "concat (map (\<lambda>ci. [fst (piece 1024 s e ci) * 256..<snd (piece 1024 s e ci) * 256]) ?cis) = [s * 256..<e * 256]"
    by (rule concat_pieces) (use s in simp_all)
  ultimately show ?thesis using read_pieces [OF ok s pl order_refl, of keccak] s
    by (simp add: get_entries_def bs Let_def)
qed

subsection \<open>Appending\<close>

lemma hm_get_inserts: "hm_get (fold (\<lambda>x. hm_insert x v) idx m) k = (if k \<in> set idx then Some v else hm_get m k)"
  by (induction idx arbitrary: m) auto

lemma add_seal_tasks_simps [simp]:
  "flow_db (add_seal_tasks idx fs) = flow_db fs" "batch_size (add_seal_tasks idx fs) = batch_size fs"
  "to_seal_version (add_seal_tasks idx fs) = to_seal_version fs"
  "hm_get (to_seal_set (add_seal_tasks idx fs)) k = (if k \<in> set idx then Some (to_seal_version fs) else hm_get (to_seal_set fs) k)"
  by (simp_all add: add_seal_tasks_def hm_get_inserts)

lemma batch_or_new_cong: "flow_db fs = flow_db fs' \<Longrightarrow> batch_or_new fs = batch_or_new fs'"
  by (rule ext) (simp add: batch_or_new_def)

lemma seal_full_limit: "batch_ok d \<Longrightarrow> seal_full d x \<Longrightarrow> x < 64"
proof (rule ccontr)
  assume "batch_ok d" "seal_full d x" "\<not> x < 64"
  moreover from this(3) have "BYTES_PER_LOAD \<le> x * 4096" by (simp add: layout_values)
  ultimately show False using bytes_at_limit [of d "x * 4096"] by (auto simp: seal_full_def present_def layout_values)
qed

text \<open>A batch after the part of the range \<open>[s, e)\<close> that falls into it has been written.\<close>

definition appended :: "(byte list \<Rightarrow> h256) \<Rightarrow> nat \<Rightarrow> nat \<Rightarrow> byte list \<Rightarrow> nat \<Rightarrow> entry_batch \<Rightarrow> entry_batch \<Rightarrow> bool" where
  "appended keccak s e data ci old new \<longleftrightarrow>
     entry_batch_ok new \<and> eb_seal new = eb_seal old \<and>
     (\<forall>x < BYTES_PER_LOAD. batch_at keccak new x =
        (let off = ci * BYTES_PER_LOAD + x
         in if s * 256 \<le> off \<and> off < e * 256 then Some (data ! (off - s * 256)) else batch_at keccak old x))"

lemma append_piece:
  assumes ok: "flow_ok fs" and s: "s < e" and ci: "ci \<in> set [s div 1024..<(e + 1024 - 1) div 1024]"
    and data: "ca_start arr = s" "length (ca_data arr) = (e - s) * 256" and p: "piece 1024 s e ci = (a, b)"
    and free: "\<And>off. s * 256 \<le> off \<Longrightarrow> off < e * 256 \<Longrightarrow> flow_at keccak fs off = None"
  obtains c eb idx where "sub_array arr a b = Ok (Some c)" "ca_start c = a"
    "insert_batch_data (batch_or_new fs ci) (a mod 1024) (ca_data c) = Ok (eb, idx)"
    "appended keccak s e (ca_data arr) ci (batch_or_new fs ci) eb"
    "set idx = {x. seal_full (eb_data eb) x \<and> \<not> seal_full (eb_data (batch_or_new fs ci)) x}"
proof -
  have r: "a < b" "a div 1024 = ci" "s \<le> a" "b \<le> e" "b \<le> ci * 1024 + 1024"
    using pieces_in_range [of 1024 ci s e] ci s p by simp_all
  define i n where "i = a mod 1024" and "n = b - a"
  have a: "a = ci * 1024 + i" unfolding i_def using r(2) by (metis div_mult_mod_eq)
  have b: "b = ci * 1024 + i + n" and n: "0 < n" "i + n \<le> 1024" using r(1,5) a by (simp_all add: n_def)
  have pe: "max s (ci * 1024) = ci * 1024 + i" "min e (ci * 1024 + 1024) = ci * 1024 + i + n"
    using p a b by (simp_all add: piece_def)
  let ?eb = "batch_or_new fs ci" and ?d = "slice (ca_data arr) ((a - s) * 256) ((b - s) * 256)"
  let ?c = "\<lparr>ca_data = ?d, ca_start = a\<rparr>"
  have bl: "(b - s) * 256 \<le> length (ca_data arr)" using r data(2) by simp
  then have sub: "sub_array arr a b = Ok (Some ?c)"
    using r s data by (simp add: sub_array_def CHUNK_SIZE_def Let_def slice_index_def diff_le_mono)
  have dl: "length ?d = n * 256" using r bl unfolding length_slice n_def by (simp add: diff_mult_distrib)
  have lim: "i + n \<le> SECTORS_PER_LOAD" using n by (simp add: layout_values)
  have at: "flow_at keccak fs (ci * 262144 + x) = batch_at keccak ?eb x" if "x < 262144" for x
    using flow_at_local [of x keccak fs ci] that by (simp add: layout_values)
  have inr: "s * 256 \<le> ci * 262144 + x \<and> ci * 262144 + x < e * 256 \<longleftrightarrow> i * 256 \<le> x \<and> x < (i + n) * 256"
    if "x < 262144" for x
    using that pe unfolding max_def min_def by (auto split: if_splits)
  have fr: "bytes_at (eb_data ?eb) x = None" if x: "i * 256 \<le> x" "x < (i + n) * 256" for x
  proof -
    have "x < 262144" using x(2) n by simp
    then show ?thesis using inr [of x] x free [of "ci * 262144 + x"] at [of x] by simp
  qed
  have "\<exists>eb idx. insert_batch_data ?eb i ?d = Ok (eb, idx) \<and> inserted keccak ?eb i ?d eb \<and>
      set idx = {x. seal_full (eb_data eb) x \<and> \<not> seal_full (eb_data ?eb) x}"
    by (rule insert_batch_refines [OF batch_or_new_ok(1) [OF ok] dl n(1) lim]) (rule fr)
  then obtain eb idx where eb: "insert_batch_data ?eb i ?d = Ok (eb, idx)" "inserted keccak ?eb i ?d eb"
    "set idx = {x. seal_full (eb_data eb) x \<and> \<not> seal_full (eb_data ?eb) x}"
    by (elim exE conjE) (rule that)
  have new: "batch_at keccak eb x = (if i * 256 \<le> x \<and> x < (i + n) * 256 then Some (?d ! (x - i * 256)) else batch_at keccak ?eb x)" for x
    using eb(2) unfolding inserted_def dl add_mult_distrib by blast
  have "batch_at keccak eb x = (if s * 256 \<le> ci * 262144 + x \<and> ci * 262144 + x < e * 256
      then Some (ca_data arr ! (ci * 262144 + x - s * 256)) else batch_at keccak ?eb x)"
    if x: "x < 262144" for x
  proof (cases "i * 256 \<le> x \<and> x < (i + n) * 256")
    case True
    have "(a - s) * 256 + (x - i * 256) = ci * 262144 + x - s * 256" using True r(3) a by (simp add: diff_mult_distrib)
    moreover have "x - i * 256 < (b - s) * 256 - (a - s) * 256" using True r a b by (auto simp: diff_mult_distrib)
    ultimately have "?d ! (x - i * 256) = ca_data arr ! (ci * 262144 + x - s * 256)"
      using bl by (subst nth_slice) simp_all
    then show ?thesis unfolding new inr [OF x] by simp
  next
    case False
    then show ?thesis unfolding new inr [OF x] by (simp only: if_False)
  qed
  then have "appended keccak s e (ca_data arr) ci ?eb eb"
    using eb(2) by (simp add: appended_def inserted_def layout_values Let_def)
  then show thesis using that [of ?c eb idx] sub eb by (simp add: i_def)
qed

text \<open>The seal chunks that became complete, as global indices.\<close>

definition new_task :: "flow_store \<Rightarrow> (nat \<times> entry_batch) list \<Rightarrow> nat \<Rightarrow> bool" where
  "new_task fs bl k \<longleftrightarrow>
     (\<exists>eb. (k div 64, eb) \<in> set bl \<and> seal_full (eb_data eb) (k mod 64) \<and>
           \<not> seal_full (eb_data (batch_or_new fs (k div 64))) (k mod 64))"

lemma task_index:
  assumes "batch_ok d'" and "set idx = {x. seal_full d' x \<and> \<not> seal_full d x}"
  shows "k \<in> set (map (\<lambda>x. ci * 64 + x) idx) \<longleftrightarrow> k div 64 = ci \<and> seal_full d' (k mod 64) \<and> \<not> seal_full d (k mod 64)"
proof
  assume "k \<in> set (map (\<lambda>x. ci * 64 + x) idx)"
  then obtain x where x: "k = ci * 64 + x" "seal_full d' x" "\<not> seal_full d x" using assms(2) by auto
  moreover have "x < 64" using seal_full_limit [OF assms(1) x(2)] .
  ultimately show "k div 64 = ci \<and> seal_full d' (k mod 64) \<and> \<not> seal_full d (k mod 64)" by simp
next
  assume a: "k div 64 = ci \<and> seal_full d' (k mod 64) \<and> \<not> seal_full d (k mod 64)"
  then have "k = ci * 64 + k mod 64" by (metis div_mult_mod_eq)
  moreover have "k mod 64 \<in> set idx" using a assms(2) by simp
  ultimately show "k \<in> set (map (\<lambda>x. ci * 64 + x) idx)" by (metis (no_types, lifting) imageI list.set_map)
qed

lemma append_pieces:
  assumes ok: "flow_ok fs" and s: "s < e"
    and data: "ca_start arr = s" "length (ca_data arr) = (e - s) * 256"
    and free: "\<And>off. s * 256 \<le> off \<Longrightarrow> off < e * 256 \<Longrightarrow> flow_at keccak fs off = None"
  shows "set cis \<subseteq> set [s div 1024..<(e + 1024 - 1) div 1024] \<Longrightarrow> distinct cis \<Longrightarrow>
    flow_db g = flow_db fs \<Longrightarrow> batch_size g = batch_size fs \<Longrightarrow>
    \<exists>g' bl. append_batches arr (map (piece 1024 s e) cis) g = (g', Ok bl) \<and> map fst bl = cis \<and>
      flow_db g' = flow_db fs \<and> batch_size g' = batch_size fs \<and> to_seal_version g' = to_seal_version g \<and>
      (\<forall>(ci, eb) \<in> set bl. appended keccak s e (ca_data arr) ci (batch_or_new fs ci) eb) \<and>
      (\<forall>k. hm_get (to_seal_set g') k = (if new_task fs bl k then Some (to_seal_version g) else hm_get (to_seal_set g) k))"
proof (induction cis arbitrary: g)
  case Nil
  then show ?case by (simp add: op_lift_def new_task_def)
next
  case (Cons ci cis)
  obtain a b where p: "piece 1024 s e ci = (a, b)" by (cases "piece 1024 s e ci")
  have ci: "ci \<in> set [s div 1024..<(e + 1024 - 1) div 1024]" using Cons.prems(1) by simp
  have bs: "batch_size g = 1024" using ok Cons.prems(4) by (simp add: flow_ok_def layout_values)
  have ac: "a div 1024 = ci" using pieces_in_range(2) [of 1024 ci s e] ci s p by simp
  obtain c eb idx where c: "sub_array arr a b = Ok (Some c)" "ca_start c = a"
    "insert_batch_data (batch_or_new fs ci) (a mod 1024) (ca_data c) = Ok (eb, idx)"
    "appended keccak s e (ca_data arr) ci (batch_or_new fs ci) eb"
    "set idx = {x. seal_full (eb_data eb) x \<and> \<not> seal_full (eb_data (batch_or_new fs ci)) x}"
    by (rule append_piece [OF ok s ci data p free])
  define h where "h = add_seal_tasks (map (\<lambda>x. ci * 64 + x) idx) g"
  obtain g' bl where IH: "append_batches arr (map (piece 1024 s e) cis) h = (g', Ok bl)" "map fst bl = cis"
    "flow_db g' = flow_db fs" "batch_size g' = batch_size fs" "to_seal_version g' = to_seal_version h"
    "\<forall>(ci, eb) \<in> set bl. appended keccak s e (ca_data arr) ci (batch_or_new fs ci) eb"
    "\<And>k. hm_get (to_seal_set g') k = (if new_task fs bl k then Some (to_seal_version h) else hm_get (to_seal_set h) k)"
    using Cons.IH [of h] Cons.prems by (auto simp: h_def)
  have "append_batches arr (map (piece 1024 s e) (ci # cis)) g = (g', Ok ((ci, eb) # bl))"
    using c(1-3) IH(1) Cons.prems(3) p
    by (simp only: list.map append_batches.simps op_bind_def op_lift_def op_modify_def bs ac Let_def h_def layout_values
        batch_or_new_def prod.case res.case option.case c(2))
  moreover have "batch_ok (eb_data eb)" using c(4) by (simp add: appended_def entry_batch_ok_def)
  from task_index [OF this c(5)] have "new_task fs ((ci, eb) # bl) k \<longleftrightarrow> k \<in> set (map (\<lambda>x. ci * 64 + x) idx) \<or> new_task fs bl k" for k
    by (simp only: new_task_def list.set insert_iff prod.inject) blast
  ultimately show ?case using IH c(4) by (intro exI [of _ g'] exI [of _ "(ci, eb) # bl"]) (auto simp: h_def)
qed

definition flow_full :: "flow_store \<Rightarrow> nat \<Rightarrow> bool" where
  "flow_full fs k \<longleftrightarrow> seal_full (eb_data (batch_or_new fs (k div 64))) (k mod 64)"

definition flow_sealed :: "flow_store \<Rightarrow> nat \<Rightarrow> bool" where
  "flow_sealed fs k \<longleftrightarrow> is_sealed (eb_seal (batch_or_new fs (k div 64))) (k mod 64)"

lemma completed_roots_total:
  "(\<forall>(ci, eb) \<in> set bl. \<exists>r. build_root keccak eb (ci = 0) = Ok r) \<Longrightarrow> \<exists>rs. completed_roots keccak bl = Ok rs"
  by (induction bl) auto

lemma map_of_fst: "map_of bl ci = None \<longleftrightarrow> ci \<notin> set (map fst bl)"
  by (simp add: map_of_eq_None_iff)

text \<open>
  \<open>append_entries\<close> of a free range extends the map by exactly the data, keeps every sealed seal chunk,
  and records a task for exactly the seal chunks that became complete.
\<close>

lemma append_entries_refines:
  assumes ok: "flow_ok fs" and h: "hash_ok keccak" and s: "0 < s" "s < e"
    and data: "ca_start arr = s" "length (ca_data arr) = (e - s) * 256"
    and free: "\<And>off. s * 256 \<le> off \<Longrightarrow> off < e * 256 \<Longrightarrow> flow_at keccak fs off = None"
    and first: "flow_at keccak fs 0 = None"
  obtains fs' roots where "append_entries keccak arr fs = (fs', Ok roots)" "flow_ok fs'"
    "\<And>off. flow_at keccak fs' off = (if s * 256 \<le> off \<and> off < e * 256 then Some (ca_data arr ! (off - s * 256)) else flow_at keccak fs off)"
    "\<And>k. flow_sealed fs' k = flow_sealed fs k" "to_seal_version fs' = to_seal_version fs"
    "\<And>k. hm_get (to_seal_set fs') k =
       (if flow_full fs' k \<and> \<not> flow_full fs k then Some (to_seal_version fs) else hm_get (to_seal_set fs) k)"
proof -
  let ?cis = "[s div 1024..<(e + 1024 - 1) div 1024]"
  have bs: "batch_size fs = 1024" using ok by (simp add: flow_ok_def layout_values)
  obtain g bl where g: "append_batches arr (map (piece 1024 s e) ?cis) fs = (g, Ok bl)" "map fst bl = ?cis"
    "flow_db g = flow_db fs" "batch_size g = batch_size fs" "to_seal_version g = to_seal_version fs"
    "\<forall>(ci, eb) \<in> set bl. appended keccak s e (ca_data arr) ci (batch_or_new fs ci) eb"
    "\<And>k. hm_get (to_seal_set g) k = (if new_task fs bl k then Some (to_seal_version fs) else hm_get (to_seal_set fs) k)"
    using append_pieces [OF ok s(2) data free, of ?cis fs] by (auto simp del: upt_Suc)
  have g6: "appended keccak s e (ca_data arr) ci (batch_or_new fs ci) eb" if "(ci, eb) \<in> set bl" for ci eb
    using g(6) that by blast
  have "\<exists>r. build_root keccak eb (ci = 0) = Ok r" if m: "(ci, eb) \<in> set bl" for ci eb
  proof (rule build_root_total [OF _ h])
    show "entry_batch_ok eb" using g6 [OF m] by (simp add: appended_def)
    show "ci = 0 \<longrightarrow> bytes_at (eb_data eb) 0 = None"
    proof
      assume "ci = 0"
      then have "batch_at keccak eb 0 = batch_at keccak (batch_or_new fs 0) 0"
        using g6 [OF m] s(1) by (simp add: appended_def Let_def layout_values)
      then have "batch_at keccak eb 0 = None" using first by (simp add: flow_at_def)
      then show "bytes_at (eb_data eb) 0 = None" by simp
    qed
  qed
  then obtain roots where roots: "completed_roots keccak bl = Ok roots" using completed_roots_total [of bl keccak] by blast
  define db where "db = \<lparr>col_entry_batch = kv_write (map (\<lambda>(i, b). Put i b) bl) (col_entry_batch (flow_db fs)),
      col_entry_batch_root = kv_write (map (\<lambda>(i, r). Put i (Single r)) roots) (col_entry_batch_root (flow_db fs))\<rparr>"
  define fs' where "fs' = g\<lparr>flow_db := db\<rparr>"
  have len: "s + bytes_to_entries (length (ca_data arr)) = e" "length (ca_data arr) mod BYTES_PER_SECTOR = 0"
    using data s by (simp_all add: bytes_to_entries_def CHUNK_SIZE_def layout_values)
  have it: "batch_iter s e 1024 = Ok (map (piece 1024 s e) ?cis)" by (rule batch_iter_pieces) (use s in simp_all)
  have run: "append_entries keccak arr fs = (fs', Ok roots)"
    unfolding append_entries_def bs data(1) len it using g(1)
    by (simp add: len(2) op_bind_def op_lift_def g(3) op_update_def put_entry_batch_list_def roots fs'_def db_def del: upt_Suc)
  have bn: "batch_or_new fs' ci = (case map_of bl ci of Some eb \<Rightarrow> eb | None \<Rightarrow> batch_or_new fs ci)" for ci
    using kv_write_puts [of bl "col_entry_batch (flow_db fs)" ci] g(2)
    by (auto simp: batch_or_new_def fs'_def db_def get_entry_batch_def simp del: upt_Suc split: option.splits)
  have dist: "distinct (map fst bl)" unfolding g(2) by simp
  have app: "appended keccak s e (ca_data arr) ci (batch_or_new fs ci) (batch_or_new fs' ci)" if "ci \<in> set ?cis" for ci
  proof -
    have "map_of bl ci \<noteq> None" using that unfolding map_of_fst g(2) by simp
    then obtain eb where "map_of bl ci = Some eb" by blast
    then show ?thesis using g6 map_of_SomeD [of bl ci eb] by (simp add: bn)
  qed
  have same: "batch_or_new fs' ci = batch_or_new fs ci" if "ci \<notin> set ?cis" for ci
    using that map_of_fst [of bl ci] unfolding g(2) by (simp add: bn del: upt_Suc)
  have seal: "eb_seal (batch_or_new fs' ci) = eb_seal (batch_or_new fs ci)" for ci
    using app [of ci] same [of ci] unfolding appended_def by metis
  have "entry_batch_ok (batch_or_new fs' ci)" for ci
    using app [of ci] same [of ci] batch_or_new_ok(1) [OF ok, of ci] unfolding appended_def by metis
  then have "flow_ok fs'" using seal batch_or_new_ok(2) [OF ok] bs g(4)
    unfolding flow_ok_def layout_values fs'_def
    by (metis (no_types, lifting) batch_or_new_def fs'_def flow_store.select_convs flow_store.surjective flow_store.update_convs(1) option.case(2))
  moreover have "flow_at keccak fs' off = (if s * 256 \<le> off \<and> off < e * 256 then Some (ca_data arr ! (off - s * 256)) else flow_at keccak fs off)" for off
  proof (cases "off div 262144 \<in> set ?cis")
    case True
    have "off div 262144 * 262144 + off mod 262144 = off" by simp
    then show ?thesis using app [OF True] by (simp add: appended_def flow_at_def Let_def layout_values)
  next
    case False
    have "off div 262144 * 262144 \<le> off" "off < (off div 262144 + 1) * 262144"
      by (simp_all add: less_next_multiple [of off 18, simplified])
    then have "\<not> (s * 256 \<le> off \<and> off < e * 256)"
      using False less_ceil_div_iff [of 1024 "off div 262144" e] div_le_iff [of 1024 s "off div 262144"] by auto
    then show ?thesis using same [OF False] unfolding flow_at_def layout_values by (simp only: if_False)
  qed
  moreover have "new_task fs bl k \<longleftrightarrow> flow_full fs' k \<and> \<not> flow_full fs k" for k
  proof (cases "k div 64 \<in> set ?cis")
    case True
    have "map_of bl (k div 64) \<noteq> None" using True unfolding map_of_fst g(2) by simp
    then obtain eb where eb: "map_of bl (k div 64) = Some eb" by blast
    then have "(k div 64, eb') \<in> set bl \<longleftrightarrow> eb' = eb" for eb' using dist by (metis map_of_eq_Some_iff option.inject)
    then show ?thesis using eb by (simp add: new_task_def flow_full_def bn)
  next
    case False
    then have "(k div 64, eb) \<notin> set bl" for eb using g(2) by (metis fst_conv image_eqI list.set_map)
    then show ?thesis using same [OF False] by (simp add: new_task_def flow_full_def)
  qed
  ultimately show thesis using that [OF run] g(5,7) seal by (simp add: fs'_def flow_sealed_def)
qed

subsection \<open>Truncating\<close>

text \<open>The sealed seal chunks of the batch that is cut, from the first context that is cut, as global indices.\<close>

definition cut_seals :: "flow_store \<Rightarrow> nat \<Rightarrow> nat set" where
  "cut_seals fs n =
     {k. k div 64 = n div 1024 \<and> flow_sealed fs k \<and>
         truncated_seal_index (eb_seal (batch_or_new fs (n div 1024))) (n mod 1024 div 16) \<le> k mod 64 \<and> (k mod 64) * 16 < n mod 1024}"

lemma truncate_batch_at:
  assumes "entry_batch_ok eb" and "0 < t" and "t < SECTORS_PER_LOAD"
  obtains eb' idx where "truncate_batch keccak eb t = Ok (eb', idx)" "entry_batch_ok eb'" "load_index (eb_seal eb') = load_index (eb_seal eb)"
    "\<And>off. batch_at keccak eb' off = (if off < t * 256 then batch_at keccak eb off else None)"
    "set idx = {y. is_sealed (eb_seal eb) y \<and> truncated_seal_index (eb_seal eb) (t div 16) \<le> y \<and> y * 16 < t}"
proof -
  obtain eb' idx where eb': "truncate_batch keccak eb t = Ok (eb', idx)" "entry_batch_ok eb'"
    "\<And>off. bytes_at (eb_data eb') off \<noteq> None \<longleftrightarrow> off < t * 256 \<and> bytes_at (eb_data eb) off \<noteq> None"
    "\<And>off. off < t * 256 \<Longrightarrow> bytes_at (eb_data eb) off \<noteq> None \<Longrightarrow> plain_byte keccak eb' off = plain_byte keccak eb off"
    "set idx = {y. is_sealed (eb_seal eb) y \<and> truncated_seal_index (eb_seal eb) (t div 16) \<le> y \<and> y * 16 < t}"
    using truncate_preserves_plain [OF assms, of keccak] by (elim exE conjE) (rule that, blast+)
  have "batch_at keccak eb' off = (if off < t * 256 then batch_at keccak eb off else None)" for off
    using eb'(3,4) [of off] unfolding batch_at_def by auto
  moreover have "load_index (eb_seal eb') = load_index (eb_seal eb)"
    using eb'(1) by (auto simp: truncate_batch_def truncate_seal_def truncate_seal_info_def Let_def)
  ultimately show thesis using that eb' by blast
qed

lemma empty_batch_at: "entry_batch_is_empty eb \<Longrightarrow> batch_at keccak eb off = None"
  by (auto simp: entry_batch_is_empty_def data_is_empty_def batch_at_def split: entry_batch_data.splits)

definition cut_batch :: "(byte list \<Rightarrow> h256) \<Rightarrow> nat \<Rightarrow> entry_batch \<Rightarrow> entry_batch option \<Rightarrow> bool" where
  "cut_batch keccak t eb r \<longleftrightarrow>
     (\<forall>off. (case r of None \<Rightarrow> None | Some eb' \<Rightarrow> batch_at keccak eb' off) = (if off < t * 256 then batch_at keccak eb off else None)) \<and>
     (\<forall>eb'. r = Some eb' \<longrightarrow> entry_batch_ok eb' \<and> load_index (eb_seal eb') = load_index (eb_seal eb))"

definition cut_first :: "(byte list \<Rightarrow> h256) \<Rightarrow> flow_db \<Rightarrow> nat \<Rightarrow> ((nat, entry_batch) kv_op list \<times> nat list) res" where
  "cut_first keccak db n =
     (if n mod 1024 \<noteq> 0
      then case get_entry_batch db (n div 1024) of
             Some first_batch \<Rightarrow>
               rbind (truncate_batch keccak first_batch (n mod 1024)) (\<lambda>(first_batch, idx).
                 Ok ([if \<not> entry_batch_is_empty first_batch then Put (n div 1024) first_batch else Delete (n div 1024)],
                     map (\<lambda>x. n div 1024 * SEALS_PER_LOAD + x) idx))
           | None \<Rightarrow> Ok ([], [])
      else Ok ([], []))"

lemma cut_first_spec:
  assumes ok: "flow_ok fs"
  obtains tx idx where "cut_first keccak (flow_db fs) n = Ok (tx, idx)"
    "\<forall>ci. ci \<noteq> n div 1024 \<or> n mod 1024 = 0 \<longrightarrow> hm_get (kv_write tx (col_entry_batch (flow_db fs))) ci = hm_get (col_entry_batch (flow_db fs)) ci"
    "n mod 1024 \<noteq> 0 \<longrightarrow> cut_batch keccak (n mod 1024) (batch_or_new fs (n div 1024)) (hm_get (kv_write tx (col_entry_batch (flow_db fs))) (n div 1024))"
    "get_entry_batch (flow_db fs) (n div 1024) = None \<longrightarrow> tx = []"
    "set idx = (if n mod 1024 = 0 then {} else cut_seals fs n)"
proof (cases "n mod 1024 = 0")
  case True
  then show thesis using that [of "[]" "[]"] by (simp add: cut_first_def)
next
  case r: False
  let ?q = "n div 1024" and ?r = "n mod 1024"
  show thesis
  proof (cases "get_entry_batch (flow_db fs) ?q")
    case None
    then have bn: "batch_or_new fs ?q = new_entry_batch ?q" by (simp add: batch_or_new_def)
    then have "cut_seals fs n = {}" using new_entry_batch_ok(4) by (auto simp: cut_seals_def flow_sealed_def)
    moreover have "cut_batch keccak ?r (batch_or_new fs ?q) None"
      using new_entry_batch_ok(2) by (simp add: cut_batch_def bn batch_at_def)
    ultimately show thesis using that [of "[]" "[]"] None r by (simp add: cut_first_def get_entry_batch_def)
  next
    case (Some fb)
    then have bn: "batch_or_new fs ?q = fb" by (simp add: batch_or_new_def)
    have "entry_batch_ok fb" "0 < ?r" "?r < SECTORS_PER_LOAD"
      using batch_or_new_ok(1) [OF ok, of ?q] bn r by (simp_all add: layout_values)
    then obtain eb idx where eb: "truncate_batch keccak fb ?r = Ok (eb, idx)" "entry_batch_ok eb"
      "load_index (eb_seal eb) = load_index (eb_seal fb)"
      "\<And>off. batch_at keccak eb off = (if off < ?r * 256 then batch_at keccak fb off else None)"
      "set idx = {y. is_sealed (eb_seal fb) y \<and> truncated_seal_index (eb_seal fb) (?r div 16) \<le> y \<and> y * 16 < ?r}"
      by (rule truncate_batch_at [where keccak = keccak]) blast
    let ?tx = "[if \<not> entry_batch_is_empty eb then Put ?q eb else Delete ?q]"
    have "set (map (\<lambda>x. ?q * 64 + x) idx) = cut_seals fs n"
    proof (rule set_eqI)
      fix k
      have lim: "y < 64" if "y \<in> set idx" for y
      proof -
        have "y * 16 < ?r" using that eb(5) by simp
        then have "y * 16 < 1024" by (rule less_trans) simp
        then show ?thesis by simp
      qed
      have "k \<in> set (map (\<lambda>x. ?q * 64 + x) idx) \<longleftrightarrow> k div 64 = ?q \<and> k mod 64 \<in> set idx"
      proof
        assume "k \<in> set (map (\<lambda>x. ?q * 64 + x) idx)"
        then show "k div 64 = ?q \<and> k mod 64 \<in> set idx" using lim by auto
      next
        assume a: "k div 64 = ?q \<and> k mod 64 \<in> set idx"
        then have "k = ?q * 64 + k mod 64" by (metis div_mult_mod_eq)
        then show "k \<in> set (map (\<lambda>x. ?q * 64 + x) idx)" using a by (metis (no_types, lifting) imageI list.set_map)
      qed
      then show "k \<in> set (map (\<lambda>x. ?q * 64 + x) idx) \<longleftrightarrow> k \<in> cut_seals fs n"
        unfolding cut_seals_def flow_sealed_def eb(5) mem_Collect_eq by (metis bn)
    qed
    moreover have "cut_batch keccak ?r (batch_or_new fs ?q) (hm_get (kv_write ?tx (col_entry_batch (flow_db fs))) ?q)"
      unfolding bn cut_batch_def using eb(2-4) empty_batch_at [of eb keccak] by auto
    ultimately show thesis using that [of ?tx "map (\<lambda>x. ?q * 64 + x) idx"] r Some eb(1)
      by (simp add: cut_first_def layout_values)
  qed
qed

lemma truncate_db_batches:
  assumes ok: "flow_ok fs"
  obtains db' idx where "truncate_db keccak (flow_db fs) n (batch_size fs) = Ok (db', idx)"
    "\<And>ci. ci < n div 1024 \<Longrightarrow> get_entry_batch db' ci = get_entry_batch (flow_db fs) ci"
    "\<And>ci. n div 1024 < ci \<or> ci = n div 1024 \<and> n mod 1024 = 0 \<Longrightarrow> get_entry_batch db' ci = None"
    "n mod 1024 \<noteq> 0 \<Longrightarrow> cut_batch keccak (n mod 1024) (batch_or_new fs (n div 1024)) (get_entry_batch db' (n div 1024))"
    "set idx = (if n mod 1024 = 0 then {} else cut_seals fs n)"
proof -
  let ?q = "n div 1024" and ?r = "n mod 1024" and ?db = "flow_db fs"
  let ?col = "col_entry_batch ?db"
  have bs: "batch_size fs = 1024" using ok by (simp add: flow_ok_def layout_values)
  obtain tx idx where tx: "cut_first keccak ?db n = Ok (tx, idx)"
    "\<forall>ci. ci \<noteq> ?q \<or> ?r = 0 \<longrightarrow> hm_get (kv_write tx ?col) ci = hm_get ?col ci"
    "?r \<noteq> 0 \<longrightarrow> cut_batch keccak ?r (batch_or_new fs ?q) (hm_get (kv_write tx ?col) ?q)"
    "get_entry_batch ?db ?q = None \<longrightarrow> tx = []" "set idx = (if ?r = 0 then {} else cut_seals fs n)"
    by (rule cut_first_spec [OF ok, where keccak = keccak and n = n])
  let ?start = "if ?r \<noteq> 0 then ?q + 1 else ?q"
  have run: "truncate_db keccak ?db n 1024 =
      (case last_key ?col of
         None \<Rightarrow> Ok (?db, idx)
       | Some l \<Rightarrow> Ok (\<lparr>col_entry_batch = kv_write (tx @ map Delete [?start..<l + 1]) ?col,
                       col_entry_batch_root = kv_write (map Delete [?start..<l + 1]) (col_entry_batch_root ?db)\<rparr>, idx))"
    using tx(1) unfolding truncate_db_def cut_first_def Let_def by (simp del: upt_Suc)
  show thesis
  proof (cases "last_key ?col")
    case None
    then have "get_entry_batch ?db ci = None" for ci by (simp add: last_key_None get_entry_batch_def)
    then show thesis using that [of ?db idx] run None tx(3-5) bs by (simp add: get_entry_batch_def)
  next
    case (Some l)
    let ?db' = "\<lparr>col_entry_batch = kv_write (tx @ map Delete [?start..<l + 1]) ?col,
                 col_entry_batch_root = kv_write (map Delete [?start..<l + 1]) (col_entry_batch_root ?db)\<rparr>"
    have get: "get_entry_batch ?db' ci = (if ?start \<le> ci \<and> ci \<le> l then None else hm_get (kv_write tx ?col) ci)" for ci
      by (simp add: get_entry_batch_def kv_write_deletes less_Suc_eq_le del: upt_Suc)
    have beyond: "hm_get ?col ci = None" if "l < ci" for ci using last_key_max [OF Some, of ci] that by force
    show thesis
    proof (rule that [of ?db' idx])
      show "get_entry_batch ?db' ci = get_entry_batch ?db ci" if "ci < ?q" for ci
        using that tx(2) unfolding get by (simp add: get_entry_batch_def)
      show "get_entry_batch ?db' ci = None" if "?q < ci \<or> ci = ?q \<and> ?r = 0" for ci
        using that tx(2) beyond [of ci] unfolding get by auto
      show "cut_batch keccak ?r (batch_or_new fs ?q) (get_entry_batch ?db' ?q)" if "?r \<noteq> 0"
        using tx(3) that unfolding get by simp
    qed (use run Some bs tx(5) in simp_all)
  qed
qed

end
