(* ===== verification/Flow_Store_Correct.thy ===== *)
theory Flow_Store_Correct
  imports Flow_Store_Laws
begin

text \<open>
  The properties of the flow store: appending and reading back, truncation, and the queue of seal
  chunks that wait for sealing. \<open>flow_at\<close> is the flow as a map from byte offsets to plain bytes,
  \<open>flow_ok\<close> the invariant of the batches, \<open>seal_ready\<close> the invariant of the queue.
\<close>

subsection \<open>Truncation of the whole store\<close>

lemma truncate_flow_refines:
  assumes ok: "flow_ok fs"
  obtains fs' where "truncate_flow keccak n fs = (fs', Ok ())" "flow_ok fs'"
    "\<And>off. flow_at keccak fs' off = (if off < n * 256 then flow_at keccak fs off else None)"
    "\<And>k. hm_get (to_seal_set fs') k =
       (if n mod 1024 \<noteq> 0 \<and> k \<in> cut_seals fs n then Some (to_seal_version fs + 1)
        else if k < n div 16 then hm_get (to_seal_set fs) k else None)"
proof -
  let ?q = "n div 1024" and ?r = "n mod 1024"
  obtain db' idx where db': "truncate_db keccak (flow_db fs) n (batch_size fs) = Ok (db', idx)"
    "\<And>ci. ci < ?q \<Longrightarrow> get_entry_batch db' ci = get_entry_batch (flow_db fs) ci"
    "\<And>ci. ?q < ci \<or> ci = ?q \<and> ?r = 0 \<Longrightarrow> get_entry_batch db' ci = None"
    "?r \<noteq> 0 \<Longrightarrow> cut_batch keccak ?r (batch_or_new fs ?q) (get_entry_batch db' ?q)"
    "set idx = (if ?r = 0 then {} else cut_seals fs n)"
    using truncate_db_batches [OF ok, of keccak n] by metis
  define fs' where "fs' = add_seal_tasks idx (fs\<lparr>flow_db := db', to_seal_set := split_off (n div 16) (to_seal_set fs),
      to_seal_version := to_seal_version fs + 1\<rparr>)"
  have run: "truncate_flow keccak n fs = (fs', Ok ())"
    by (simp add: truncate_flow_def op_bind_def op_update_def op_modify_def db'(1) fs'_def layout_values)
  have db: "flow_db fs' = db'" by (simp add: fs'_def)
  have bat: "batch_at keccak (batch_or_new fs' ci) x = (case get_entry_batch db' ci of None \<Rightarrow> None | Some eb \<Rightarrow> batch_at keccak eb x)" for ci x
    using new_entry_batch_ok(2) [of ci x] by (simp add: batch_or_new_def db batch_at_def split: option.splits)
  have cut: "batch_at keccak (batch_or_new fs' ?q) x = (if x < ?r * 256 then batch_at keccak (batch_or_new fs ?q) x else None)"
    if "?r \<noteq> 0" for x
    using db'(4) [OF that] unfolding bat cut_batch_def by blast
  have low: "batch_or_new fs' ci = batch_or_new fs ci" if "ci < ?q" for ci
    using db'(2) [OF that] by (simp add: batch_or_new_def db)
  have high: "batch_at keccak (batch_or_new fs' ci) x = None" if "?q < ci \<or> ci = ?q \<and> ?r = 0" for ci x
    using db'(3) [OF that] unfolding bat by simp
  have at: "flow_at keccak fs' off = (if off < n * 256 then flow_at keccak fs off else None)" for off
  proof -
    define ci x where "ci = off div 262144" and "x = off mod 262144"
    have off: "off = ci * 262144 + x" "x < 262144" by (simp_all add: ci_def x_def)
    have nq: "n * 256 = ?q * 262144 + ?r * 256" using div_mult_mod_eq [of n 1024] by linarith
    have r: "?r * 256 < 262144" using mod_less_divisor [of 1024 n] by linarith
    have at: "flow_at keccak g off = batch_at keccak (batch_or_new g ci) x" for g
      by (simp add: flow_at_def ci_def x_def layout_values)
    consider "ci < ?q" | "?q < ci \<or> ci = ?q \<and> ?r = 0" | "ci = ?q" "?r \<noteq> 0" by linarith
    then show ?thesis
    proof cases
      case 1
      then have "off < n * 256" using off nq by linarith
      then show ?thesis using low [OF 1] by (simp add: at)
    next
      case 2
      then have "\<not> off < n * 256" using off nq r by linarith
      then show ?thesis using high [OF 2] by (simp add: at)
    next
      case 3
      then have "off < n * 256 \<longleftrightarrow> x < ?r * 256" using off nq by linarith
      then show ?thesis using cut [OF 3(2), of x] 3(1) by (simp only: at)
    qed
  qed
  have ok': "flow_ok fs'"
    unfolding flow_ok_def
  proof (intro conjI allI impI)
    show "batch_size fs' = SECTORS_PER_LOAD" using ok by (simp add: fs'_def flow_ok_def)
    fix ci eb assume eb: "get_entry_batch (flow_db fs') ci = Some eb"
    then have "ci < ?q \<or> ci = ?q \<and> ?r \<noteq> 0" using db'(3) [of ci] unfolding db by force
    then have "entry_batch_ok eb \<and> load_index (eb_seal eb) = ci"
    proof
      assume "ci < ?q"
      then show ?thesis using db'(2) [of ci] eb ok unfolding db flow_ok_def by simp
    next
      assume "ci = ?q \<and> ?r \<noteq> 0"
      then show ?thesis using db'(4) eb batch_or_new_ok(2) [OF ok, of ?q] unfolding db cut_batch_def by simp
    qed
    then show "entry_batch_ok eb" "load_index (eb_seal eb) = ci" by simp_all
  qed
  show thesis
    by (rule that [OF run ok' at]) (simp add: fs'_def db'(5))
qed

subsection \<open>The queue of seal chunks\<close>

definition seal_ready :: "flow_store \<Rightarrow> bool" where
  "seal_ready fs \<longleftrightarrow> (\<forall>k v. hm_get (to_seal_set fs) k = Some v \<longrightarrow> flow_full fs k \<and> \<not> flow_sealed fs k)"

text \<open>One task: the stored bytes of a complete unsealed seal chunk, and nothing otherwise.\<close>

lemma get_non_sealed_exact:
  assumes ok: "entry_batch_ok eb" and x: "x < 64"
  shows "get_non_sealed_data eb x =
    Ok (if seal_full (eb_data eb) x \<and> \<not> is_sealed (eb_seal eb) x then Some (seal_content (eb_data eb) x) else None)"
proof -
  have "batch_ok (eb_data eb)" using ok by (simp add: entry_batch_ok_def)
  moreover have "x * 4096 + 4096 \<le> BYTES_PER_LOAD" using x by (simp add: layout_values)
  ultimately have "get_data (eb_data eb) (x * 4096) 4096 =
      Ok (if present (eb_data eb) (x * 4096) (x * 4096 + 4096) then Some (content (eb_data eb) (x * 4096) (x * 4096 + 4096)) else None)"
    by (intro get_data_refines) simp_all
  moreover have "x * 4096 + 4096 = (x + 1) * 4096" by simp
  ultimately show ?thesis unfolding get_non_sealed_data_def seal_full_def seal_content_def layout_values
    by (simp only: if_distrib split: if_split) simp
qed

definition task_of :: "entry_batch \<Rightarrow> nat \<times> nat \<Rightarrow> seal_task" where
  "task_of eb kv = \<lparr>st_seal_index = fst kv, st_version = snd kv, st_non_sealed_data = seal_content (eb_data eb) (fst kv mod 64)\<rparr>"

lemma seal_tasks_exact:
  assumes ok: "entry_batch_ok eb"
  shows "(\<forall>(k, v) \<in> set ts. seal_full (eb_data eb) (k mod 64) \<and> \<not> is_sealed (eb_seal eb) (k mod 64)) \<Longrightarrow>
      seal_tasks eb ts = Ok (map (task_of eb) ts)"
    and "(k, v) \<in> set ts \<Longrightarrow> \<not> (seal_full (eb_data eb) (k mod 64) \<and> \<not> is_sealed (eb_seal eb) (k mod 64)) \<Longrightarrow>
      is_Panic (seal_tasks eb ts)"
proof (induction ts)
  case (Cons t ts)
  obtain j w where t: "t = (j, w)" by (cases t)
  have j: "j mod SEALS_PER_LOAD = j mod 64" "j mod 64 < 64" by (simp_all add: layout_values)
  note get = get_non_sealed_exact [OF ok j(2)]
  {
    case 1
    then show ?case using Cons.IH(1) t by (simp add: get j(1) task_of_def)
  next
    case 2
    show ?case
    proof (cases "seal_full (eb_data eb) (j mod 64) \<and> \<not> is_sealed (eb_seal eb) (j mod 64)")
      case True
      then have "(k, v) \<in> set ts" using 2 t by auto
      then show ?thesis using Cons.IH(2) 2(2) t True by (simp add: get j(1) is_Panic_rbind)
    next
      case False
      then show ?thesis using t by (auto simp: get j(1))
    qed
  }
qed simp_all

text \<open>The entries of an ordered map begin with the smallest key.\<close>

lemma btree_first:
  assumes "hm_get m k = Some v"
  obtains f w rest where "btree_iter m = (f, w) # rest" "hm_get m f = Some w" "f \<le> k" "(k, v) \<in> set ((f, w) # rest)"
    "\<And>j u. (j, u) \<in> set rest \<Longrightarrow> hm_get m j = Some u"
proof -
  have k: "k \<in> set (btree_keys m)" using assms by (auto simp: dom_def)
  then obtain f ks where ks: "btree_keys m = f # ks" by (cases "btree_keys m") auto
  then have it: "btree_iter m = (f, the (hm_get m f)) # map (\<lambda>k. (k, the (hm_get m k))) ks" by (simp add: btree_iter_def)
  have mem: "hm_get m j = Some u" if "(j, u) \<in> set (btree_iter m)" for j u using that by (simp only: btree_iter_set)
  show thesis
  proof (rule that [OF it])
    show "hm_get m f = Some (the (hm_get m f))" by (rule mem) (simp add: it)
    show "f \<le> k" using k sorted_btree_keys(1) [of m] unfolding ks by auto
    show "(k, v) \<in> set ((f, the (hm_get m f)) # map (\<lambda>k. (k, the (hm_get m k))) ks)"
      using assms unfolding it [symmetric] by (simp only: btree_iter_set)
    show "hm_get m j = Some u" if "(j, u) \<in> set (map (\<lambda>k. (k, the (hm_get m k))) ks)" for j u
      by (rule mem) (use that in \<open>simp add: it\<close>)
  qed
qed

lemma flow_full_bytes:
  assumes "flow_full fs k" and "k * 4096 \<le> off" and "off < (k + 1) * 4096"
  shows "flow_at keccak fs off \<noteq> None"
proof -
  define c x where "c = k div 64" and "x = k mod 64"
  have k: "k = c * 64 + x" "x < 64" by (simp_all add: c_def x_def)
  obtain y where y: "off = c * 262144 + y" "x * 4096 \<le> y" "y < (x + 1) * 4096"
    using assms(2,3) k by (intro that [of "off - c * 262144"]) (simp_all add: add_mult_distrib)
  have "bytes_at (eb_data (batch_or_new fs c)) y \<noteq> None"
    using assms(1) y(2,3) unfolding flow_full_def seal_full_def present_def layout_values c_def [symmetric] x_def [symmetric] by blast
  moreover have "y < 262144" using y(3) k(2) by simp
  ultimately show ?thesis using flow_at_local [of y keccak fs c] y(1) by (simp add: layout_values)
qed

lemma flow_sealed_full: "flow_ok fs \<Longrightarrow> flow_sealed fs k \<Longrightarrow> flow_full fs k"
  using batch_or_new_ok(1) [of fs "k div 64"] by (simp add: flow_sealed_def flow_full_def entry_batch_ok_def)

lemma flow_full_iff:
  "flow_full fs k \<longleftrightarrow> (\<forall>off. k * 4096 \<le> off \<longrightarrow> off < (k + 1) * 4096 \<longrightarrow> flow_at keccak fs off \<noteq> None)"
proof
  assume a: "\<forall>off. k * 4096 \<le> off \<longrightarrow> off < (k + 1) * 4096 \<longrightarrow> flow_at keccak fs off \<noteq> None"
  define c x where "c = k div 64" and "x = k mod 64"
  have k: "k = c * 64 + x" "x < 64" by (simp_all add: c_def x_def)
  have "bytes_at (eb_data (batch_or_new fs c)) y \<noteq> None" if y: "x * 4096 \<le> y" "y < (x + 1) * 4096" for y
  proof -
    have "k * 4096 \<le> c * 262144 + y" "c * 262144 + y < (k + 1) * 4096" "y < 262144" using k y by (simp_all add: add_mult_distrib)
    then have "batch_at keccak (batch_or_new fs c) y \<noteq> None"
      using a flow_at_local [of y keccak fs c] unfolding layout_values by metis
    then show ?thesis by simp
  qed
  then show "flow_full fs k" unfolding flow_full_def seal_full_def present_def layout_values c_def [symmetric] x_def [symmetric] by blast
qed (use flow_full_bytes in blast)

text \<open>A range that was free holds no sealed seal chunk, so a read of it is never handed sealed bytes.\<close>

lemma free_plain_read:
  assumes ok: "flow_ok fs" and s: "s < e" and sealed: "\<And>k. flow_sealed fs' k = flow_sealed fs k"
    and free: "\<And>off. s * 256 \<le> off \<Longrightarrow> off < e * 256 \<Longrightarrow> flow_at keccak fs off = None"
  shows "plain_read fs' s e"
  unfolding plain_read_def layout_values Let_def
proof (intro ballI disjI2 notI)
  fix ci
  assume ci: "ci \<in> set [s div 1024..<(e + 1024 - 1) div 1024]"
  define a where "a = fst (piece 1024 s e ci)"
  have a: "s \<le> a" "a < e" "a div 1024 = ci" using pieces_in_range [of 1024 ci s e] ci s unfolding a_def by simp_all
  define x where "x = a mod 1024 div 16"
  have x: "x < 64" by (simp add: x_def div_less_iff_less_mult)
  assume "is_sealed (eb_seal (batch_or_new fs' ci)) (fst (piece 1024 s e ci) mod 1024 div 16)"
  then have "flow_sealed fs' (ci * 64 + x)" using x by (simp add: flow_sealed_def a_def [symmetric] x_def [symmetric])
  then have "flow_full fs (ci * 64 + x)" using flow_sealed_full [OF ok] sealed by simp
  moreover have "x * 16 \<le> a mod 1024" "a mod 1024 < (x + 1) * 16" unfolding x_def
    by (simp_all add: less_next_multiple [of "a mod 1024" 4, simplified])
  then have "(ci * 64 + x) * 4096 \<le> a * 256" "a * 256 < (ci * 64 + x + 1) * 4096"
    using div_mult_mod_eq [of a 1024] unfolding a(3) add_mult_distrib by simp_all
  ultimately have "flow_at keccak fs (a * 256) \<noteq> None" by (rule flow_full_bytes)
  then show False using free [of "a * 256"] a by simp
qed

subsection \<open>Appending and reading\<close>

text \<open>The empty store, and a store whose first load chunk has its first seal chunk sealed.\<close>

definition empty_flow :: flow_store where
  "empty_flow = new_flow_store \<lparr>col_entry_batch = [], col_entry_batch_root = []\<rparr> SECTORS_PER_LOAD"

definition example_flow :: flow_store where
  "example_flow = new_flow_store \<lparr>col_entry_batch = [(0, example_sealed)], col_entry_batch_root = []\<rparr> SECTORS_PER_LOAD"

lemma empty_flow_ok: "flow_ok empty_flow" "seal_ready empty_flow" "flow_at keccak empty_flow off = None"
  by (simp_all add: empty_flow_def new_flow_store_def flow_ok_def seal_ready_def flow_at_def batch_or_new_def
      get_entry_batch_def new_entry_batch_ok)

lemma example_flow_batch: "batch_or_new example_flow 0 = example_sealed" "to_seal_set example_flow = []"
  by (simp_all add: example_flow_def new_flow_store_def batch_or_new_def get_entry_batch_def)

lemma example_flow_ok: "flow_ok example_flow" "seal_ready example_flow"
proof -
  have "load_index (eb_seal example_sealed) = 0" by (simp add: example_sealed_def)
  then show "flow_ok example_flow" using example_sealed_ok
    by (simp add: example_flow_def new_flow_store_def flow_ok_def get_entry_batch_def)
qed (simp add: seal_ready_def example_flow_batch)

definition queued_flow :: flow_store where
  "queued_flow = (new_flow_store \<lparr>col_entry_batch = [(0, example_batch)], col_entry_batch_root = []\<rparr> SECTORS_PER_LOAD)
     \<lparr>to_seal_set := [(1, 0)]\<rparr>"

lemma queued_flow_ok: "flow_ok queued_flow" "seal_ready queued_flow"
proof -
  have "load_index (eb_seal example_batch) = 0" by (simp add: example_batch_def new_seal_info_def)
  then show "flow_ok queued_flow" using example_batch_ok
    by (simp add: queued_flow_def new_flow_store_def flow_ok_def get_entry_batch_def)
  have "batch_or_new queued_flow 0 = example_batch"
    by (simp add: queued_flow_def new_flow_store_def batch_or_new_def get_entry_batch_def)
  then show "seal_ready queued_flow" using example_full [of 1]
    by (simp add: seal_ready_def flow_full_def flow_sealed_def) (simp add: queued_flow_def)
qed

lemma const_hash_ok: "hash_ok (\<lambda>_. [7])"
  by (auto simp: hash_ok_def h256_zero_def h256_null_def dest!: arg_cong [of _ _ length])

lemma append_keeps_ready:
  assumes ok: "flow_ok fs" and ready: "seal_ready fs"
    and at: "\<And>off. flow_at keccak fs off \<noteq> None \<Longrightarrow> flow_at keccak fs' off \<noteq> None"
    and sealed: "\<And>k. flow_sealed fs' k = flow_sealed fs k"
    and tasks: "\<And>k. hm_get (to_seal_set fs') k =
       (if flow_full fs' k \<and> \<not> flow_full fs k then Some v else hm_get (to_seal_set fs) k)"
  shows "seal_ready fs'"
  unfolding seal_ready_def
proof (intro allI impI)
  fix k w
  assume k: "hm_get (to_seal_set fs') k = Some w"
  have grow: "flow_full fs' k" if "flow_full fs k" using that at unfolding flow_full_iff [of _ _ keccak] by blast
  show "flow_full fs' k \<and> \<not> flow_sealed fs' k"
  proof (cases "flow_full fs' k \<and> \<not> flow_full fs k")
    case True
    then show ?thesis using flow_sealed_full [OF ok, of k] sealed by blast
  next
    case False
    then have "hm_get (to_seal_set fs) k = Some w" using k tasks [of k] by (simp only: if_False)
    then show ?thesis using ready grow sealed unfolding seal_ready_def by blast
  qed
qed

lemma append_readable:
  assumes "flow_ok fs" and "seal_ready fs" and "hash_ok keccak" and "flow_at keccak fs 0 = None"
    and "0 < s" and "0 < n" and "ca_start arr = s" and "length (ca_data arr) = n * 256"
    and "\<forall>off \<in> {s * 256..<(s + n) * 256}. flow_at keccak fs off = None"
  shows "\<exists>fs' roots. append_entries keccak arr fs = (fs', Ok roots) \<and> flow_ok fs' \<and> seal_ready fs' \<and>
     get_entries keccak fs' s (s + n) = Ok (Some arr) \<and>
     (\<forall>off. off \<notin> {s * 256..<(s + n) * 256} \<longrightarrow> flow_at keccak fs' off = flow_at keccak fs off)"
proof -
  have free: "flow_at keccak fs off = None" if "s * 256 \<le> off" "off < (s + n) * 256" for off
    using assms(9) that unfolding Ball_def atLeastLessThan_iff by blast
  have sn: "s < s + n" using assms(6) by simp
  have len: "length (ca_data arr) = (s + n - s) * 256" using assms(8) by simp
  obtain fs' roots where fs': "append_entries keccak arr fs = (fs', Ok roots)" "flow_ok fs'"
    "\<And>off. flow_at keccak fs' off = (if s * 256 \<le> off \<and> off < (s + n) * 256 then Some (ca_data arr ! (off - s * 256)) else flow_at keccak fs off)"
    "\<And>k. flow_sealed fs' k = flow_sealed fs k" "to_seal_version fs' = to_seal_version fs"
    "\<And>k. hm_get (to_seal_set fs') k =
       (if flow_full fs' k \<and> \<not> flow_full fs k then Some (to_seal_version fs) else hm_get (to_seal_set fs) k)"
    by (rule append_entries_refines [OF assms(1,3,5) sn assms(7) len free assms(4)]) blast+
  have pr: "plain_read fs' s (s + n)" using free_plain_read [OF assms(1) sn fs'(4) free] .
  have all: "\<forall>off \<in> {s * 256..<(s + n) * 256}. flow_at keccak fs' off \<noteq> None" using fs'(3) by simp
  have "map (\<lambda>off. the (flow_at keccak fs' off)) [s * 256..<(s + n) * 256] = ca_data arr"
    by (rule nth_equalityI) (simp_all add: assms(8) fs'(3) add_mult_distrib)
  then have "get_entries keccak fs' s (s + n) = Ok (Some arr)"
    unfolding get_entries_exact [OF fs'(2) assms(5) sn pr] using all assms(7) by (subst if_P) simp_all
  moreover have "flow_at keccak fs' off \<noteq> None" if "flow_at keccak fs off \<noteq> None" for off using that fs'(3) [of off] by simp
  then have "seal_ready fs'" by (rule append_keeps_ready [OF assms(1,2) _ fs'(4,6)])
  ultimately show ?thesis using fs'(1-3) unfolding atLeastLessThan_iff by metis
qed

text \<open>
  C25. Entries appended to a free range of the flow, over as many load chunks as it spans, are read
  back exactly; every other byte of the flow is unchanged, and both invariants of the store are kept.
\<close>

theorem append_then_get:
  assumes "flow_ok fs" and "seal_ready fs" and "hash_ok keccak" and "flow_at keccak fs 0 = None"
    and "0 < s" and "0 < n" and "ca_start arr = s" and "length (ca_data arr) = n * 256"
    and "\<forall>off \<in> {s * 256..<(s + n) * 256}. flow_at keccak fs off = None"
  shows "\<exists>fs' roots. append_entries keccak arr fs = (fs', Ok roots) \<and> flow_ok fs' \<and> seal_ready fs' \<and>
     get_entries keccak fs' s (s + n) = Ok (Some arr) \<and>
     (\<forall>off. off \<notin> {s * 256..<(s + n) * 256} \<longrightarrow> flow_at keccak fs' off = flow_at keccak fs off)"
  by (rule append_readable [OF assms])

theorem append_then_get_witness:
  "\<exists>fs' roots. append_entries (\<lambda>_. [7]) \<lparr>ca_data = replicate 512 1, ca_start = 1\<rparr> empty_flow = (fs', Ok roots) \<and>
     flow_ok fs' \<and> seal_ready fs' \<and>
     get_entries (\<lambda>_. [7]) fs' 1 (1 + 2) = Ok (Some \<lparr>ca_data = replicate 512 1, ca_start = 1\<rparr>) \<and>
     (\<forall>off. off \<notin> {1 * 256..<(1 + 2) * 256} \<longrightarrow> flow_at (\<lambda>_. [7]) fs' off = flow_at (\<lambda>_. [7]) empty_flow off)"
  by (rule append_then_get [OF empty_flow_ok(1,2) const_hash_ok empty_flow_ok(3)])
     (simp_all add: empty_flow_ok(3))

text \<open>
  C26. Truncating the flow at an entry keeps the plain text of everything below it, sealed or not,
  removes everything from it on, and keeps the invariant of the batches.
\<close>

theorem truncate_flow_map:
  assumes "flow_ok fs"
  shows "\<exists>fs'. truncate_flow keccak n fs = (fs', Ok ()) \<and> flow_ok fs' \<and>
     (\<forall>off. flow_at keccak fs' off = (if off < n * 256 then flow_at keccak fs off else None))"
  by (rule truncate_flow_refines [OF assms, where keccak = keccak and n = n]) blast

theorem truncate_flow_map_witness:
  "\<exists>fs'. truncate_flow (\<lambda>x. x) 20 example_flow = (fs', Ok ()) \<and> flow_ok fs' \<and>
     (\<forall>off. flow_at (\<lambda>x. x) fs' off = (if off < 20 * 256 then flow_at (\<lambda>x. x) example_flow off else None))"
  by (rule truncate_flow_map [OF example_flow_ok(1)])

subsection \<open>Handing out seal tasks\<close>

lemma full_batch_stored: "flow_full fs k \<Longrightarrow> get_entry_batch (flow_db fs) (k div 64) = Some (batch_or_new fs (k div 64))"
proof (cases "get_entry_batch (flow_db fs) (k div 64)")
  case None
  assume "flow_full fs k"
  with None show ?thesis using new_entry_batch_ok(2) [of "k div 64" "k mod 64 * 4096"]
    by (auto simp: flow_full_def batch_or_new_def seal_full_def present_def layout_values)
qed (simp add: batch_or_new_def)

lemma seal_content_flow:
  assumes full: "flow_full fs k" and unsealed: "\<not> flow_sealed fs k"
  shows "seal_content (eb_data (batch_or_new fs (k div 64))) (k mod 64) =
    map (\<lambda>off. the (flow_at keccak fs off)) [k * 4096..<(k + 1) * 4096]"
proof (rule nth_equalityI)
  define c x where "c = k div 64" and "x = k mod 64"
  have k: "k = c * 64 + x" "x < 64" by (simp_all add: c_def x_def)
  let ?eb = "batch_or_new fs c"
  fix i
  assume "i < length (seal_content (eb_data (batch_or_new fs (k div 64))) (k mod 64))"
  then have i: "i < 4096" by (simp add: seal_content_def)
  let ?y = "x * 4096 + i"
  have y: "?y < 262144" "k * 4096 + i = c * 262144 + ?y" using i k by (simp_all add: add_mult_distrib)
  have "flow_at keccak fs (c * 262144 + ?y) = batch_at keccak ?eb ?y" using flow_at_local [of ?y keccak fs c] y(1) by (simp add: layout_values)
  moreover have "bytes_at (eb_data ?eb) ?y \<noteq> None"
    using full i unfolding flow_full_def seal_full_def present_def layout_values c_def [symmetric] x_def [symmetric] by simp
  moreover have "plain_byte keccak ?eb ?y = the (bytes_at (eb_data ?eb) ?y)"
    by (rule plain_unsealed [of _ x]) (use unsealed i in \<open>simp_all add: flow_sealed_def c_def x_def\<close>)
  ultimately have "the (flow_at keccak fs (k * 4096 + i)) = the (bytes_at (eb_data ?eb) ?y)" unfolding y(2) by (simp add: batch_at_def)
  moreover have "seal_content (eb_data ?eb) x ! i = the (bytes_at (eb_data ?eb) ?y)"
    using i by (simp add: seal_content_def nth_content)
  ultimately show "seal_content (eb_data (batch_or_new fs (k div 64))) (k mod 64) ! i =
      map (\<lambda>off. the (flow_at keccak fs off)) [k * 4096..<(k + 1) * 4096] ! i"
    using i by (simp add: c_def x_def)
qed (simp add: seal_content_def)

text \<open>
  C27. While the queue is in order, pulling seal tasks never fails and makes progress: when a queued
  seal chunk lies below the limit, at least one task is handed out, and every task carries the queued
  version and the bytes of a complete seal chunk that is not sealed yet.
\<close>

theorem pull_seal_chunk_progress:
  assumes "flow_ok fs" and "seal_ready fs"
  shows "\<exists>r. pull_seal_chunk fs limit = Ok r \<and>
     ((\<exists>k < limit. hm_get (to_seal_set fs) k \<noteq> None) \<longrightarrow> (\<exists>ts. r = Some ts \<and> ts \<noteq> [])) \<and>
     (\<forall>ts. r = Some ts \<longrightarrow> (\<forall>t \<in> set ts. st_seal_index t < limit \<and>
        hm_get (to_seal_set fs) (st_seal_index t) = Some (st_version t) \<and>
        st_non_sealed_data t = map (\<lambda>off. the (flow_at keccak fs off)) [st_seal_index t * 4096..<(st_seal_index t + 1) * 4096]))"
proof (cases "btree_iter (to_seal_set fs)")
  case Nil
  then have "hm_get (to_seal_set fs) k = None" for k using btree_iter_set [of k _ "to_seal_set fs"] by (cases "hm_get (to_seal_set fs) k") auto
  then show ?thesis using Nil by (simp add: pull_seal_chunk_def)
next
  case (Cons p rest)
  obtain f w where p: "p = (f, w)" by (cases p)
  have mem: "hm_get (to_seal_set fs) j = Some u" if "(j, u) \<in> set ((f, w) # rest)" for j u
    using that Cons p by (simp flip: btree_iter_set)
  have least: "f \<le> k" if "hm_get (to_seal_set fs) k = Some u" for k u
    using btree_first [OF that] Cons p by (metis list.inject prod.inject)
  show ?thesis
  proof (cases "limit \<le> f")
    case True
    then have "pull_seal_chunk fs limit = Ok None" using Cons p by (simp add: pull_seal_chunk_def)
    moreover have "\<not> (\<exists>k < limit. hm_get (to_seal_set fs) k \<noteq> None)" using least True by fastforce
    ultimately show ?thesis by blast
  next
    case False
    let ?ts = "(f, w) # filter (\<lambda>(x, _). f div 64 = x div 64 \<and> x < limit) rest" and ?eb = "batch_or_new fs (f div 64)"
    have ready: "flow_full fs j \<and> \<not> flow_sealed fs j" if "(j, u) \<in> set ((f, w) # rest)" for j u
      using mem [OF that] assms(2) by (simp add: seal_ready_def)
    have same: "j div 64 = f div 64 \<and> j < limit" if "(j, u) \<in> set ?ts" for j u using that False by auto
    have "seal_tasks ?eb ?ts = Ok (map (task_of ?eb) ?ts)"
    proof (rule seal_tasks_exact(1) [OF batch_or_new_ok(1) [OF assms(1)]], clarify)
      fix j u assume j: "(j, u) \<in> set ?ts"
      then have "(j, u) \<in> set ((f, w) # rest)" by auto
      from ready [OF this] same [OF j] show "seal_full (eb_data ?eb) (j mod 64) \<and> \<not> is_sealed (eb_seal ?eb) (j mod 64)"
        by (simp add: flow_full_def flow_sealed_def)
    qed
    moreover have "flow_full fs f" using ready [of f w] by simp
    ultimately have pull: "pull_seal_chunk fs limit = Ok (Some (map (task_of ?eb) ?ts))"
      using Cons p False full_batch_stored [of fs f] by (simp add: pull_seal_chunk_def layout_values)
    have "st_seal_index t < limit \<and> hm_get (to_seal_set fs) (st_seal_index t) = Some (st_version t) \<and>
        st_non_sealed_data t = map (\<lambda>off. the (flow_at keccak fs off)) [st_seal_index t * 4096..<(st_seal_index t + 1) * 4096]"
      if t: "t \<in> set (map (task_of ?eb) ?ts)" for t
    proof -
      obtain j u where j: "t = task_of ?eb (j, u)" "(j, u) \<in> set ?ts" using t by fastforce
      then have r: "(j, u) \<in> set ((f, w) # rest)" by auto
      show ?thesis using mem [OF r] ready [OF r] same [OF j(2)] seal_content_flow [of fs j keccak] j(1)
        by (simp add: task_of_def)
    qed
    then show ?thesis using pull by (intro exI [of _ "Some (map (task_of ?eb) ?ts)"]) auto
  qed
qed

theorem pull_seal_chunk_progress_witness:
  "\<exists>r. pull_seal_chunk queued_flow 5 = Ok r \<and>
     ((\<exists>k < 5. hm_get (to_seal_set queued_flow) k \<noteq> None) \<longrightarrow> (\<exists>ts. r = Some ts \<and> ts \<noteq> [])) \<and>
     (\<forall>ts. r = Some ts \<longrightarrow> (\<forall>t \<in> set ts. st_seal_index t < 5 \<and>
        hm_get (to_seal_set queued_flow) (st_seal_index t) = Some (st_version t) \<and>
        st_non_sealed_data t = map (\<lambda>off. the (flow_at (\<lambda>x. x) queued_flow off)) [st_seal_index t * 4096..<(st_seal_index t + 1) * 4096]))"
  by (rule pull_seal_chunk_progress [OF queued_flow_ok])

text \<open>
  C28. Truncating inside a sealed seal chunk queues that chunk for sealing although its end has been
  cut off, and the next pull that reaches it panics.
\<close>

theorem truncate_then_pull_panics:
  assumes "flow_ok fs" and "flow_sealed fs (n div 16)" and "n mod 16 \<noteq> 0" and "n div 16 < limit"
    and "\<forall>k. hm_get (to_seal_set fs) k \<noteq> None \<longrightarrow> n div 1024 * 64 \<le> k"
  shows "\<exists>fs'. truncate_flow keccak n fs = (fs', Ok ()) \<and> is_Panic (pull_seal_chunk fs' limit)"
proof -
  let ?q = "n div 1024" and ?r = "n mod 1024" and ?k = "n div 16"
  obtain fs' where fs': "truncate_flow keccak n fs = (fs', Ok ())" "flow_ok fs'"
    "\<And>off. flow_at keccak fs' off = (if off < n * 256 then flow_at keccak fs off else None)"
    "\<And>k. hm_get (to_seal_set fs') k =
       (if ?r \<noteq> 0 \<and> k \<in> cut_seals fs n then Some (to_seal_version fs + 1)
        else if k < n div 16 then hm_get (to_seal_set fs) k else None)"
    by (rule truncate_flow_refines [OF assms(1), where keccak = keccak and n = n]) blast
  define x where "x = ?r div 16"
  have n: "n = ?q * 1024 + ?r" "?r = x * 16 + n mod 16"
    using div_mult_mod_eq [of n 1024] div_mult_mod_eq [of ?r 16] mod_mod_cancel [of 16 1024 n] by (simp_all add: x_def)
  have x: "x < 64" by (simp add: x_def div_less_iff_less_mult)
  have k: "?k = ?q * 64 + x"
    by (rule div_nat_eqI) (use n mod_less_divisor [of 16 n] in \<open>simp_all add: add_mult_distrib2\<close>)
  have "truncated_seal_index (eb_seal (batch_or_new fs ?q)) x \<le> x"
    using truncated_seal_index_le [of "eb_seal (batch_or_new fs ?q)" x] batch_or_new_ok(1) [OF assms(1), of ?q]
    by (simp add: entry_batch_ok_def)
  then have "?k \<in> cut_seals fs n" using assms(2,3) n(2) x by (simp add: cut_seals_def k x_def [symmetric])
  then have "hm_get (to_seal_set fs') ?k = Some (to_seal_version fs + 1)" using fs'(4) n(2) assms(3) by auto
  then obtain f w rest where f: "btree_iter (to_seal_set fs') = (f, w) # rest" "hm_get (to_seal_set fs') f = Some w" "f \<le> ?k"
    "(?k, to_seal_version fs + 1) \<in> set ((f, w) # rest)"
    by (rule btree_first) blast
  have "?q * 64 \<le> f" using f(2) fs'(4) [of f] assms(5) by (auto simp: cut_seals_def div_times_less_eq_dividend split: if_splits)
  then have fq: "f div 64 = ?q" using f(3) k x by (intro div_nat_eqI) simp_all
  have "\<not> flow_full fs' ?k"
  proof
    assume "flow_full fs' ?k"
    moreover have "?k * 4096 \<le> n * 256" "n * 256 < (?k + 1) * 4096" using n k mod_less_divisor [of 16 n] by (simp_all add: add_mult_distrib)
    ultimately have "flow_at keccak fs' (n * 256) \<noteq> None" by (rule flow_full_bytes)
    then show False using fs'(3) [of "n * 256"] by simp
  qed
  then have lost: "\<not> seal_full (eb_data (batch_or_new fs' ?q)) (?k mod 64)" using k x by (simp add: flow_full_def)
  have "is_Panic (pull_seal_chunk fs' limit)"
  proof (cases "get_entry_batch (flow_db fs') ?q")
    case None
    then show ?thesis using f(1,3) assms(4) fq by (simp add: pull_seal_chunk_def layout_values)
  next
    case (Some eb)
    then have eb: "batch_or_new fs' ?q = eb" by (simp add: batch_or_new_def)
    have "(?k, to_seal_version fs + 1) \<in> set ((f, w) # filter (\<lambda>(j, _). f div 64 = j div 64 \<and> j < limit) rest)"
      using f(4) assms(4) fq k x by auto
    from seal_tasks_exact(2) [OF batch_or_new_ok(1) [OF fs'(2), of ?q] this] lost
    have "is_Panic (seal_tasks eb ((f, w) # filter (\<lambda>(j, _). f div 64 = j div 64 \<and> j < limit) rest))" unfolding eb by blast
    then show ?thesis using Some f(1,3) assms(4) fq by (simp add: pull_seal_chunk_def layout_values is_Panic_rbind del: seal_tasks.simps)
  qed
  then show ?thesis using fs'(1) by blast
qed

theorem truncate_then_pull_panics_witness:
  "\<exists>fs'. truncate_flow (\<lambda>x. x) 8 example_flow = (fs', Ok ()) \<and> is_Panic (pull_seal_chunk fs' 64)"
  by (rule truncate_then_pull_panics [OF example_flow_ok(1)])
     (simp_all add: flow_sealed_def example_flow_batch example_sealed_iff)

end
