(* ===== verification/Tx_Store.thy ===== *)
theory Tx_Store
  imports Flow_Store
begin

text \<open>
  The transaction store, \<^verbatim>\<open>node/storage/src/log_store/tx_store.rs\<close>: transactions by sequence number,
  the index from data roots to the sequence numbers that carry them, the completed transactions, the
  progress of the log synchronisation, and the rebuilding of the last chunk's tree from the stored
  transactions. The four columns it uses are the fields of \<open>tx_store\<close>.
\<close>

subsection \<open>State and operations\<close>

record tx_store =
  col_tx :: "(nat, transaction) hmap"
  col_tx_data_root_index :: "(h256, nat list) hmap"
  col_tx_completed :: "(nat, byte list) hmap"
  col_misc :: "(nat \<times> h256) option"

definition PORA_CHUNK_SIZE :: nat where "PORA_CHUNK_SIZE = 1024"

definition get_tx_by_seq_number :: "tx_store \<Rightarrow> nat \<Rightarrow> transaction option" where
  "get_tx_by_seq_number ts seq = hm_get (col_tx ts) seq"

definition get_tx_seq_list_by_data_root :: "tx_store \<Rightarrow> h256 \<Rightarrow> nat list" where
  "get_tx_seq_list_by_data_root ts data_root =
     (case hm_get (col_tx_data_root_index ts) data_root of Some v \<Rightarrow> v | None \<Rightarrow> [])"

definition get_first_tx_seq_by_data_root :: "tx_store \<Rightarrow> h256 \<Rightarrow> nat option" where
  "get_first_tx_seq_by_data_root ts data_root =
     (case hm_get (col_tx_data_root_index ts) data_root of
        None \<Rightarrow> None
      | Some seq_list \<Rightarrow> (case seq_list of [] \<Rightarrow> None | seq # _ \<Rightarrow> Some seq))"

text \<open>A transaction that carries its data gets its size and its data root from it.\<close>

definition fill_data_root :: "(byte list \<Rightarrow> h256) \<Rightarrow> transaction \<Rightarrow> transaction res" where
  "fill_data_root keccak tx =
     (if tx_data tx = [] then Ok tx
      else let extra = length (tx_data tx) mod CHUNK_SIZE;
               padded_data = (if extra \<noteq> 0 then tx_data tx @ replicate (CHUNK_SIZE - extra) 0 else tx_data tx)
           in rbind (sub_merkle_tree keccak padded_data) (\<lambda>t.
              rbind (light_tree_root t) (\<lambda>data_root.
                Ok (tx\<lparr>tx_size := length (tx_data tx), data_merkle_root := data_root\<rparr>))))"

definition store_put_tx :: "(byte list \<Rightarrow> h256) \<Rightarrow> tx_store \<Rightarrow> transaction \<Rightarrow> (tx_store \<times> nat list) res" where
  "store_put_tx keccak ts tx =
     rbind (fill_data_root keccak tx) (\<lambda>tx.
       let old_tx_seq_list = get_tx_seq_list_by_data_root ts (data_merkle_root tx)
       in rbind (assert_that (old_tx_seq_list = [] \<or> last old_tx_seq_list < tx_seq tx) ''put_tx in order'') (\<lambda>_.
            Ok (ts\<lparr>col_tx := kv_write [Put (tx_seq tx) tx] (col_tx ts),
                   col_tx_data_root_index :=
                     kv_write [Put (data_merkle_root tx) (old_tx_seq_list @ [tx_seq tx])] (col_tx_data_root_index ts)\<rparr>,
                old_tx_seq_list)))"

definition remove_tx_by_seq_number :: "tx_store \<Rightarrow> nat \<Rightarrow> tx_store \<times> transaction option" where
  "remove_tx_by_seq_number ts seq =
     (case get_tx_by_seq_number ts seq of
        None \<Rightarrow> (ts, None)
      | Some tx \<Rightarrow>
          let tx_seq_list = filter (\<lambda>e. e < seq) (get_tx_seq_list_by_data_root ts (data_merkle_root tx))
          in (ts\<lparr>col_tx := kv_write [Delete seq] (col_tx ts),
                 col_tx_completed := kv_write [Delete seq] (col_tx_completed ts),
                 col_tx_data_root_index :=
                   kv_write [if tx_seq_list = [] then Delete (data_merkle_root tx) else Put (data_merkle_root tx) tx_seq_list]
                     (col_tx_data_root_index ts)\<rparr>,
              Some tx))"

definition store_finalize_tx :: "tx_store \<Rightarrow> nat \<Rightarrow> tx_store" where
  "store_finalize_tx ts seq = ts\<lparr>col_tx_completed := kv_write [Put seq [0]] (col_tx_completed ts)\<rparr>"

definition store_check_tx_completed :: "tx_store \<Rightarrow> nat \<Rightarrow> bool" where
  "store_check_tx_completed ts seq = (hm_get (col_tx_completed ts) seq \<noteq> None)"

definition store_next_tx_seq :: "tx_store \<Rightarrow> nat" where
  "store_next_tx_seq ts = (case last_key (col_tx ts) of Some k \<Rightarrow> k + 1 | None \<Rightarrow> 0)"

definition put_progress :: "tx_store \<Rightarrow> nat \<times> h256 \<Rightarrow> tx_store" where
  "put_progress ts progress = ts\<lparr>col_misc := Some progress\<rparr>"

definition get_progress :: "tx_store \<Rightarrow> (nat \<times> h256) option" where
  "get_progress ts = col_misc ts"

subsection \<open>Rebuilding the last chunk\<close>

definition log_padding :: "nat \<Rightarrow> byte list" where
  "log_padding len = replicate (len * CHUNK_SIZE) 0"

text \<open>The inner loop: the index after the first subtree that ends at the boundary of the chunk.\<close>

fun first_subtree_index :: "nat \<Rightarrow> nat \<Rightarrow> nat \<Rightarrow> (nat \<times> h256) list \<Rightarrow> nat option res" where
  "first_subtree_index chunk_start start_index i [] = Ok None"
| "first_subtree_index chunk_start start_index i ((depth, _) # nodes) =
     rbind (num_entries_of_node depth) (\<lambda>n.
       if start_index + n = chunk_start then Ok (Some (i + 1))
       else first_subtree_index chunk_start (start_index + n) (i + 1) nodes)"

text \<open>The outer loop, from the given transaction down to the first one of the chunk.\<close>

fun chunk_tx_list ::
  "tx_store \<Rightarrow> nat \<Rightarrow> nat \<Rightarrow> (nat \<times> (nat \<times> h256) list) list \<Rightarrow> (nat \<times> (nat \<times> h256) list) list res" where
  "chunk_tx_list ts chunk_start seq tx_list =
     (case get_tx_by_seq_number ts seq of
        None \<Rightarrow> Panic ''tx not removed''
      | Some tx \<Rightarrow>
          if chunk_start < start_entry_index tx
          then let tx_list = tx_list @ [(seq, merkle_nodes tx)]
               in (case seq of 0 \<Rightarrow> Ok tx_list | Suc prev \<Rightarrow> chunk_tx_list ts chunk_start prev tx_list)
          else if start_entry_index tx = chunk_start then Ok (tx_list @ [(seq, merkle_nodes tx)])
          else rbind (first_subtree_index chunk_start (start_entry_index tx) 0 (merkle_nodes tx)) (\<lambda>first_index.
               case first_index of
                 None \<Rightarrow> Ok tx_list
               | Some first_index \<Rightarrow>
                   if first_index \<noteq> length (merkle_nodes tx)
                   then Ok (tx_list @ [(seq, drop first_index (merkle_nodes tx))])
                   else rbind (assert_that (tx_list = []) ''tx_list.is_empty()'') (\<lambda>_. Ok tx_list)))"

declare chunk_tx_list.simps [simp del]

text \<open>One transaction of the chunk: padding up to its first subtree, then its subtrees.\<close>

definition rebuild_tx ::
  "(byte list \<Rightarrow> h256) \<Rightarrow> h256 amt \<Rightarrow> nat \<times> (nat \<times> h256) list \<Rightarrow> h256 amt res" where
  "rebuild_tx keccak merkle entry =
     (let (seq, subtree_list) = entry
      in rbind (vec_index subtree_list 0) (\<lambda>(depth, _).
         rbind (num_entries_of_node depth) (\<lambda>first_subtree.
         rbind (amt_leaves merkle) (\<lambda>n.
         rbind (if n mod first_subtree \<noteq> 0
                then if min first_subtree PORA_CHUNK_SIZE < n mod first_subtree then Panic ''attempt to subtract with overflow''
                     else let pad_len = min first_subtree PORA_CHUNK_SIZE - n mod first_subtree
                          in rbind (data_to_merkle_leaves keccak (log_padding pad_len)) (append_list (sha3_algo keccak) merkle)
                else Ok merkle) (\<lambda>merkle.
         case append_subtree_list (sha3_algo keccak) merkle subtree_list of
           (merkle, r) \<Rightarrow> rbind r (\<lambda>_. commit merkle (Some seq)))))))"

fun rebuild_txs ::
  "(byte list \<Rightarrow> h256) \<Rightarrow> h256 amt \<Rightarrow> (nat \<times> (nat \<times> h256) list) list \<Rightarrow> h256 amt res" where
  "rebuild_txs keccak merkle [] = Ok merkle"
| "rebuild_txs keccak merkle (entry # es) = rbind (rebuild_tx keccak merkle entry) (\<lambda>merkle. rebuild_txs keccak merkle es)"

definition rebuild_last_chunk_merkle ::
  "(byte list \<Rightarrow> h256) \<Rightarrow> tx_store \<Rightarrow> nat \<Rightarrow> nat \<Rightarrow> h256 amt res" where
  "rebuild_last_chunk_merkle keccak ts pora_chunk_index seq =
     (let last_chunk_start = pora_chunk_index * PORA_CHUNK_SIZE
      in rbind (chunk_tx_list ts last_chunk_start seq []) (\<lambda>tx_list.
         rbind (new_with_depth (sha3_algo keccak) (if last_chunk_start = 0 then [h256_zero] else [])
                  (log2_pow2 PORA_CHUNK_SIZE + 1) None) (\<lambda>merkle.
           rebuild_txs keccak merkle (rev tx_list))))"

end
