(* ===== verification/Log_Manager.thy ===== *)
theory Log_Manager
  imports Tx_Store Merkle_Proof
begin

text \<open>
  The log manager, \<^verbatim>\<open>node/storage/src/log_store/log_manager.rs\<close>: the transaction store, the flow store
  and the two in-memory Merkle trees (the tree over the PoRA chunks and the tree of the last chunk)
  kept together. A method on \<open>&mut self\<close> is an \<open>op\<close> on the record \<open>log_manager\<close>: on an error the
  changes made before it stay, as in the source.

  Subtractions that underflow panic. The two 64-bit additions that do overflow for inputs the callers
  pass (\<open>put_chunks\<close> with a large start index, \<open>revert_to(u64::MAX)\<close>) wrap around, as in the release
  builds the repository ships.
\<close>

subsection \<open>State\<close>

record log_manager =
  lm_tx_store :: tx_store
  lm_flow_store :: flow_store
  pora_chunks_merkle :: "h256 amt"
  last_chunk_merkle :: "h256 amt"

definition on_flow :: "(flow_store, 'a) op \<Rightarrow> (log_manager, 'a) op" where
  "on_flow f lm = (case f (lm_flow_store lm) of (fs, r) \<Rightarrow> (lm\<lparr>lm_flow_store := fs\<rparr>, r))"

definition on_pora :: "(h256 amt \<Rightarrow> h256 amt res) \<Rightarrow> (log_manager, unit) op" where
  "on_pora f = op_update (\<lambda>lm. rbind (f (pora_chunks_merkle lm)) (\<lambda>t. Ok (lm\<lparr>pora_chunks_merkle := t\<rparr>, ())))"

definition on_last :: "(h256 amt \<Rightarrow> h256 amt res) \<Rightarrow> (log_manager, unit) op" where
  "on_last f = op_update (\<lambda>lm. rbind (f (last_chunk_merkle lm)) (\<lambda>t. Ok (lm\<lparr>last_chunk_merkle := t\<rparr>, ())))"

definition last_chunk_start_index :: "log_manager \<Rightarrow> nat res" where
  "last_chunk_start_index lm =
     rbind (amt_leaves (pora_chunks_merkle lm)) (\<lambda>p.
       if p = 0 then Ok 0
       else rbind (amt_leaves (last_chunk_merkle lm)) (\<lambda>l.
              Ok (PORA_CHUNK_SIZE * (if l = 0 then p else p - 1))))"

definition new_last_chunk :: "(byte list \<Rightarrow> h256) \<Rightarrow> h256 amt res" where
  "new_last_chunk keccak = new_with_depth (sha3_algo keccak) [] (log2_pow2 PORA_CHUNK_SIZE + 1) None"

subsection \<open>Appending data\<close>

text \<open>Every entry from the given position of the last chunk on becomes a leaf of its tree.\<close>

fun fill_last_leaves :: "(byte list \<Rightarrow> h256) \<Rightarrow> nat \<Rightarrow> byte list list \<Rightarrow> (log_manager, unit) op" where
  "fill_last_leaves keccak index [] = op_lift (Ok ())"
| "fill_last_leaves keccak index (entry # es) =
     op_bind (on_last (\<lambda>t. fill_leaf (sha3_algo keccak) t index (a_leaf (sha3_algo keccak) entry))) (\<lambda>_.
       fill_last_leaves keccak (index + 1) es)"

definition fill_chunk_root :: "(byte list \<Rightarrow> h256) \<Rightarrow> nat \<times> h256 \<Rightarrow> (log_manager, unit) op" where
  "fill_chunk_root keccak cr =
     op_bind (op_read (\<lambda>lm. amt_leaves (pora_chunks_merkle lm))) (\<lambda>n.
       if fst cr < n then on_pora (\<lambda>t. fill_leaf (sha3_algo keccak) t (fst cr) (snd cr))
       else op_lift (Panic ''We always insert tx nodes before put_chunks''))"

definition lm_append_entries :: "(byte list \<Rightarrow> h256) \<Rightarrow> chunk_array \<Rightarrow> (log_manager, unit) op" where
  "lm_append_entries keccak arr =
     op_bind (op_read last_chunk_start_index) (\<lambda>last_start.
     op_bind (if last_start < ca_start arr + bytes_to_chunks (length (ca_data arr))
              then let (chunk_start, data_index) =
                         (if last_start \<le> ca_start arr then (ca_start arr - last_start, 0)
                          else (0, (last_start - ca_start arr) * CHUNK_SIZE))
                   in op_bind (op_lift (slice_index (ca_data arr) data_index (length (ca_data arr)))) (\<lambda>d.
                        fill_last_leaves keccak chunk_start (chunks_exact CHUNK_SIZE d))
              else op_lift (Ok ())) (\<lambda>_.
     op_bind (on_flow (append_entries keccak arr)) (\<lambda>chunk_roots.
       op_for (fill_chunk_root keccak) chunk_roots)))"

text \<open>The range check of \<open>put_chunks\<close>: \<open>saturating_mul\<close>, then an addition in 64 bits.\<close>

definition out_of_tx_range :: "chunk_array \<Rightarrow> nat \<Rightarrow> bool" where
  "out_of_tx_range arr chunks_for_proof =
     ((min (ca_start arr * CHUNK_SIZE) (2 ^ 64 - 1) + length (ca_data arr)) mod 2 ^ 64 > chunks_for_proof * CHUNK_SIZE)"

definition put_chunks :: "(byte list \<Rightarrow> h256) \<Rightarrow> nat \<Rightarrow> chunk_array \<Rightarrow> (log_manager, unit) op" where
  "put_chunks keccak seq arr lm =
     (case get_tx_by_seq_number (lm_tx_store lm) seq of
        None \<Rightarrow> (lm, Err ''put chunks with missing tx'')
      | Some tx \<Rightarrow>
          op_bind (op_lift (compute_padded_chunk_size (tx_size tx))) (\<lambda>(chunks_for_proof, _).
            if out_of_tx_range arr chunks_for_proof then op_lift (Err ''put chunks with data out of tx range'')
            else lm_append_entries keccak (arr\<lparr>ca_start := ca_start arr + start_entry_index tx\<rparr>)) lm)"

definition put_chunks_with_tx_hash ::
  "(byte list \<Rightarrow> h256) \<Rightarrow> (transaction \<Rightarrow> byte list) \<Rightarrow> nat \<Rightarrow> h256 \<Rightarrow> chunk_array \<Rightarrow> (log_manager, bool) op" where
  "put_chunks_with_tx_hash keccak ssz seq hash arr lm =
     (case get_tx_by_seq_number (lm_tx_store lm) seq of
        None \<Rightarrow> (lm, Err ''put chunks with missing tx'')
      | Some tx \<Rightarrow>
          if tx_hash keccak ssz tx \<noteq> hash then (lm, Ok False)
          else op_bind (op_lift (compute_padded_chunk_size (tx_size tx))) (\<lambda>(chunks_for_proof, _).
            if out_of_tx_range arr chunks_for_proof then op_lift (Err ''put chunks with data out of tx range'')
            else op_bind (lm_append_entries keccak (arr\<lparr>ca_start := ca_start arr + start_entry_index tx\<rparr>)) (\<lambda>_.
                   op_lift (Ok True))) lm)"

subsection \<open>Reading\<close>

definition get_chunks_by_tx_and_index_range ::
  "(byte list \<Rightarrow> h256) \<Rightarrow> log_manager \<Rightarrow> nat \<Rightarrow> nat \<Rightarrow> nat \<Rightarrow> chunk_array option res" where
  "get_chunks_by_tx_and_index_range keccak lm seq index_start index_end =
     (case get_tx_by_seq_number (lm_tx_store lm) seq of
        None \<Rightarrow> Ok None
      | Some tx \<Rightarrow>
          rbind (get_entries keccak (lm_flow_store lm) (start_entry_index tx + index_start) (start_entry_index tx + index_end)) (\<lambda>c.
            Ok (map_option (\<lambda>tx_chunk. tx_chunk\<lparr>ca_start := ca_start tx_chunk - start_entry_index tx\<rparr>) c)))"

definition to_chunk :: "byte list \<Rightarrow> byte list res" where
  "to_chunk data = (if length data = CHUNK_SIZE then Ok data else Err ''could not convert slice to array'')"

definition get_chunk_by_tx_and_index ::
  "(byte list \<Rightarrow> h256) \<Rightarrow> log_manager \<Rightarrow> nat \<Rightarrow> nat \<Rightarrow> byte list option res" where
  "get_chunk_by_tx_and_index keccak lm seq index =
     rbind (get_chunks_by_tx_and_index_range keccak lm seq index (index + 1)) (\<lambda>single.
     case single of
       None \<Rightarrow> Ok None
     | Some a \<Rightarrow> rbind (to_chunk (ca_data a)) (\<lambda>c. Ok (Some c)))"

definition get_chunks_by_data_root_and_index_range ::
  "(byte list \<Rightarrow> h256) \<Rightarrow> log_manager \<Rightarrow> h256 \<Rightarrow> nat \<Rightarrow> nat \<Rightarrow> chunk_array option res" where
  "get_chunks_by_data_root_and_index_range keccak lm data_root index_start index_end =
     (case get_first_tx_seq_by_data_root (lm_tx_store lm) data_root of
        None \<Rightarrow> Ok None
      | Some seq \<Rightarrow> get_chunks_by_tx_and_index_range keccak lm seq index_start index_end)"

definition get_chunk_by_flow_index ::
  "(byte list \<Rightarrow> h256) \<Rightarrow> log_manager \<Rightarrow> nat \<Rightarrow> nat \<Rightarrow> chunk_array option res" where
  "get_chunk_by_flow_index keccak lm index len = get_entries keccak (lm_flow_store lm) index (index + len)"

definition lm_check_tx_completed :: "log_manager \<Rightarrow> nat \<Rightarrow> bool" where
  "lm_check_tx_completed lm seq = store_check_tx_completed (lm_tx_store lm) seq"

definition get_context :: "log_manager \<Rightarrow> (h256 \<times> nat) res" where
  "get_context lm =
     rbind (amt_root (pora_chunks_merkle lm)) (\<lambda>root.
     rbind (last_chunk_start_index lm) (\<lambda>s.
     rbind (amt_leaves (last_chunk_merkle lm)) (\<lambda>l. Ok (root, s + l))))"

subsection \<open>Proofs of entries\<close>

definition entry_proof :: "h256 merkle_proof \<Rightarrow> h256 merkle_proof \<Rightarrow> h256 merkle_proof res" where
  "entry_proof top_proof sub_proof =
     rbind (proof_item top_proof) (\<lambda>item.
     rbind (proof_root sub_proof) (\<lambda>root.
       if item \<noteq> root then Err ''top tree and sub tree mismatch''
       else rbind (assert_that (p_lemma sub_proof \<noteq> []) ''lemma.pop().is_some()'') (\<lambda>_.
              proof_new (butlast (p_lemma sub_proof) @ tl (p_lemma top_proof)) (p_path sub_proof @ p_path top_proof))))"

text \<open>The proof inside a chunk that is complete: its tree is built again from the flow.\<close>

definition chunk_proof :: "(byte list \<Rightarrow> h256) \<Rightarrow> log_manager \<Rightarrow> nat \<Rightarrow> nat \<Rightarrow> h256 merkle_proof res" where
  "chunk_proof keccak lm chunk_index flow_index =
     rbind (get_entries keccak (lm_flow_store lm) (chunk_index * PORA_CHUNK_SIZE) ((chunk_index + 1) * PORA_CHUNK_SIZE)) (\<lambda>c.
     case c of
       None \<Rightarrow> Err ''data incomplete for generating proof''
     | Some pora_chunk \<Rightarrow>
         rbind (data_to_merkle_leaves keccak (ca_data pora_chunk)) (\<lambda>ls.
         let leaves = (if chunk_index = 0 \<and> length (ca_data pora_chunk) div CHUNK_SIZE = PORA_CHUNK_SIZE - 1
                       then h256_zero # ls else ls)
         in rbind (new_with_depth (sha3_algo keccak) leaves (log2_pow2 PORA_CHUNK_SIZE + 1) None) (\<lambda>t.
              gen_proof (sha3_algo keccak) (amt_reader (sha3_algo keccak) t) (flow_index mod PORA_CHUNK_SIZE))))"

definition lm_gen_proof ::
  "(byte list \<Rightarrow> h256) \<Rightarrow> log_manager \<Rightarrow> nat \<Rightarrow> h256 option \<Rightarrow> h256 merkle_proof res" where
  "lm_gen_proof keccak lm flow_index maybe_root =
     (let A = sha3_algo keccak; chunk_index = flow_index div PORA_CHUNK_SIZE
      in rbind (case maybe_root of
                  None \<Rightarrow> gen_proof A (amt_reader A (pora_chunks_merkle lm)) chunk_index
                | Some root \<Rightarrow> rbind (at_root_version (pora_chunks_merkle lm) root) (\<lambda>ht.
                    gen_proof A (history_reader A ht) chunk_index)) (\<lambda>top_proof.
         rbind (amt_leaves (pora_chunks_merkle lm)) (\<lambda>p.
         if p = 0 then Panic ''attempt to subtract with overflow'' else
         rbind (amt_leaves (last_chunk_merkle lm)) (\<lambda>l.
         rbind (if chunk_index \<noteq> p - 1 \<or> l = 0 then chunk_proof keccak lm chunk_index flow_index
                else case maybe_root of
                       None \<Rightarrow> gen_proof A (amt_reader A (last_chunk_merkle lm)) (flow_index mod PORA_CHUNK_SIZE)
                     | Some root \<Rightarrow> rbind (at_root_version (last_chunk_merkle lm) root) (\<lambda>ht.
                         gen_proof A (history_reader A ht) (flow_index mod PORA_CHUNK_SIZE))) (\<lambda>sub_proof.
           entry_proof top_proof sub_proof)))))"

definition get_proof_at_root ::
  "(byte list \<Rightarrow> h256) \<Rightarrow> log_manager \<Rightarrow> h256 \<Rightarrow> nat \<Rightarrow> nat \<Rightarrow> h256 range_proof res" where
  "get_proof_at_root keccak lm root index len =
     rbind (lm_gen_proof keccak lm index (Some root)) (\<lambda>l.
     if index + len = 0 then Panic ''attempt to subtract with overflow'' else
     rbind (lm_gen_proof keccak lm (index + len - 1) (Some root)) (\<lambda>r.
       Ok \<lparr>left_proof = l, right_proof = r\<rparr>))"

definition get_chunks_with_proof_by_tx_and_index_range ::
  "(byte list \<Rightarrow> h256) \<Rightarrow> log_manager \<Rightarrow> nat \<Rightarrow> nat \<Rightarrow> nat \<Rightarrow> chunk_array_with_proof option res" where
  "get_chunks_with_proof_by_tx_and_index_range keccak lm seq index_start index_end =
     (case get_tx_by_seq_number (lm_tx_store lm) seq of
        None \<Rightarrow> Ok None
      | Some tx \<Rightarrow>
          rbind (get_chunks_by_tx_and_index_range keccak lm seq index_start index_end) (\<lambda>c.
          case c of
            None \<Rightarrow> Ok None
          | Some arr \<Rightarrow>
              rbind (lm_gen_proof keccak lm (start_entry_index tx + index_start) None) (\<lambda>l.
              rbind (lm_gen_proof keccak lm (start_entry_index tx + index_end - 1) None) (\<lambda>r.
                Ok (Some \<lparr>cp_chunks = arr, cp_proof = \<lparr>left_proof = l, right_proof = r\<rparr>\<rparr>)))))"

definition get_chunk_with_proof_by_tx_and_index ::
  "(byte list \<Rightarrow> h256) \<Rightarrow> log_manager \<Rightarrow> nat \<Rightarrow> nat \<Rightarrow> (byte list \<times> h256 merkle_proof) option res" where
  "get_chunk_with_proof_by_tx_and_index keccak lm seq index =
     rbind (get_chunks_with_proof_by_tx_and_index_range keccak lm seq index (index + 1)) (\<lambda>single.
     case single of
       None \<Rightarrow> Ok None
     | Some c \<Rightarrow> rbind (to_chunk (ca_data (cp_chunks c))) (\<lambda>d. Ok (Some (d, left_proof (cp_proof c)))))"

definition validate_range_proof ::
  "(byte list \<Rightarrow> h256) \<Rightarrow> log_manager \<Rightarrow> nat \<Rightarrow> chunk_array_with_proof \<Rightarrow> bool res" where
  "validate_range_proof keccak lm seq data =
     (case get_tx_by_seq_number (lm_tx_store lm) seq of
        None \<Rightarrow> Err ''tx missing''
      | Some tx \<Rightarrow>
          rbind (data_to_merkle_leaves keccak (ca_data (cp_chunks data))) (\<lambda>leaves.
          rbind (range_validate (sha3_algo keccak) (cp_proof data) leaves (ca_start (cp_chunks data) + start_entry_index tx)) (\<lambda>_.
          rbind (range_root (cp_proof data)) (\<lambda>root.
            Ok (check_root (pora_chunks_merkle lm) root)))))"

subsection \<open>Appending the trees of a transaction\<close>

definition pora_update_last :: "(byte list \<Rightarrow> h256) \<Rightarrow> (log_manager, unit) op" where
  "pora_update_last keccak =
     op_bind (op_read (\<lambda>lm. amt_root (last_chunk_merkle lm))) (\<lambda>root.
       on_pora (\<lambda>t. update_last (sha3_algo keccak) t root))"

definition reset_last_chunk :: "(byte list \<Rightarrow> h256) \<Rightarrow> (log_manager, unit) op" where
  "reset_last_chunk keccak = on_last (\<lambda>_. new_last_chunk keccak)"

text \<open>Appending padding to the last chunk: its tree, the chunk's leaf, and the data.\<close>

definition pad_last_chunk :: "(byte list \<Rightarrow> h256) \<Rightarrow> byte list \<Rightarrow> nat \<Rightarrow> (log_manager, unit) op" where
  "pad_last_chunk keccak pad_data start_index =
     op_bind (op_lift (data_to_merkle_leaves keccak pad_data)) (\<lambda>ls.
     op_bind (on_last (\<lambda>t. append_list (sha3_algo keccak) t ls)) (\<lambda>_.
     op_bind (pora_update_last keccak) (\<lambda>_.
     op_bind (on_flow (append_entries keccak \<lparr>ca_data = pad_data, ca_start = start_index\<rparr>)) (\<lambda>_.
       op_lift (Ok ())))))"

text \<open>The loop of \<open>pad_tx\<close> over complete chunks; it returns the index it stopped at.\<close>

function pad_chunks ::
  "(byte list \<Rightarrow> h256) \<Rightarrow> byte list \<Rightarrow> nat \<Rightarrow> nat \<Rightarrow> (log_manager, nat) op" where
  "pad_chunks keccak pad_data tx_start start_index =
     (if (start_index + PORA_CHUNK_SIZE) * CHUNK_SIZE \<le> length pad_data
      then let data = slice pad_data (start_index * CHUNK_SIZE) ((start_index + PORA_CHUNK_SIZE) * CHUNK_SIZE)
           in op_bind (op_lift (data_to_merkle_leaves keccak data)) (\<lambda>ls.
              op_bind (op_lift (rbind (new_amt (sha3_algo keccak) ls 0 None) amt_root)) (\<lambda>root.
              op_bind (on_pora (\<lambda>t. append_leaf (sha3_algo keccak) t root)) (\<lambda>_.
              op_bind (on_flow (append_entries keccak \<lparr>ca_data = data, ca_start = start_index + tx_start\<rparr>)) (\<lambda>_.
                pad_chunks keccak pad_data tx_start (start_index + PORA_CHUNK_SIZE)))))
      else op_lift (Ok start_index))"
  by pat_completeness auto
termination
  by (relation "measure (\<lambda>(k, d, t, i). length d - i)") (auto simp: PORA_CHUNK_SIZE_def CHUNK_SIZE_def)

declare pad_chunks.simps [simp del]

definition pad_tx :: "(byte list \<Rightarrow> h256) \<Rightarrow> nat \<Rightarrow> (log_manager, unit) op" where
  "pad_tx keccak first_subtree_size =
     op_bind (op_read last_chunk_start_index) (\<lambda>last_start.
     op_bind (op_read (\<lambda>lm. amt_leaves (last_chunk_merkle lm))) (\<lambda>l.
     let tx_start_flow_index = last_start + l;
         extra = tx_start_flow_index mod first_subtree_size
     in if first_subtree_size = 0 then op_lift (Panic ''attempt to calculate the remainder with a divisor of zero'')
        else if extra = 0 then op_lift (Ok ())
        else if l \<noteq> 0 \<and> PORA_CHUNK_SIZE < l then op_lift (Panic ''attempt to subtract with overflow'')
        else
          let pad_data = log_padding (first_subtree_size - extra);
              last_chunk_pad = (if l = 0 then 0 else (PORA_CHUNK_SIZE - l) * CHUNK_SIZE)
          in if length pad_data < last_chunk_pad then pad_last_chunk keccak pad_data tx_start_flow_index
             else op_bind (if last_chunk_pad \<noteq> 0
                           then op_bind (pad_last_chunk keccak (take last_chunk_pad pad_data) tx_start_flow_index) (\<lambda>_.
                                  reset_last_chunk keccak)
                           else op_lift (Ok ())) (\<lambda>_.
                  op_bind (pad_chunks keccak pad_data tx_start_flow_index (last_chunk_pad div CHUNK_SIZE)) (\<lambda>stop.
                    op_lift (assert_that (length pad_data = stop * CHUNK_SIZE) ''pad_data.len()'')))))"

definition record_batch_root :: "h256 \<Rightarrow> nat \<Rightarrow> (log_manager, unit) op" where
  "record_batch_root root len =
     op_bind (op_read (\<lambda>lm. amt_leaves (pora_chunks_merkle lm))) (\<lambda>p.
       if p = 0 then op_lift (Panic ''attempt to subtract with overflow'')
       else on_flow (\<lambda>fs. (put_batch_root fs (p - 1) root len, Ok ())))"

definition lm_append_subtree :: "(byte list \<Rightarrow> h256) \<Rightarrow> nat \<times> h256 \<Rightarrow> (log_manager, unit) op" where
  "lm_append_subtree keccak node =
     (let A = sha3_algo keccak; (subtree_depth, subtree_root) = node
      in op_bind (op_lift (num_entries_of_node subtree_depth)) (\<lambda>subtree_size.
         op_bind (op_read (\<lambda>lm. amt_leaves (last_chunk_merkle lm))) (\<lambda>l.
           if l = 0 \<and> subtree_size = PORA_CHUNK_SIZE
           then op_bind (on_pora (\<lambda>t. append_subtree A t 1 subtree_root)) (\<lambda>_. record_batch_root subtree_root 1)
           else if l + subtree_size \<le> PORA_CHUNK_SIZE
           then op_bind (on_last (\<lambda>t. append_subtree A t subtree_depth subtree_root)) (\<lambda>_.
                op_bind (op_read (\<lambda>lm. amt_leaves (last_chunk_merkle lm))) (\<lambda>l.
                op_bind (op_read (\<lambda>lm. amt_root (last_chunk_merkle lm))) (\<lambda>root.
                op_bind (if l = subtree_size then on_pora (\<lambda>t. append_subtree A t 1 root)
                         else on_pora (\<lambda>t. update_last A t root)) (\<lambda>_.
                  if l = PORA_CHUNK_SIZE
                  then op_bind (record_batch_root root 1) (\<lambda>_. reset_last_chunk keccak)
                  else op_lift (Ok ())))))
           else op_bind (op_lift (assert_that (l = 0) ''last_chunk_merkle.leaves() == 0'')) (\<lambda>_.
                op_bind (op_lift (assert_that (PORA_CHUNK_SIZE \<le> subtree_size) ''subtree_size >= PORA_CHUNK_SIZE'')) (\<lambda>_.
                op_bind (on_pora (\<lambda>t. append_subtree A t (subtree_depth - log2_pow2 PORA_CHUNK_SIZE) subtree_root)) (\<lambda>_.
                  record_batch_root subtree_root (subtree_size div PORA_CHUNK_SIZE)))))))"

definition lm_append_subtree_list :: "(byte list \<Rightarrow> h256) \<Rightarrow> (nat \<times> h256) list \<Rightarrow> (log_manager, unit) op" where
  "lm_append_subtree_list keccak merkle_list =
     (case merkle_list of
        [] \<Rightarrow> op_lift (Ok ())
      | (depth, _) # _ \<Rightarrow>
          op_bind (op_lift (num_entries_of_node depth)) (\<lambda>first_size.
          op_bind (pad_tx keccak first_size) (\<lambda>_.
            op_for (lm_append_subtree keccak) merkle_list)))"

definition lm_commit :: "nat \<Rightarrow> (log_manager, unit) op" where
  "lm_commit seq =
     op_bind (on_pora (\<lambda>t. commit t (Some seq))) (\<lambda>_. on_last (\<lambda>t. commit t (Some seq)))"

subsection \<open>Transactions\<close>

definition on_tx_store :: "(tx_store \<Rightarrow> tx_store) \<Rightarrow> (log_manager, unit) op" where
  "on_tx_store f = op_modify (\<lambda>lm. lm\<lparr>lm_tx_store := f (lm_tx_store lm)\<rparr>)"

text \<open>The targets of a copy: the transactions not completed yet, with their distance.\<close>

fun copy_targets :: "tx_store \<Rightarrow> transaction \<Rightarrow> nat list \<Rightarrow> (nat \<times> nat) list res" where
  "copy_targets ts old_tx [] = Ok []"
| "copy_targets ts old_tx (seq # seqs) =
     (if store_check_tx_completed ts seq then copy_targets ts old_tx seqs
      else case get_tx_by_seq_number ts seq of
             None \<Rightarrow> Err ''to tx missing''
           | Some tx \<Rightarrow>
               if start_entry_index tx < start_entry_index old_tx then Panic ''attempt to subtract with overflow''
               else rbind (copy_targets ts old_tx seqs) (\<lambda>rest.
                      Ok ((tx_seq tx, start_entry_index tx - start_entry_index old_tx) # rest)))"

definition copy_batch :: "(byte list \<Rightarrow> h256) \<Rightarrow> nat list \<Rightarrow> nat \<times> nat \<Rightarrow> (log_manager, unit) op" where
  "copy_batch keccak offsets piece =
     op_bind (op_read (\<lambda>lm. get_chunk_by_flow_index keccak lm (fst piece) (snd piece - fst piece))) (\<lambda>c.
     case c of
       None \<Rightarrow> op_lift (Err ''tx data missing'')
     | Some batch_data \<Rightarrow>
         op_for (\<lambda>offset. lm_append_entries keccak (batch_data\<lparr>ca_start := ca_start batch_data + offset\<rparr>)) offsets)"

definition copy_tx_data :: "(byte list \<Rightarrow> h256) \<Rightarrow> nat \<Rightarrow> nat list \<Rightarrow> (log_manager, unit) op" where
  "copy_tx_data keccak from_tx_seq to_tx_seq_list lm =
     (case get_tx_by_seq_number (lm_tx_store lm) from_tx_seq of
        None \<Rightarrow> (lm, Err ''from tx missing'')
      | Some old_tx \<Rightarrow>
          op_bind (op_lift (copy_targets (lm_tx_store lm) old_tx to_tx_seq_list)) (\<lambda>targets.
            if targets = [] then op_lift (Ok ())
            else op_bind (op_lift (num_entries old_tx)) (\<lambda>n.
                 op_bind (op_lift (batch_iter (start_entry_index old_tx) (start_entry_index old_tx + n) PORA_CHUNK_SIZE)) (\<lambda>pieces.
                 op_bind (op_for (copy_batch keccak (map snd targets)) pieces) (\<lambda>_.
                   op_for (\<lambda>(seq, _). on_tx_store (\<lambda>ts. store_finalize_tx ts seq)) targets)))) lm)"

definition put_tx :: "(byte list \<Rightarrow> h256) \<Rightarrow> transaction \<Rightarrow> (log_manager, unit) op" where
  "put_tx keccak tx =
     op_bind (lm_append_subtree_list keccak (merkle_nodes tx)) (\<lambda>_.
     op_bind (lm_commit (tx_seq tx)) (\<lambda>_.
     op_bind (op_update (\<lambda>lm. rbind (store_put_tx keccak (lm_tx_store lm) tx) (\<lambda>(ts, old).
                Ok (lm\<lparr>lm_tx_store := ts\<rparr>, old)))) (\<lambda>old_tx_seq_list.
       case old_tx_seq_list of
         [] \<Rightarrow> op_lift (Ok ())
       | old_tx_seq # _ \<Rightarrow>
           op_bind (op_read (\<lambda>lm. Ok (lm_check_tx_completed lm old_tx_seq))) (\<lambda>completed.
             if completed
             then op_bind (copy_tx_data keccak old_tx_seq [tx_seq tx]) (\<lambda>_.
                    on_tx_store (\<lambda>ts. store_finalize_tx ts (tx_seq tx)))
             else op_lift (Ok ())))))"

text \<open>The padding after the file, segment by segment; each one goes through \<open>put_chunks_with_tx_hash\<close>.\<close>

definition rear_padding_size :: "nat \<Rightarrow> nat \<Rightarrow> nat \<Rightarrow> nat \<Rightarrow> nat res" where
  "rear_padding_size segments_for_proof last_for_proof segments_for_file last_for_file =
     (let limit = (if segments_for_file = segments_for_proof then last_for_proof else PORA_CHUNK_SIZE)
      in if limit < last_for_file then Panic ''attempt to subtract with overflow''
         else Ok ((limit - last_for_file) * CHUNK_SIZE))"

function rear_loop ::
  "(byte list \<Rightarrow> h256) \<Rightarrow> (transaction \<Rightarrow> byte list) \<Rightarrow> transaction \<Rightarrow> nat \<Rightarrow> nat \<Rightarrow> nat \<Rightarrow> nat \<Rightarrow> nat \<Rightarrow>
   (log_manager, unit) op" where
  "rear_loop keccak ssz tx seq segments_for_proof last_for_proof segments_for_file last_for_file =
     (if segments_for_file \<le> segments_for_proof
      then op_bind (op_lift (rear_padding_size segments_for_proof last_for_proof segments_for_file last_for_file)) (\<lambda>padding_size.
           op_bind (if 0 < padding_size
                    then if segments_for_file = 0 then op_lift (Panic ''attempt to subtract with overflow'')
                         else op_bind (put_chunks_with_tx_hash keccak ssz seq (tx_hash keccak ssz tx)
                                \<lparr>ca_data = replicate padding_size 0,
                                 ca_start = (segments_for_file - 1) * PORA_CHUNK_SIZE + last_for_file\<rparr>) (\<lambda>_. op_lift (Ok ()))
                    else op_lift (Ok ())) (\<lambda>_.
             rear_loop keccak ssz tx seq segments_for_proof last_for_proof (segments_for_file + 1) 0))
      else op_lift (Ok ()))"
  by pat_completeness auto
termination
  by (relation "measure (\<lambda>(k, z, tx, s, p, l, f, m). p + 1 - f)") auto

declare rear_loop.simps [simp del]

definition padding_rear_data ::
  "(byte list \<Rightarrow> h256) \<Rightarrow> (transaction \<Rightarrow> byte list) \<Rightarrow> transaction \<Rightarrow> nat \<Rightarrow> (log_manager, unit) op" where
  "padding_rear_data keccak ssz tx seq =
     op_bind (op_lift (compute_padded_chunk_size (tx_size tx))) (\<lambda>(padded, _).
     op_bind (op_lift (compute_segment_size padded PORA_CHUNK_SIZE)) (\<lambda>(segments_for_proof, last_for_proof).
     op_bind (op_lift (compute_segment_size (bytes_to_entries (tx_size tx)) PORA_CHUNK_SIZE)) (\<lambda>(segments_for_file, last_for_file).
       rear_loop keccak ssz tx seq segments_for_proof last_for_proof segments_for_file last_for_file)))"

definition finalize_tx ::
  "(byte list \<Rightarrow> h256) \<Rightarrow> (transaction \<Rightarrow> byte list) \<Rightarrow> nat \<Rightarrow> (log_manager, unit) op" where
  "finalize_tx keccak ssz seq lm =
     (case get_tx_by_seq_number (lm_tx_store lm) seq of
        None \<Rightarrow> (lm, Err ''finalize_tx with tx missing'')
      | Some tx \<Rightarrow>
          op_bind (padding_rear_data keccak ssz tx seq) (\<lambda>_.
          op_bind (op_read (\<lambda>lm. get_entries keccak (lm_flow_store lm) (start_entry_index tx)
                                   (start_entry_index tx + bytes_to_entries (tx_size tx)))) (\<lambda>data.
            if data \<noteq> None
            then op_bind (on_tx_store (\<lambda>ts. store_finalize_tx ts seq)) (\<lambda>_.
                 op_bind (op_read (\<lambda>lm. Ok (get_tx_seq_list_by_data_root (lm_tx_store lm) (data_merkle_root tx)))) (\<lambda>same_root_seq_list.
                   case same_root_seq_list of
                     [] \<Rightarrow> op_lift (Ok ())
                   | first # rest \<Rightarrow> if first = seq then copy_tx_data keccak seq rest else op_lift (Ok ())))
            else op_lift (Err ''finalize tx with data missing''))) lm)"

definition finalize_tx_with_hash ::
  "(byte list \<Rightarrow> h256) \<Rightarrow> (transaction \<Rightarrow> byte list) \<Rightarrow> nat \<Rightarrow> h256 \<Rightarrow> (log_manager, bool) op" where
  "finalize_tx_with_hash keccak ssz seq hash lm =
     (case get_tx_by_seq_number (lm_tx_store lm) seq of
        None \<Rightarrow> (lm, Err ''finalize_tx with tx missing'')
      | Some tx \<Rightarrow>
          if tx_hash keccak ssz tx \<noteq> hash then (lm, Ok False)
          else op_bind (padding_rear_data keccak ssz tx seq) (\<lambda>_.
               op_bind (op_read (\<lambda>lm. get_entries keccak (lm_flow_store lm) (start_entry_index tx)
                                        (start_entry_index tx + bytes_to_entries (tx_size tx)))) (\<lambda>data.
                 if data \<noteq> None
                 then op_bind (on_tx_store (\<lambda>ts. store_finalize_tx ts seq)) (\<lambda>_. op_lift (Ok True))
                 else op_lift (Err ''finalize tx with data missing''))) lm)"

definition put_sync_progress :: "nat \<times> h256 \<Rightarrow> (log_manager, unit) op" where
  "put_sync_progress progress = on_tx_store (\<lambda>ts. put_progress ts progress)"

definition get_sync_progress :: "log_manager \<Rightarrow> (nat \<times> h256) option" where
  "get_sync_progress lm = get_progress (lm_tx_store lm)"

definition next_tx_seq :: "log_manager \<Rightarrow> nat" where
  "next_tx_seq lm = store_next_tx_seq (lm_tx_store lm)"

subsection \<open>Starting and reverting\<close>

fun fill_available :: "(byte list \<Rightarrow> h256) \<Rightarrow> nat \<Rightarrow> chunk_array list \<Rightarrow> (log_manager, unit) op" where
  "fill_available keccak last_start [] = op_lift (Ok ())"
| "fill_available keccak last_start (e # es) =
     (if ca_start e < last_start then op_lift (Panic ''attempt to subtract with overflow'')
      else op_bind (fill_last_leaves keccak (ca_start e - last_start) (chunks_exact CHUNK_SIZE (ca_data e))) (\<lambda>_.
             fill_available keccak last_start es))"

definition try_initialize :: "(byte list \<Rightarrow> h256) \<Rightarrow> (log_manager, unit) op" where
  "try_initialize keccak =
     op_bind (op_read (\<lambda>lm. amt_leaves (pora_chunks_merkle lm))) (\<lambda>p.
     op_bind (op_read (\<lambda>lm. amt_leaves (last_chunk_merkle lm))) (\<lambda>l.
       if p = 0 \<and> l = 0
       then op_bind (on_last (\<lambda>t. append_leaf (sha3_algo keccak) t h256_zero)) (\<lambda>_. pora_update_last keccak)
       else if l \<noteq> 0
       then op_bind (op_read last_chunk_start_index) (\<lambda>last_start.
            op_bind (op_read (\<lambda>lm. get_available_entries keccak (lm_flow_store lm) last_start (last_start + PORA_CHUNK_SIZE))) (\<lambda>last_chunk_data.
              fill_available keccak last_start last_chunk_data))
       else op_lift (Ok ())))"

definition new_log_manager :: "(byte list \<Rightarrow> h256) \<Rightarrow> tx_store \<Rightarrow> flow_db \<Rightarrow> nat \<Rightarrow> log_manager res" where
  "new_log_manager keccak ts db config_batch_size =
     (let A = sha3_algo keccak;
          fs = new_flow_store db config_batch_size;
          next_seq = store_next_tx_seq ts;
          start_tx_seq = (if 0 < next_seq then Some (next_seq - 1) else None)
      in rbind (new_with_subtrees A (get_chunk_root_list fs) (log2_pow2 PORA_CHUNK_SIZE) start_tx_seq) (\<lambda>pora.
         rbind (case start_tx_seq of
                  Some seq \<Rightarrow> rbind (amt_leaves pora) (\<lambda>n. rebuild_last_chunk_merkle keccak ts n seq)
                | None \<Rightarrow> new_last_chunk keccak) (\<lambda>last.
         rbind (amt_leaves last) (\<lambda>l.
         rbind (if l \<noteq> 0 then rbind (amt_root last) (append_leaf A pora) else Ok pora) (\<lambda>pora.
           case try_initialize keccak \<lparr>lm_tx_store = ts, lm_flow_store = fs, pora_chunks_merkle = pora, last_chunk_merkle = last\<rparr> of
             (lm, r) \<Rightarrow> rbind r (\<lambda>_. Ok lm))))))"

definition revert_merkle_tree :: "(byte list \<Rightarrow> h256) \<Rightarrow> nat \<Rightarrow> (log_manager, unit) op" where
  "revert_merkle_tree keccak seq =
     (if seq = 2 ^ 64 - 1
      then op_bind (op_modify (\<lambda>lm. lm\<lparr>pora_chunks_merkle := reset (pora_chunks_merkle lm),
                                      last_chunk_merkle := reset (last_chunk_merkle lm)\<rparr>)) (\<lambda>_. try_initialize keccak)
      else
        op_bind (op_read (\<lambda>lm. amt_leaves (pora_chunks_merkle lm))) (\<lambda>old_leaves.
        op_bind (on_pora (\<lambda>t. revert_to t seq)) (\<lambda>_.
        op_bind (op_read (\<lambda>lm. amt_leaves (pora_chunks_merkle lm))) (\<lambda>p.
          if old_leaves = p then on_last (\<lambda>t. revert_to t seq)
          else if p = 0 then op_lift (Panic ''attempt to subtract with overflow'')
          else
            op_bind (op_update (\<lambda>lm. rbind (rebuild_last_chunk_merkle keccak (lm_tx_store lm) (p - 1) seq) (\<lambda>t.
                       Ok (lm\<lparr>last_chunk_merkle := t\<rparr>, ())))) (\<lambda>_.
            op_bind (try_initialize keccak) (\<lambda>_.
            op_bind (op_read (\<lambda>lm. amt_root (last_chunk_merkle lm))) (\<lambda>root.
            op_bind (op_read (\<lambda>lm. rbind (amt_leaves (pora_chunks_merkle lm)) (\<lambda>p. leaf_at (sha3_algo keccak) (pora_chunks_merkle lm) (p - 1)))) (\<lambda>leaf.
              op_lift (assert_that (leaf = Some root) ''last_chunk_merkle.root()'')))))))))"

text \<open>The loop of \<open>revert_to\<close>: it stops at the first transaction that is missing.\<close>

fun remove_txs :: "nat list \<Rightarrow> tx_store \<Rightarrow> tx_store \<times> transaction list" where
  "remove_txs [] ts = (ts, [])"
| "remove_txs (seq # seqs) ts =
     (case remove_tx_by_seq_number ts seq of
        (ts, None) \<Rightarrow> (ts, [])
      | (ts, Some tx) \<Rightarrow> (case remove_txs seqs ts of (ts, txs) \<Rightarrow> (ts, tx # txs)))"

definition lm_revert_to :: "(byte list \<Rightarrow> h256) \<Rightarrow> nat \<Rightarrow> (log_manager, transaction list) op" where
  "lm_revert_to keccak seq =
     op_bind (revert_merkle_tree keccak seq) (\<lambda>_.
     op_bind (op_read last_chunk_start_index) (\<lambda>s.
     op_bind (op_read (\<lambda>lm. amt_leaves (last_chunk_merkle lm))) (\<lambda>l.
     op_bind (on_flow (truncate_flow keccak (s * PORA_CHUNK_SIZE + l))) (\<lambda>_ lm.
       case remove_txs [(seq + 1) mod 2 ^ 64..<next_tx_seq lm] (lm_tx_store lm) of
         (ts, transactions) \<Rightarrow> (lm\<lparr>lm_tx_store := ts\<rparr>, Ok transactions)))))"

subsection \<open>Splitting a file into subtrees\<close>

text \<open>The loop of \<open>split_nodes\<close>; \<open>None\<close> stands for a loop that does not end.\<close>

partial_function (option) split_loop :: "nat \<Rightarrow> nat \<Rightarrow> nat list option" where
  "split_loop padded_chunks next_chunk_size =
     (if 0 < padded_chunks
      then if next_chunk_size \<le> padded_chunks
           then Option.bind (split_loop (padded_chunks - next_chunk_size) (next_chunk_size div 2)) (\<lambda>nodes.
                  Some (next_chunk_size # nodes))
           else split_loop padded_chunks (next_chunk_size div 2)
      else Some [])"

declare split_loop.simps [code]

definition split_nodes :: "nat \<Rightarrow> nat list option res" where
  "split_nodes data_size =
     rbind (compute_padded_chunk_size data_size) (\<lambda>(padded_chunks, chunks_next_pow2).
       Ok (split_loop padded_chunks chunks_next_pow2))"

definition subtree_data :: "byte list \<Rightarrow> nat \<Rightarrow> nat \<Rightarrow> byte list" where
  "subtree_data data start_index tree_size =
     (let end_ix = start_index + tree_size * CHUNK_SIZE
      in if length data \<le> start_index then replicate (tree_size * CHUNK_SIZE) 0
         else if length data < end_ix then drop start_index data @ replicate (end_ix - length data) 0
         else slice data start_index end_ix)"

fun subtree_roots :: "(byte list \<Rightarrow> h256) \<Rightarrow> byte list \<Rightarrow> nat \<Rightarrow> nat list \<Rightarrow> (nat \<times> h256) list res" where
  "subtree_roots keccak data start_index [] = Ok []"
| "subtree_roots keccak data start_index (tree_size # nodes) =
     (let end_ix = start_index + tree_size * CHUNK_SIZE
      in rbind (sub_merkle_tree keccak (subtree_data data start_index tree_size)) (\<lambda>t.
         rbind (light_tree_root t) (\<lambda>root.
         rbind (subtree_roots keccak data (start_index + end_ix) nodes) (\<lambda>rest.
           Ok ((log2_pow2 tree_size + 1, root) # rest)))))"

definition tx_subtree_root_list_padded :: "(byte list \<Rightarrow> h256) \<Rightarrow> byte list \<Rightarrow> (nat \<times> h256) list option res" where
  "tx_subtree_root_list_padded keccak data =
     rbind (split_nodes (length data)) (\<lambda>nodes.
     case nodes of
       None \<Rightarrow> Ok None
     | Some ns \<Rightarrow> rbind (subtree_roots keccak data 0 ns) (\<lambda>l. Ok (Some l)))"

end
