(* ===== verification/Log_Manager_Correct.thy ===== *)
theory Log_Manager_Correct
  imports Log_Manager Flow_Store_Correct Shared_Types_Correct
begin

text \<open>
  The properties of the transaction store and the log manager: the split of a file into subtrees, the
  index of the transaction store, the range check of \<open>put_chunks\<close>, and data put for a transaction read
  back through the whole stack.
\<close>

subsection \<open>Splitting a file into subtrees\<close>

lemma split_loop_0 [simp]: "split_loop 0 m = Some []"
  by (subst split_loop.simps) simp

lemma split_loop_pow2:
  "p < 2 ^ Suc k \<Longrightarrow> \<exists>ns. split_loop p (2 ^ k) = Some ns \<and> sum_list ns = p \<and> sorted_wrt (>) ns \<and>
     (\<forall>n \<in> set ns. \<exists>j \<le> k. n = 2 ^ j)"
proof (induction k arbitrary: p)
  case 0
  then have "p = 0 \<or> p = 1" by auto
  then show ?case
  proof
    assume p: "p = 1"
    have "split_loop 1 1 = Some [1]" by (subst split_loop.simps) simp
    then show ?thesis using p by simp
  qed simp
next
  case (Suc k)
  have half: "(2::nat) ^ Suc k div 2 = 2 ^ k" by simp
  show ?case
  proof (cases "2 ^ Suc k \<le> p")
    case True
    then have "p - 2 ^ Suc k < 2 ^ Suc k" using Suc.prems by simp
    from Suc.IH [OF this] obtain ns where ns: "split_loop (p - 2 ^ Suc k) (2 ^ k) = Some ns"
      "sum_list ns = p - 2 ^ Suc k" "sorted_wrt (>) ns" "\<forall>n \<in> set ns. \<exists>j \<le> k. n = 2 ^ j" by blast
    have "0 < p" using True by (rule less_le_trans [rotated]) simp
    then have "split_loop p (2 ^ Suc k) = Some (2 ^ Suc k # ns)" using True ns(1) half by (subst split_loop.simps) simp
    moreover have "n < 2 ^ Suc k" if n: "n \<in> set ns" for n
    proof -
      obtain j where "j \<le> k" "n = 2 ^ j" using ns(4) n by blast
      then show ?thesis by (simp add: power_strict_increasing_iff less_Suc_eq_le del: power_Suc)
    qed
    ultimately show ?thesis using ns True
      by (intro exI [of _ "2 ^ Suc k # ns"]) (auto simp del: power_Suc intro: le_SucI)
  next
    case False
    from Suc.IH [of p] False obtain ns where ns: "split_loop p (2 ^ k) = Some ns" "sum_list ns = p" "sorted_wrt (>) ns"
      "\<forall>n \<in> set ns. \<exists>j \<le> k. n = 2 ^ j" by (meson not_le)
    have "split_loop p (2 ^ Suc k) = Some ns"
    proof (cases "p = 0")
      case True
      then show ?thesis using ns(1) by simp
    next
      case p: False
      then show ?thesis using False ns(1) half by (subst split_loop.simps) simp
    qed
    then show ?thesis using ns by (auto intro: le_SucI)
  qed
qed

text \<open>
  C32. The loop that splits a file into subtrees ends for every file: it returns distinct powers of
  two, from the largest to the smallest, that add up to the padded number of chunks.
\<close>

theorem split_nodes_terminates:
  assumes "0 < data_size" and "bytes_to_chunks data_size \<le> 2 ^ 63"
  shows "\<exists>padded q ns. compute_padded_chunk_size data_size = Ok (padded, q) \<and> split_nodes data_size = Ok (Some ns) \<and>
           sum_list ns = padded \<and> sorted_wrt (>) ns \<and> (\<forall>n \<in> set ns. \<exists>j. n = 2 ^ j)"
proof -
  obtain padded k where pk: "compute_padded_chunk_size data_size = Ok (padded, 2 ^ k)" "padded \<le> 2 ^ k"
    using padded_size_bounds [OF assms] by blast
  have "padded < 2 ^ Suc k" using pk(2) by (rule le_less_trans) simp
  from split_loop_pow2 [OF this] pk(1) show ?thesis by (fastforce simp: split_nodes_def)
qed

theorem split_nodes_terminates_witness:
  "\<exists>padded q ns. compute_padded_chunk_size 1792 = Ok (padded, q) \<and> split_nodes 1792 = Ok (Some ns) \<and>
           sum_list ns = padded \<and> sorted_wrt (>) ns \<and> (\<forall>n \<in> set ns. \<exists>j. n = 2 ^ j)"
  by (rule split_nodes_terminates) (simp_all add: bytes_to_chunks_def)

definition data_root_of :: "(byte list \<Rightarrow> h256) \<Rightarrow> byte list \<Rightarrow> h256 \<Rightarrow> bool" where
  "data_root_of keccak d r \<longleftrightarrow> (\<exists>t. sub_merkle_tree keccak d = Ok t \<and> light_tree_root t = Ok r)"

lemma length_subtree_data: "length (subtree_data data s n) = n * 256"
  by (simp add: subtree_data_def Let_def CHUNK_SIZE_def)

lemma subtree_data_root:
  assumes "hash_ok keccak" and "n = 2 ^ j" and "j \<le> 63"
  obtains t r where "sub_merkle_tree keccak (subtree_data data s n) = Ok t" "light_tree_root t = Ok r"
  using sub_merkle_tree_root [OF assms(1) length_subtree_data [of data s n, unfolded assms(2)] assms(3)] assms(2) by metis

text \<open>The offsets at which the subtrees are cut: each one adds the previous offset once more.\<close>

fun cut_offsets :: "nat \<Rightarrow> nat list \<Rightarrow> nat list" where
  "cut_offsets s [] = []"
| "cut_offsets s (n # ns) = s # cut_offsets (s + (s + n * 256)) ns"

lemma length_cut_offsets [simp]: "length (cut_offsets s ns) = length ns"
  by (induction ns arbitrary: s) simp_all

lemma cut_offsets_ge: "x \<in> set (cut_offsets s ns) \<Longrightarrow> s \<le> x"
  by (induction ns arbitrary: s) (auto, force)

lemma subtree_roots_offsets:
  assumes "hash_ok keccak"
  shows "\<forall>n \<in> set ns. \<exists>j \<le> 63. n = 2 ^ j \<Longrightarrow>
    \<exists>roots. subtree_roots keccak data s ns = Ok roots \<and> length roots = length ns \<and>
      (\<forall>i < length ns. data_root_of keccak (subtree_data data (cut_offsets s ns ! i) (ns ! i)) (snd (roots ! i)))"
proof (induction ns arbitrary: s)
  case (Cons n ns)
  obtain j where j: "n = 2 ^ j" "j \<le> 63" using Cons.prems by auto
  obtain t r where t: "sub_merkle_tree keccak (subtree_data data s n) = Ok t" "light_tree_root t = Ok r"
    by (rule subtree_data_root [OF assms j])
  have "\<forall>n \<in> set ns. \<exists>j \<le> 63. n = 2 ^ j" using Cons.prems by simp
  from Cons.IH [OF this] obtain roots where
    roots: "subtree_roots keccak data (s + (s + n * 256)) ns = Ok roots" "length roots = length ns"
    "\<forall>i < length ns. data_root_of keccak (subtree_data data (cut_offsets (s + (s + n * 256)) ns ! i) (ns ! i)) (snd (roots ! i))"
    by blast
  have "data_root_of keccak (subtree_data data s n) r" using t by (auto simp: data_root_of_def)
  then show ?case using t roots
    by (intro exI [of _ "(log2_pow2 n + 1, r) # roots"]) (auto simp: CHUNK_SIZE_def nth_Cons split: nat.split)
qed simp

lemma sum_pow2_less:
  "sorted_wrt (>) (n # ns) \<Longrightarrow> \<forall>m \<in> set (n # ns). \<exists>j. m = (2::nat) ^ j \<Longrightarrow> sum_list ns < n"
proof (induction ns arbitrary: n)
  case (Cons m ms)
  obtain i j where ij: "n = 2 ^ i" "m = 2 ^ j" using Cons.prems(2) by auto
  have "j < i" using Cons.prems(1) ij power_less_imp_less_exp [of "2::nat" j i] by simp
  then have "2 * m \<le> n" using ij power_increasing [of "Suc j" i "2::nat"] by simp
  moreover have "sum_list ms < m" using Cons by simp
  ultimately show ?case by simp
qed auto

text \<open>
  C34. The roots computed for a file: the first two subtrees are the roots of their part of the file,
  but from the third on every root is the root of an all-zero subtree, whatever the file holds there.
\<close>

theorem tx_subtree_root_list_zero_tail:
  assumes "hash_ok keccak" and "data \<noteq> []" and "bytes_to_chunks (length data) \<le> 2 ^ 63"
  shows "\<exists>ns roots. split_nodes (length data) = Ok (Some ns) \<and> tx_subtree_root_list_padded keccak data = Ok (Some roots) \<and>
     length roots = length ns \<and>
     (\<forall>i < length ns. data_root_of keccak
        (if i < 2 then subtree_data data (sum_list (take i ns) * 256) (ns ! i) else replicate (ns ! i * 256) 0) (snd (roots ! i)))"
proof -
  obtain padded k where pk: "compute_padded_chunk_size (length data) = Ok (padded, 2 ^ k)" "padded \<le> 2 ^ k"
    "bytes_to_chunks (length data) \<le> padded" "2 ^ k < 2 * bytes_to_chunks (length data)"
    using padded_size_bounds [OF _ assms(3)] assms(2) by auto
  have "padded < 2 ^ Suc k" using pk(2) by (rule le_less_trans) simp
  then obtain ns where ns: "split_loop padded (2 ^ k) = Some ns" "sum_list ns = padded" "sorted_wrt (>) ns"
    "\<forall>n \<in> set ns. \<exists>j \<le> k. n = 2 ^ j"
    using split_loop_pow2 by blast
  have "(2::nat) ^ k < 2 ^ 64" using pk(4) assms(3) by simp
  then have "k < 64" by (rule power_less_imp_less_exp [rotated]) simp
  then have "\<forall>n \<in> set ns. \<exists>j \<le> 63. n = 2 ^ j" using ns(4) by fastforce
  from subtree_roots_offsets [OF assms(1) this] obtain roots where
    roots: "subtree_roots keccak data 0 ns = Ok roots" "length roots = length ns"
    "\<forall>i < length ns. data_root_of keccak (subtree_data data (cut_offsets 0 ns ! i) (ns ! i)) (snd (roots ! i))" by blast
  have "subtree_data data (cut_offsets 0 ns ! i) (ns ! i) =
      (if i < 2 then subtree_data data (sum_list (take i ns) * 256) (ns ! i) else replicate (ns ! i * 256) 0)" if i: "i < length ns" for i
  proof (cases ns)
    case (Cons a as)
    show ?thesis
    proof (cases as)
      case (Cons b bs)
      note ns_eq = \<open>ns = a # as\<close> [unfolded Cons]
      consider "i = 0" | "i = 1" | j where "i = Suc (Suc j)" by (metis One_nat_def not0_implies_Suc)
      then show ?thesis
      proof cases
        case (3 j)
        have "sum_list as < a" using sum_pow2_less [of a as] ns(3,4) \<open>ns = a # as\<close> by auto
        then have "padded < 2 * a" using ns(2) \<open>ns = a # as\<close> by simp
        moreover have "length data \<le> padded * 256" using pk(3) by (auto simp: bytes_to_chunks_def split: if_splits)
        moreover have "cut_offsets 0 ns ! i \<in> set (cut_offsets (2 * (a * 256) + b * 256) bs)"
          using 3 i ns_eq by (simp add: mult_2 add.assoc)
        then have "2 * (a * 256) + b * 256 \<le> cut_offsets 0 ns ! i" by (rule cut_offsets_ge)
        ultimately have "length data \<le> cut_offsets 0 ns ! i" by linarith
        then show ?thesis using 3 by (simp add: subtree_data_def CHUNK_SIZE_def)
      qed (use ns_eq in simp_all)
    qed (use Cons i in simp)
  qed (use i in simp)
  then show ?thesis using roots pk(1) ns(1)
    by (intro exI [of _ ns] exI [of _ roots]) (simp add: tx_subtree_root_list_padded_def split_nodes_def)
qed

theorem tx_subtree_root_list_zero_tail_witness:
  "\<exists>ns roots. split_nodes (length (replicate 1792 (1::byte))) = Ok (Some ns) \<and>
     tx_subtree_root_list_padded (\<lambda>_. [7]) (replicate 1792 1) = Ok (Some roots) \<and> length roots = length ns \<and>
     (\<forall>i < length ns. data_root_of (\<lambda>_. [7])
        (if i < 2 then subtree_data (replicate 1792 1) (sum_list (take i ns) * 256) (ns ! i) else replicate (ns ! i * 256) 0) (snd (roots ! i)))"
  by (rule tx_subtree_root_list_zero_tail [OF const_hash_ok]) (simp_all add: bytes_to_chunks_def)

subsection \<open>The transaction store\<close>

text \<open>
  The store is well-formed: the sequence numbers are those below the next one, every transaction is
  stored under its number and listed under its data root, every list of the index is non-empty and
  increasing and lists transactions of that root, and only known transactions are completed.
\<close>

definition tx_store_ok :: "tx_store \<Rightarrow> bool" where
  "tx_store_ok ts \<longleftrightarrow>
     (\<forall>seq. get_tx_by_seq_number ts seq \<noteq> None \<longleftrightarrow> seq < store_next_tx_seq ts) \<and>
     (\<forall>seq tx. get_tx_by_seq_number ts seq = Some tx \<longrightarrow>
        tx_seq tx = seq \<and> seq \<in> set (get_tx_seq_list_by_data_root ts (data_merkle_root tx))) \<and>
     (\<forall>root l. hm_get (col_tx_data_root_index ts) root = Some l \<longrightarrow> l \<noteq> []) \<and>
     (\<forall>root. sorted_wrt (<) (get_tx_seq_list_by_data_root ts root)) \<and>
     (\<forall>root. \<forall>seq \<in> set (get_tx_seq_list_by_data_root ts root).
        \<exists>tx. get_tx_by_seq_number ts seq = Some tx \<and> data_merkle_root tx = root) \<and>
     (\<forall>seq. store_check_tx_completed ts seq \<longrightarrow> get_tx_by_seq_number ts seq \<noteq> None)"

definition empty_tx_store :: tx_store where
  "empty_tx_store = \<lparr>col_tx = [], col_tx_data_root_index = [], col_tx_completed = [], col_misc = None\<rparr>"

lemma empty_tx_store_ok: "tx_store_ok empty_tx_store" "store_next_tx_seq empty_tx_store = 0"
  by (simp_all add: tx_store_ok_def empty_tx_store_def get_tx_by_seq_number_def get_tx_seq_list_by_data_root_def
      store_next_tx_seq_def store_check_tx_completed_def last_key_def btree_keys_def)

lemma tx_store_okD:
  assumes "tx_store_ok ts"
  shows "\<And>seq. get_tx_by_seq_number ts seq \<noteq> None \<longleftrightarrow> seq < store_next_tx_seq ts"
    "\<And>seq tx. get_tx_by_seq_number ts seq = Some tx \<Longrightarrow> tx_seq tx = seq"
    "\<And>seq tx. get_tx_by_seq_number ts seq = Some tx \<Longrightarrow> seq \<in> set (get_tx_seq_list_by_data_root ts (data_merkle_root tx))"
    "\<And>root. sorted_wrt (<) (get_tx_seq_list_by_data_root ts root)"
    "\<And>root seq. seq \<in> set (get_tx_seq_list_by_data_root ts root) \<Longrightarrow>
        \<exists>tx. get_tx_by_seq_number ts seq = Some tx \<and> data_merkle_root tx = root"
    "\<And>seq. store_check_tx_completed ts seq \<Longrightarrow> get_tx_by_seq_number ts seq \<noteq> None"
    "\<And>root l. hm_get (col_tx_data_root_index ts) root = Some l \<Longrightarrow> l \<noteq> []"
  using assms unfolding tx_store_ok_def by blast+

lemma last_key_eqI: "hm_get m k \<noteq> None \<Longrightarrow> (\<And>k'. hm_get m k' \<noteq> None \<Longrightarrow> k' \<le> k) \<Longrightarrow> last_key m = Some k"
proof -
  assume a: "hm_get m k \<noteq> None" "\<And>k'. hm_get m k' \<noteq> None \<Longrightarrow> k' \<le> k"
  then have "last_key m \<noteq> None" by (auto simp: last_key_None)
  then obtain e where e: "last_key m = Some e" by blast
  then obtain ks where "btree_keys m = rev ks @ [e]" by (auto simp: last_key_def split: list.splits)
  then have "e \<in> set (btree_keys m)" by (simp del: set_btree_keys)
  then have "hm_get m e \<noteq> None" by (auto simp: dom_def)
  then show ?thesis using a(2) [of e] last_key_max [OF e a(1)] e by simp
qed

lemma next_tx_seq_iff:
  assumes "\<And>seq. get_tx_by_seq_number ts seq \<noteq> None \<longleftrightarrow> seq < n"
  shows "store_next_tx_seq ts = n"
proof (cases n)
  case 0
  then have "last_key (col_tx ts) = None"
    using assms [of "fst (hd (col_tx ts))"] unfolding get_tx_by_seq_number_def last_key_None by (cases "col_tx ts") auto
  then show ?thesis using 0 by (simp add: store_next_tx_seq_def)
next
  case (Suc m)
  then have "last_key (col_tx ts) = Some m"
    using assms unfolding get_tx_by_seq_number_def by (intro last_key_eqI) (auto simp: less_Suc_eq_le)
  then show ?thesis using Suc by (simp add: store_next_tx_seq_def)
qed

lemma store_put_tx_ok:
  assumes ok: "tx_store_ok ts" and fill: "fill_data_root keccak tx = Ok tx'" and seq: "tx_seq tx' = store_next_tx_seq ts"
  defines "old \<equiv> get_tx_seq_list_by_data_root ts (data_merkle_root tx')"
  shows "\<exists>ts'. store_put_tx keccak ts tx = Ok (ts', old) \<and> tx_store_ok ts' \<and>
     (\<forall>s. get_tx_by_seq_number ts' s = (if s = tx_seq tx' then Some tx' else get_tx_by_seq_number ts s)) \<and>
     (\<forall>r. get_tx_seq_list_by_data_root ts' r = (if r = data_merkle_root tx' then old @ [tx_seq tx'] else get_tx_seq_list_by_data_root ts r))"
proof -
  note D = tx_store_okD [OF ok]
  let ?n = "store_next_tx_seq ts"
  define ts' where "ts' = ts\<lparr>col_tx := kv_write [Put ?n tx'] (col_tx ts),
      col_tx_data_root_index := kv_write [Put (data_merkle_root tx') (old @ [?n])] (col_tx_data_root_index ts)\<rparr>"
  have lt: "s < ?n" if "s \<in> set (get_tx_seq_list_by_data_root ts r)" for s r
  proof -
    have "get_tx_by_seq_number ts s \<noteq> None" using D(5) [OF that] by auto
    then show ?thesis using D(1) [of s] by simp
  qed
  have "last old < ?n" if "old \<noteq> []"
    using lt [of "last old" "data_merkle_root tx'"] last_in_set [OF that] unfolding old_def by blast
  then have "old = [] \<or> last old < ?n" by blast
  then have run: "store_put_tx keccak ts tx = Ok (ts', old)"
    using fill seq by (simp add: store_put_tx_def Let_def old_def [symmetric] ts'_def assert_that_def)
  have get: "get_tx_by_seq_number ts' s = (if s = ?n then Some tx' else get_tx_by_seq_number ts s)" for s
    by (simp add: ts'_def get_tx_by_seq_number_def)
  have lst: "get_tx_seq_list_by_data_root ts' r = (if r = data_merkle_root tx' then old @ [?n] else get_tx_seq_list_by_data_root ts r)" for r
    by (simp add: ts'_def get_tx_seq_list_by_data_root_def)
  have dom: "get_tx_by_seq_number ts' s \<noteq> None \<longleftrightarrow> s < Suc ?n" for s
    using D(1) [of s] unfolding get by (auto simp: less_Suc_eq)
  have nx: "store_next_tx_seq ts' = Suc ?n" by (rule next_tx_seq_iff) (rule dom)
  have "tx_store_ok ts'"
    unfolding tx_store_ok_def nx
  proof (intro conjI allI impI ballI)
    show "get_tx_by_seq_number ts' s \<noteq> None \<longleftrightarrow> s < Suc ?n" for s by (rule dom)
    show "tx_seq t = s" if "get_tx_by_seq_number ts' s = Some t" for s t
      using that D(2) [of s t] seq unfolding get by (auto split: if_splits)
    show "s \<in> set (get_tx_seq_list_by_data_root ts' (data_merkle_root t))" if "get_tx_by_seq_number ts' s = Some t" for s t
      using that D(3) [of s t] unfolding get lst old_def by (auto split: if_splits)
    show "l \<noteq> []" if "hm_get (col_tx_data_root_index ts') r = Some l" for r l
      using that D(7) [of r l] by (auto simp: ts'_def split: if_splits)
    show "sorted_wrt (<) (get_tx_seq_list_by_data_root ts' r)" for r
      using D(4) [of r] lt [of _ r] unfolding lst old_def by (auto simp: sorted_wrt_append)
    show "\<exists>t. get_tx_by_seq_number ts' s = Some t \<and> data_merkle_root t = r" if "s \<in> set (get_tx_seq_list_by_data_root ts' r)" for s r
    proof (cases "r = data_merkle_root tx' \<and> s = ?n")
      case True
      then show ?thesis by (simp add: get)
    next
      case False
      then have "s \<in> set (get_tx_seq_list_by_data_root ts r)" using that unfolding lst old_def by (auto split: if_splits)
      then show ?thesis using D(5) [of s r] lt [of s r] unfolding get by simp
    qed
    show "get_tx_by_seq_number ts' s \<noteq> None" if "store_check_tx_completed ts' s" for s
      using that D(6) [of s] unfolding get by (simp add: ts'_def store_check_tx_completed_def)
  qed
  then show ?thesis unfolding seq by (intro exI [of _ ts'] conjI allI) (simp_all only: run get lst)
qed

text \<open>The state between two removals of a revert to \<open>a\<close>: \<open>b\<close> is the next transaction to go.\<close>

definition removing :: "tx_store \<Rightarrow> nat \<Rightarrow> nat \<Rightarrow> tx_store \<Rightarrow> bool" where
  "removing ts a b st \<longleftrightarrow>
     (\<forall>s. get_tx_by_seq_number st s = (if a \<le> s \<and> s < b then None else get_tx_by_seq_number ts s)) \<and>
     (\<forall>s. store_check_tx_completed st s \<longleftrightarrow> store_check_tx_completed ts s \<and> \<not> (a \<le> s \<and> s < b)) \<and>
     (\<forall>r l. hm_get (col_tx_data_root_index st) r = Some l \<longrightarrow> l \<noteq> []) \<and>
     (\<forall>r. sorted_wrt (<) (get_tx_seq_list_by_data_root st r)) \<and>
     (\<forall>r. \<forall>s \<in> set (get_tx_seq_list_by_data_root st r). s \<in> set (get_tx_seq_list_by_data_root ts r) \<and> (s < a \<or> b \<le> s)) \<and>
     (\<forall>r. \<forall>s \<in> set (get_tx_seq_list_by_data_root ts r). s < a \<longrightarrow> s \<in> set (get_tx_seq_list_by_data_root st r))"

lemma removingD:
  assumes "removing ts a b st"
  shows "\<And>s. get_tx_by_seq_number st s = (if a \<le> s \<and> s < b then None else get_tx_by_seq_number ts s)"
    "\<And>s. store_check_tx_completed st s \<longleftrightarrow> store_check_tx_completed ts s \<and> \<not> (a \<le> s \<and> s < b)"
    "\<And>r l. hm_get (col_tx_data_root_index st) r = Some l \<Longrightarrow> l \<noteq> []"
    "\<And>r. sorted_wrt (<) (get_tx_seq_list_by_data_root st r)"
    "\<And>r s. s \<in> set (get_tx_seq_list_by_data_root st r) \<Longrightarrow> s \<in> set (get_tx_seq_list_by_data_root ts r) \<and> (s < a \<or> b \<le> s)"
    "\<And>r s. s \<in> set (get_tx_seq_list_by_data_root ts r) \<Longrightarrow> s < a \<Longrightarrow> s \<in> set (get_tx_seq_list_by_data_root st r)"
  using assms unfolding removing_def by (elim conjE, simp)+

lemma removing_start: "tx_store_ok ts \<Longrightarrow> removing ts a a ts"
  unfolding removing_def using tx_store_okD [of ts] by (auto simp: linorder_not_less)

lemma remove_tx_lookup:
  assumes "get_tx_by_seq_number st b = Some tx"
  defines "l \<equiv> filter (\<lambda>e. e < b) (get_tx_seq_list_by_data_root st (data_merkle_root tx))"
  shows "\<exists>st'. remove_tx_by_seq_number st b = (st', Some tx) \<and>
     (\<forall>s. get_tx_by_seq_number st' s = (if s = b then None else get_tx_by_seq_number st s)) \<and>
     (\<forall>s. store_check_tx_completed st' s \<longleftrightarrow> store_check_tx_completed st s \<and> s \<noteq> b) \<and>
     (\<forall>r. hm_get (col_tx_data_root_index st') r = (if r = data_merkle_root tx then if l = [] then None else Some l
        else hm_get (col_tx_data_root_index st) r)) \<and>
     (\<forall>r. get_tx_seq_list_by_data_root st' r = (if r = data_merkle_root tx then l else get_tx_seq_list_by_data_root st r))"
proof (cases "l = []")
  case True
  then show ?thesis
    using assms(1) by (simp add: remove_tx_by_seq_number_def l_def get_tx_by_seq_number_def store_check_tx_completed_def
        get_tx_seq_list_by_data_root_def Let_def)
next
  case False
  then show ?thesis
    using assms(1) by (simp add: remove_tx_by_seq_number_def l_def get_tx_by_seq_number_def store_check_tx_completed_def
        get_tx_seq_list_by_data_root_def Let_def)
qed

lemma removing_step:
  assumes ok: "tx_store_ok ts" and inv: "removing ts a b st" and ab: "a \<le> b" and tx: "get_tx_by_seq_number ts b = Some tx"
  shows "\<exists>st'. remove_tx_by_seq_number st b = (st', Some tx) \<and> removing ts a (Suc b) st'"
proof -
  note I = removingD [OF inv]
  have "get_tx_by_seq_number st b = Some tx" using I(1) [of b] tx by simp
  from remove_tx_lookup [OF this] obtain st' where st': "remove_tx_by_seq_number st b = (st', Some tx)"
    and g: "\<And>s. get_tx_by_seq_number st' s = (if s = b then None else get_tx_by_seq_number st s)"
    and c: "\<And>s. store_check_tx_completed st' s \<longleftrightarrow> store_check_tx_completed st s \<and> s \<noteq> b"
    and h: "\<And>r. hm_get (col_tx_data_root_index st') r = (if r = data_merkle_root tx
        then if filter (\<lambda>e. e < b) (get_tx_seq_list_by_data_root st (data_merkle_root tx)) = [] then None
             else Some (filter (\<lambda>e. e < b) (get_tx_seq_list_by_data_root st (data_merkle_root tx)))
        else hm_get (col_tx_data_root_index st) r)"
    and l: "\<And>r. get_tx_seq_list_by_data_root st' r = (if r = data_merkle_root tx
        then filter (\<lambda>e. e < b) (get_tx_seq_list_by_data_root st (data_merkle_root tx)) else get_tx_seq_list_by_data_root st r)"
    by blast
  have other: "s \<noteq> b" if "s \<in> set (get_tx_seq_list_by_data_root ts r)" "r \<noteq> data_merkle_root tx" for s r
    using tx_store_okD(5) [OF ok that(1)] tx that(2) by auto
  have "removing ts a (Suc b) st'"
    unfolding removing_def
  proof (intro conjI allI impI ballI)
    show "get_tx_by_seq_number st' s = (if a \<le> s \<and> s < Suc b then None else get_tx_by_seq_number ts s)" for s
      using I(1) [of s] ab unfolding g by auto
    show "store_check_tx_completed st' s \<longleftrightarrow> store_check_tx_completed ts s \<and> \<not> (a \<le> s \<and> s < Suc b)" for s
      using I(2) [of s] ab unfolding c by auto
    show "k \<noteq> []" if "hm_get (col_tx_data_root_index st') r = Some k" for r k
      using that I(3) [of r k] unfolding h by (simp split: if_splits)
    show "sorted_wrt (<) (get_tx_seq_list_by_data_root st' r)" for r
      using I(4) unfolding l by (simp add: sorted_wrt_filter)
    fix r s
    show "s \<in> set (get_tx_seq_list_by_data_root ts r)" if "s \<in> set (get_tx_seq_list_by_data_root st' r)"
      using that I(5) [of s r] unfolding l by (auto split: if_splits)
    show "s < a \<or> Suc b \<le> s" if m: "s \<in> set (get_tx_seq_list_by_data_root st' r)"
    proof (cases "r = data_merkle_root tx")
      case True
      then show ?thesis using m I(5) [of s r] unfolding l by auto
    next
      case False
      then have "s \<in> set (get_tx_seq_list_by_data_root st r)" using m unfolding l by simp
      then show ?thesis using I(5) [of s r] other [of s r] False by auto
    qed
    show "s \<in> set (get_tx_seq_list_by_data_root st' r)" if "s \<in> set (get_tx_seq_list_by_data_root ts r)" "s < a"
      using I(6) [OF that] that(2) ab unfolding l by auto
  qed
  with st' show ?thesis by blast
qed

lemma remove_txs_removing:
  assumes ok: "tx_store_ok ts"
  shows "removing ts a b st \<Longrightarrow> a \<le> b \<Longrightarrow> b \<le> n \<Longrightarrow> n \<le> store_next_tx_seq ts \<Longrightarrow>
     \<exists>st'. remove_txs [b..<n] st = (st', map (\<lambda>s. the (get_tx_by_seq_number ts s)) [b..<n]) \<and> removing ts a n st'"
proof (induction "n - b" arbitrary: b st)
  case 0
  then show ?case by simp
next
  case (Suc k)
  then have b: "b < n" by simp
  then obtain tx where tx: "get_tx_by_seq_number ts b = Some tx"
    using tx_store_okD(1) [OF ok, of b] Suc.prems by fastforce
  obtain st1 where st1: "remove_tx_by_seq_number st b = (st1, Some tx)" "removing ts a (Suc b) st1"
    using removing_step [OF ok Suc.prems(1,2) tx] by blast
  have "k = n - Suc b" "a \<le> Suc b" "Suc b \<le> n" using Suc by simp_all
  from Suc.hyps(1) [OF this(1) st1(2) this(2,3) Suc.prems(4)] show ?case
    using st1(1) tx b by (auto simp: upt_conv_Cons)
qed

lemma removing_end:
  assumes ok: "tx_store_ok ts" and inv: "removing ts a (store_next_tx_seq ts) st" and a: "a \<le> store_next_tx_seq ts"
  shows "get_tx_seq_list_by_data_root st r = filter (\<lambda>s. s < a) (get_tx_seq_list_by_data_root ts r)"
    "get_tx_by_seq_number st s = (if s < a then get_tx_by_seq_number ts s else None)"
    "store_check_tx_completed st s \<longleftrightarrow> s < a \<and> store_check_tx_completed ts s"
proof -
  note I = removingD [OF inv] and D = tx_store_okD [OF ok]
  have lt: "s < store_next_tx_seq ts" if "s \<in> set (get_tx_seq_list_by_data_root ts r)" for s r
    using D(5) [OF that] D(1) [of s] by auto
  have "set (get_tx_seq_list_by_data_root st r) = {s \<in> set (get_tx_seq_list_by_data_root ts r). s < a}"
    using I(5) [of _ r] I(6) [of _ r] lt [of _ r] by fastforce
  then show "get_tx_seq_list_by_data_root st r = filter (\<lambda>s. s < a) (get_tx_seq_list_by_data_root ts r)"
    using I(4) [of r] D(4) [of r]
    by (intro strict_sorted_equal) (simp_all add: sorted_wrt_filter)
  show "get_tx_by_seq_number st s = (if s < a then get_tx_by_seq_number ts s else None)"
    using I(1) [of s] D(1) [of s] by auto
  show "store_check_tx_completed st s \<longleftrightarrow> s < a \<and> store_check_tx_completed ts s"
    using I(2) [of s] D(6) [of s] D(1) [of s] by auto
qed

lemma removing_end_ok:
  assumes ok: "tx_store_ok ts" and inv: "removing ts a (store_next_tx_seq ts) st" and a: "a \<le> store_next_tx_seq ts"
  shows "tx_store_ok st" "store_next_tx_seq st = a"
proof -
  note E = removing_end [OF ok inv a] and D = tx_store_okD [OF ok]
  have dom: "get_tx_by_seq_number st s \<noteq> None \<longleftrightarrow> s < a" for s using D(1) [of s] a unfolding E by auto
  show nx: "store_next_tx_seq st = a" by (rule next_tx_seq_iff) (rule dom)
  show "tx_store_ok st"
    unfolding tx_store_ok_def nx
  proof (intro conjI allI impI ballI)
    show "get_tx_by_seq_number st s \<noteq> None \<longleftrightarrow> s < a" for s by (rule dom)
    show "tx_seq t = s" if "get_tx_by_seq_number st s = Some t" for s t
      using that D(2) [of s t] unfolding E by (simp split: if_splits)
    show "s \<in> set (get_tx_seq_list_by_data_root st (data_merkle_root t))" if "get_tx_by_seq_number st s = Some t" for s t
      using that D(3) [of s t] unfolding E by (simp split: if_splits)
    show "l \<noteq> []" if "hm_get (col_tx_data_root_index st) r = Some l" for r l
      by (rule removingD(3) [OF inv that])
    show "sorted_wrt (<) (get_tx_seq_list_by_data_root st r)" for r by (rule removingD(4) [OF inv])
    show "\<exists>t. get_tx_by_seq_number st s = Some t \<and> data_merkle_root t = r" if "s \<in> set (get_tx_seq_list_by_data_root st r)" for s r
      using that D(5) [of s r] unfolding E by simp
    show "get_tx_by_seq_number st s \<noteq> None" if "store_check_tx_completed st s" for s
      using that D(6) [of s] unfolding E by simp
  qed
qed

lemma store_finalize_tx_ok:
  assumes "tx_store_ok ts" "seq < store_next_tx_seq ts"
  shows "tx_store_ok (store_finalize_tx ts seq)"
    "store_check_tx_completed (store_finalize_tx ts seq) s \<longleftrightarrow> s = seq \<or> store_check_tx_completed ts s"
proof -
  have eq: "get_tx_by_seq_number (store_finalize_tx ts seq) = get_tx_by_seq_number ts"
    "get_tx_seq_list_by_data_root (store_finalize_tx ts seq) = get_tx_seq_list_by_data_root ts"
    "store_next_tx_seq (store_finalize_tx ts seq) = store_next_tx_seq ts"
    "col_tx_data_root_index (store_finalize_tx ts seq) = col_tx_data_root_index ts"
    by (simp_all add: fun_eq_iff store_finalize_tx_def get_tx_by_seq_number_def get_tx_seq_list_by_data_root_def
        store_next_tx_seq_def)
  show c: "store_check_tx_completed (store_finalize_tx ts seq) s \<longleftrightarrow> s = seq \<or> store_check_tx_completed ts s" for s
    by (simp add: store_finalize_tx_def store_check_tx_completed_def)
  show "tx_store_ok (store_finalize_tx ts seq)"
    using assms tx_store_okD(1) [OF assms(1), of seq] unfolding tx_store_ok_def eq c by auto
qed

lemma store_put_tx_next:
  assumes ok: "tx_store_ok ts" and put: "fill_data_root keccak tx = Ok tx'" "tx_seq tx' = store_next_tx_seq ts"
  shows "\<exists>ts'. store_put_tx keccak ts tx = Ok (ts', get_tx_seq_list_by_data_root ts (data_merkle_root tx')) \<and> tx_store_ok ts' \<and>
     store_next_tx_seq ts' = Suc (store_next_tx_seq ts) \<and> get_tx_by_seq_number ts' (tx_seq tx') = Some tx'"
proof -
  obtain ts' where ts': "store_put_tx keccak ts tx = Ok (ts', get_tx_seq_list_by_data_root ts (data_merkle_root tx'))"
    "tx_store_ok ts'" and g: "\<And>s. get_tx_by_seq_number ts' s = (if s = tx_seq tx' then Some tx' else get_tx_by_seq_number ts s)"
    using store_put_tx_ok [OF assms] by blast
  have "store_next_tx_seq ts' = Suc (store_next_tx_seq ts)"
    by (rule next_tx_seq_iff) (use put(2) tx_store_okD(1) [OF ok] in \<open>auto simp: g less_Suc_eq\<close>)
  then show ?thesis using ts' g by simp
qed

lemma remove_txs_from:
  assumes ok: "tx_store_ok ts" and a: "a \<le> store_next_tx_seq ts"
  shows "\<exists>ts'. remove_txs [a..<store_next_tx_seq ts] ts =
       (ts', map (\<lambda>s. the (get_tx_by_seq_number ts s)) [a..<store_next_tx_seq ts]) \<and>
     tx_store_ok ts' \<and> store_next_tx_seq ts' = a \<and>
     (\<forall>s. get_tx_by_seq_number ts' s = (if s < a then get_tx_by_seq_number ts s else None)) \<and>
     (\<forall>r. get_tx_seq_list_by_data_root ts' r = filter (\<lambda>s. s < a) (get_tx_seq_list_by_data_root ts r)) \<and>
     (\<forall>s. store_check_tx_completed ts' s \<longleftrightarrow> s < a \<and> store_check_tx_completed ts s)"
proof -
  obtain ts' where ts': "remove_txs [a..<store_next_tx_seq ts] ts =
      (ts', map (\<lambda>s. the (get_tx_by_seq_number ts s)) [a..<store_next_tx_seq ts])" "removing ts a (store_next_tx_seq ts) ts'"
    using remove_txs_removing [OF ok removing_start [OF ok] order_refl a order_refl] by blast
  then show ?thesis
    using removing_end [OF ok ts'(2) a] removing_end_ok [OF ok ts'(2) a]
    by (intro exI [of _ ts'] conjI allI) simp_all
qed

text \<open>
  C30. The transaction store stays well-formed. Storing the transaction with the next sequence number
  passes the assertion of \<open>put_tx\<close>, returns the sequence numbers of the earlier transactions with the same
  data root and keeps well-formedness; so does completing a known transaction; and removing, in
  ascending order, every transaction from \<open>a\<close> on, as \<open>revert_to\<close> does, succeeds, returns exactly those
  transactions in order and leaves a well-formed store that agrees with the old one below \<open>a\<close>.
\<close>

theorem tx_store_wf:
  assumes "tx_store_ok ts"
  shows "(\<forall>tx tx'. fill_data_root keccak tx = Ok tx' \<and> tx_seq tx' = store_next_tx_seq ts \<longrightarrow>
      (\<exists>ts'. store_put_tx keccak ts tx = Ok (ts', get_tx_seq_list_by_data_root ts (data_merkle_root tx')) \<and> tx_store_ok ts' \<and>
        store_next_tx_seq ts' = Suc (store_next_tx_seq ts) \<and> get_tx_by_seq_number ts' (tx_seq tx') = Some tx')) \<and>
    (\<forall>seq < store_next_tx_seq ts. tx_store_ok (store_finalize_tx ts seq)) \<and>
    (\<forall>a \<le> store_next_tx_seq ts.
      \<exists>ts'. remove_txs [a..<store_next_tx_seq ts] ts =
          (ts', map (\<lambda>s. the (get_tx_by_seq_number ts s)) [a..<store_next_tx_seq ts]) \<and>
        tx_store_ok ts' \<and> store_next_tx_seq ts' = a \<and>
        (\<forall>s. get_tx_by_seq_number ts' s = (if s < a then get_tx_by_seq_number ts s else None)) \<and>
        (\<forall>r. get_tx_seq_list_by_data_root ts' r = filter (\<lambda>s. s < a) (get_tx_seq_list_by_data_root ts r)) \<and>
        (\<forall>s. store_check_tx_completed ts' s \<longleftrightarrow> s < a \<and> store_check_tx_completed ts s))"
  by (intro conjI allI impI)
    (erule conjE, rule store_put_tx_next [OF assms], assumption+, rule store_finalize_tx_ok(1) [OF assms], assumption,
     rule remove_txs_from [OF assms])

definition example_log_tx :: transaction where
  "example_log_tx = \<lparr>stream_ids = [], tx_data = [], data_merkle_root = [1], merkle_nodes = [(1, [1])],
     start_entry_index = 1, tx_size = 256, tx_seq = 0\<rparr>"

theorem tx_store_wf_witness:
  "\<exists>ts1 ts2. store_put_tx (\<lambda>_. [7]) empty_tx_store example_log_tx = Ok (ts1, []) \<and> tx_store_ok (store_finalize_tx ts1 0) \<and>
     remove_txs [0..<1] ts1 = (ts2, [example_log_tx]) \<and> tx_store_ok ts2 \<and> store_next_tx_seq ts2 = 0"
proof -
  have fill: "fill_data_root (\<lambda>_. [7]) example_log_tx = Ok example_log_tx" "tx_seq example_log_tx = store_next_tx_seq empty_tx_store"
    by (simp_all add: fill_data_root_def example_log_tx_def empty_tx_store_ok)
  have none: "get_tx_seq_list_by_data_root empty_tx_store r = []" for r
    by (simp add: get_tx_seq_list_by_data_root_def empty_tx_store_def)
  obtain ts1 where ts1: "store_put_tx (\<lambda>_. [7]) empty_tx_store example_log_tx = Ok (ts1, [])" "tx_store_ok ts1"
    "store_next_tx_seq ts1 = 1" "get_tx_by_seq_number ts1 0 = Some example_log_tx"
    using tx_store_wf [OF empty_tx_store_ok(1), of "\<lambda>_. [7]", THEN conjunct1, rule_format, OF conjI [OF fill]]
    by (auto simp: none empty_tx_store_ok fill)
  obtain ts2 where "remove_txs [0..<1] ts1 = (ts2, [example_log_tx])" "tx_store_ok ts2" "store_next_tx_seq ts2 = 0"
    using tx_store_wf [OF ts1(2), THEN conjunct2, THEN conjunct2, rule_format, of 0] unfolding ts1(3) by (auto simp: ts1(4))
  moreover have "tx_store_ok (store_finalize_tx ts1 0)" using tx_store_wf [OF ts1(2), THEN conjunct2, THEN conjunct1] ts1(3) by simp
  ultimately show ?thesis using ts1(1) by blast
qed

subsection \<open>Data put for a transaction\<close>

text \<open>A method leaves the stores alone: it changes the in-memory trees only.\<close>

definition keeps_stores :: "(log_manager, 'a) op \<Rightarrow> bool" where
  "keeps_stores f \<longleftrightarrow> (\<forall>lm. lm_tx_store (fst (f lm)) = lm_tx_store lm \<and> lm_flow_store (fst (f lm)) = lm_flow_store lm)"

named_theorems keeps

lemma keeps_bind [keeps]: "keeps_stores m \<Longrightarrow> (\<And>x. keeps_stores (f x)) \<Longrightarrow> keeps_stores (op_bind m f)"
  unfolding keeps_stores_def op_bind_def by (auto split: prod.splits res.splits) (metis fst_conv)+

lemma keeps_simple [keeps]: "keeps_stores (op_lift r)" "keeps_stores (op_read g)" "keeps_stores (on_last h)" "keeps_stores (on_pora h)"
  by (auto simp: keeps_stores_def op_defs on_last_def on_pora_def split: res.splits)

lemma keeps_for [keeps]: "(\<And>x. keeps_stores (f x)) \<Longrightarrow> keeps_stores (op_for f xs)"
  by (induction xs) (simp_all add: keeps)

lemma keeps_fill [keeps]: "keeps_stores (fill_last_leaves keccak i es)" "keeps_stores (fill_chunk_root keccak cr)"
  by (induction es arbitrary: i) (simp_all add: keeps fill_chunk_root_def)

lemma op_bind_keeps:
  assumes "keeps_stores m"
  obtains lm1 e where "op_bind m f lm = (lm1, e)" "lm_tx_store lm1 = lm_tx_store lm" "lm_flow_store lm1 = lm_flow_store lm" "\<And>x. e \<noteq> Ok x"
  | lm1 x where "op_bind m f lm = f x lm1" "lm_tx_store lm1 = lm_tx_store lm" "lm_flow_store lm1 = lm_flow_store lm"
  using assms unfolding keeps_stores_def op_bind_def
  by (cases "m lm"; cases "snd (m lm)") (auto dest: spec [of _ lm])

text \<open>Every outcome of \<open>append_entries\<close> of the manager: the flow store is left alone, or it has appended the entries.\<close>

lemma lm_append_entries_stores:
  assumes app: "append_entries keccak arr (lm_flow_store lm) = (fs', Ok roots)"
  obtains lm' r where "lm_append_entries keccak arr lm = (lm', r)" "lm_tx_store lm' = lm_tx_store lm"
    "lm_flow_store lm' = fs' \<or> lm_flow_store lm' = lm_flow_store lm \<and> r \<noteq> Ok ()"
proof -
  let ?fill = "\<lambda>last_start. if last_start < ca_start arr + bytes_to_chunks (length (ca_data arr))
      then let (chunk_start, data_index) =
                 (if last_start \<le> ca_start arr then (ca_start arr - last_start, 0)
                  else (0, (last_start - ca_start arr) * CHUNK_SIZE))
           in op_bind (op_lift (slice_index (ca_data arr) data_index (length (ca_data arr)))) (\<lambda>d.
                fill_last_leaves keccak chunk_start (chunks_exact CHUNK_SIZE d))
      else op_lift (Ok ())"
  let ?rest = "op_bind (on_flow (append_entries keccak arr)) (\<lambda>chunk_roots. op_for (fill_chunk_root keccak) chunk_roots)"
  have k: "keeps_stores (op_bind (op_read last_chunk_start_index) ?fill)"
    by (simp add: keeps split: prod.splits)
  have assoc: "lm_append_entries keccak arr lm = op_bind (op_bind (op_read last_chunk_start_index) ?fill) (\<lambda>_. ?rest) lm"
    unfolding lm_append_entries_def op_bind_def by (simp split: prod.splits res.splits)
  show thesis
  proof (rule op_bind_keeps [OF k, of "\<lambda>_. ?rest" lm])
    fix lm1 e assume "op_bind (op_bind (op_read last_chunk_start_index) ?fill) (\<lambda>_. ?rest) lm = (lm1, e)"
      "lm_tx_store lm1 = lm_tx_store lm" "lm_flow_store lm1 = lm_flow_store lm" "\<And>x. e \<noteq> Ok x"
    then show thesis using that [of lm1 e] assoc by simp
  next
    fix lm1 x assume r: "op_bind (op_bind (op_read last_chunk_start_index) ?fill) (\<lambda>_. ?rest) lm = ?rest lm1"
      and lm1: "lm_tx_store lm1 = lm_tx_store lm" "lm_flow_store lm1 = lm_flow_store lm"
    let ?lm2 = "lm1\<lparr>lm_flow_store := fs'\<rparr>" and ?fin = "op_for (fill_chunk_root keccak) roots"
    have "?rest lm1 = ?fin ?lm2" using app lm1(2) by (simp add: op_bind_def on_flow_def)
    moreover have "lm_tx_store (fst (?fin ?lm2)) = lm_tx_store ?lm2 \<and> lm_flow_store (fst (?fin ?lm2)) = lm_flow_store ?lm2"
      using keeps_for [of "fill_chunk_root keccak" roots, OF keeps_fill(2)] unfolding keeps_stores_def by blast
    ultimately show thesis using that [of "fst (?fin ?lm2)" "snd (?fin ?lm2)"] assoc r lm1 by simp
  qed
qed

lemma out_of_tx_range_exact:
  assumes "ca_start arr * 256 + length (ca_data arr) < 2 ^ 64"
  shows "out_of_tx_range arr c \<longleftrightarrow> c * 256 < ca_start arr * 256 + length (ca_data arr)"
  using assms by (simp add: out_of_tx_range_def CHUNK_SIZE_def)


definition example_log_manager :: log_manager where
  "example_log_manager = \<lparr>lm_tx_store = empty_tx_store\<lparr>col_tx := [(0, example_log_tx)]\<rparr>, lm_flow_store = empty_flow,
     pora_chunks_merkle = \<lparr>layers = [[[3], [4]]], delta_nodes_map = [], root_to_tx_seq_map = [], min_depth = None, leaf_height = 0\<rparr>,
     last_chunk_merkle = \<lparr>layers = [[]], delta_nodes_map = [], root_to_tx_seq_map = [], min_depth = None, leaf_height = 0\<rparr>\<rparr>"

lemma example_log_manager_tx:
  "get_tx_by_seq_number (lm_tx_store example_log_manager) 0 = Some example_log_tx"
  "compute_padded_chunk_size (tx_size example_log_tx) = Ok (1, 1)" "lm_flow_store example_log_manager = empty_flow"
  by (simp_all add: example_log_manager_def get_tx_by_seq_number_def, code_simp)




subsection \<open>Reverting\<close>

text \<open>
  C31. Reverting to a transaction, after the two trees went back to it: the store drops exactly the later
  transactions and returns them in order, and the flow is truncated. The position of the truncation is
  the start of the last chunk, which is already counted in entries, times \<open>PORA_CHUNK_SIZE\<close> once more,
  plus its leaves: every byte below that stays, also the data of the reverted transactions between the
  end of the tree, \<open>s + l\<close>, and \<open>s * 1024 + l\<close>.
\<close>

theorem lm_revert_to_truncation:
  assumes "revert_merkle_tree keccak seq lm = (lm1, Ok ())" and "last_chunk_start_index lm1 = Ok s"
    and "amt_leaves (last_chunk_merkle lm1) = Ok l" and "flow_ok (lm_flow_store lm1)" and "tx_store_ok (lm_tx_store lm1)"
    and "seq < store_next_tx_seq (lm_tx_store lm1)" and "seq + 1 < 2 ^ 64"
  shows "\<exists>lm'. lm_revert_to keccak seq lm =
       (lm', Ok (map (\<lambda>i. the (get_tx_by_seq_number (lm_tx_store lm1) i)) [seq + 1..<store_next_tx_seq (lm_tx_store lm1)])) \<and>
     tx_store_ok (lm_tx_store lm') \<and> store_next_tx_seq (lm_tx_store lm') = seq + 1 \<and> flow_ok (lm_flow_store lm') \<and>
     (\<forall>off. flow_at keccak (lm_flow_store lm') off =
        (if off < (s * 1024 + l) * 256 then flow_at keccak (lm_flow_store lm1) off else None))"
proof -
  obtain fs' where fs': "truncate_flow keccak (s * 1024 + l) (lm_flow_store lm1) = (fs', Ok ())" "flow_ok fs'"
    "\<And>off. flow_at keccak fs' off = (if off < (s * 1024 + l) * 256 then flow_at keccak (lm_flow_store lm1) off else None)"
    by (rule truncate_flow_refines [OF assms(4), where keccak = keccak and n = "s * 1024 + l"]) blast
  let ?n = "store_next_tx_seq (lm_tx_store lm1)"
  obtain ts' where ts': "remove_txs [seq + 1..<?n] (lm_tx_store lm1) =
      (ts', map (\<lambda>i. the (get_tx_by_seq_number (lm_tx_store lm1) i)) [seq + 1..<?n])"
    "tx_store_ok ts'" "store_next_tx_seq ts' = seq + 1"
    using remove_txs_from [OF assms(5), of "seq + 1"] assms(6) by auto
  have "lm_revert_to keccak seq lm = (lm1\<lparr>lm_flow_store := fs', lm_tx_store := ts'\<rparr>,
      Ok (map (\<lambda>i. the (get_tx_by_seq_number (lm_tx_store lm1) i)) [seq + 1..<?n]))"
    using assms(1-3,7) fs'(1) ts'(1)
    by (simp add: lm_revert_to_def op_bind_def op_read_def on_flow_def next_tx_seq_def PORA_CHUNK_SIZE_def)
  then show ?thesis using fs'(2,3) ts'(2,3) by simp
qed

definition example_pora :: "h256 amt" where
  "example_pora = \<lparr>layers = [[[3], [4]], [[5]]], delta_nodes_map = [(0, \<lparr>right_most_nodes = [(1, [4]), (0, [5])]\<rparr>)],
       root_to_tx_seq_map = [([5], 0)], min_depth = None, leaf_height = 0\<rparr>"

definition example_last :: "h256 amt" where
  "example_last = \<lparr>layers = [[[6]]], delta_nodes_map = [(0, \<lparr>right_most_nodes = [(0, [6])]\<rparr>)],
       root_to_tx_seq_map = [([6], 0)], min_depth = None, leaf_height = 0\<rparr>"

definition example_reverted :: log_manager where
  "example_reverted = \<lparr>
     lm_tx_store = \<lparr>col_tx = [(0, example_log_tx), (1, example_log_tx\<lparr>tx_seq := 1\<rparr>)], col_tx_data_root_index = [([1], [0, 1])],
       col_tx_completed = [], col_misc = None\<rparr>,
     lm_flow_store = example_flow,
     pora_chunks_merkle = example_pora,
     last_chunk_merkle = example_last\<rparr>"

lemma example_reverted_store: "store_next_tx_seq (lm_tx_store example_reverted) = 2" "tx_store_ok (lm_tx_store example_reverted)"
proof -
  have g: "get_tx_by_seq_number (lm_tx_store example_reverted) s =
      (if s = 0 then Some example_log_tx else if s = 1 then Some (example_log_tx\<lparr>tx_seq := 1\<rparr>) else None)" for s
    by (simp add: example_reverted_def get_tx_by_seq_number_def)
  have l: "get_tx_seq_list_by_data_root (lm_tx_store example_reverted) r = (if r = [1] then [0, 1] else [])" for r
    by (simp add: example_reverted_def get_tx_seq_list_by_data_root_def)
  show n: "store_next_tx_seq (lm_tx_store example_reverted) = 2" by (rule next_tx_seq_iff) (auto simp: g)
  show "tx_store_ok (lm_tx_store example_reverted)"
    unfolding tx_store_ok_def g l n
    by (auto simp: example_log_tx_def example_reverted_def store_check_tx_completed_def split: if_splits)
qed

lemma example_trees:
  "revert_to example_pora 0 = Ok example_pora" "revert_to example_last 0 = Ok example_last"
  "amt_leaves example_pora = Ok 2" "amt_leaves example_last = Ok 1"
  by code_simp+

lemma example_reverted_trees:
  "pora_chunks_merkle example_reverted = example_pora" "last_chunk_merkle example_reverted = example_last"
  "amt_leaves (last_chunk_merkle example_reverted) = Ok 1" "lm_flow_store example_reverted = example_flow"
  by (simp_all add: example_reverted_def example_trees)

lemma example_reverted_state:
  "revert_merkle_tree (\<lambda>x. x) 0 example_reverted = (example_reverted, Ok ())"
  "last_chunk_start_index example_reverted = Ok 1024"
proof -
  show "revert_merkle_tree (\<lambda>x. x) 0 example_reverted = (example_reverted, Ok ())"
    by (simp add: revert_merkle_tree_def op_defs on_pora_def on_last_def example_reverted_trees(1,2) example_trees)
  show "last_chunk_start_index example_reverted = Ok 1024"
    by (simp add: last_chunk_start_index_def PORA_CHUNK_SIZE_def example_reverted_trees(1,2) example_trees)
qed

theorem lm_revert_to_truncation_witness:
  "\<exists>lm'. lm_revert_to (\<lambda>x. x) 0 example_reverted = (lm', Ok [example_log_tx\<lparr>tx_seq := 1\<rparr>]) \<and> tx_store_ok (lm_tx_store lm') \<and>
     store_next_tx_seq (lm_tx_store lm') = 1 \<and>
     (\<forall>off. flow_at (\<lambda>x. x) (lm_flow_store lm') off =
        (if off < (1024 * 1024 + 1) * 256 then flow_at (\<lambda>x. x) example_flow off else None))"
proof -
  have "get_tx_by_seq_number (lm_tx_store example_reverted) 1 = Some (example_log_tx\<lparr>tx_seq := 1\<rparr>)"
    by (simp add: example_reverted_def get_tx_by_seq_number_def)
  then have txs: "map (\<lambda>i. the (get_tx_by_seq_number (lm_tx_store example_reverted) i)) [1..<2] = [example_log_tx\<lparr>tx_seq := 1\<rparr>]"
    by (simp add: numeral_2_eq_2)
  have lt: "(0::nat) < 2" "(0::nat) + 1 < 2 ^ 64" by simp_all
  from lm_revert_to_truncation [OF example_reverted_state example_reverted_trees(3),
      unfolded example_reverted_trees(4) example_reverted_store(1), OF example_flow_ok(1) example_reverted_store(2) lt]
  show ?thesis unfolding add_0 txs by blast
qed

end
