(* ===== verification/Chunk_Pool.thy ===== *)
theory Chunk_Pool
  imports Log_Manager
begin

text \<open>
  The chunk pool, \<^verbatim>\<open>node/chunk_pool/src\<close>: segments of files whose transaction is not known yet are
  cached in memory (\<^verbatim>\<open>mem_pool/chunk_cache.rs\<close>), the concurrent writers of a file are limited by a sliding
  window (\<^verbatim>\<open>mem_pool/chunk_write_control.rs\<close>), the pool ties both to the log store
  (\<^verbatim>\<open>mem_pool/chunk_pool_inner.rs\<close>), and a worker finalises the transactions (\<^verbatim>\<open>handler.rs\<close>).

  Every method that runs under the lock of the pool is an \<open>op\<close>; it is one atomic step. The asynchronous
  methods are composed of such steps and of calls of the store, run without interruption here; the
  steps of concurrent calls interleave. A panic under the lock does not undo what was done before it.
  The clock is the argument \<open>now\<close>. The order of \<open>LinkedHashMap\<close> is the order of the list; what looking up
  an occupied entry does to that order is the argument \<open>touch\<close>.
\<close>

subsection \<open>Configuration and identities\<close>

record pool_config =
  write_window_size :: nat
  max_cached_chunks_all :: nat
  max_writings :: nat
  expiration_time_secs :: nat

record file_id =
  fid_root :: h256
  fid_tx_id :: tx_id

record segment_info =
  si_root :: h256
  seg_data :: "byte list"
  seg_index :: nat
  chunks_per_segment :: nat

definition expiration_time :: "pool_config \<Rightarrow> nat" where
  "expiration_time cfg = expiration_time_secs cfg * 10 ^ 9"

definition segment_chunks :: "segment_info \<Rightarrow> chunk_array" where
  "segment_chunks info = \<lparr>ca_data = seg_data info, ca_start = seg_index info * chunks_per_segment info\<rparr>"

subsection \<open>The cache\<close>

record memory_cached_file =
  mcf_id :: file_id
  segments :: "(nat, chunk_array) hmap"
  file_total_chunks :: nat
  expired_at :: nat
  cached_chunk_num :: nat

record chunk_pool_cache =
  cache_files :: "(h256, memory_cached_file) hmap"
  cache_total_chunks :: nat

definition default_tx_id :: tx_id where
  "default_tx_id = \<lparr>id_seq = 0, id_hash = h256_zero\<rparr>"

definition new_cached_file :: "h256 \<Rightarrow> nat \<Rightarrow> nat \<Rightarrow> memory_cached_file" where
  "new_cached_file root timeout now =
     \<lparr>mcf_id = \<lparr>fid_root = root, fid_tx_id = default_tx_id\<rparr>, segments = [], file_total_chunks = 0,
      expired_at = now + timeout, cached_chunk_num = 0\<rparr>"

definition update_with_tx ::
  "(byte list \<Rightarrow> h256) \<Rightarrow> (transaction \<Rightarrow> byte list) \<Rightarrow> transaction \<Rightarrow> memory_cached_file \<Rightarrow> memory_cached_file" where
  "update_with_tx keccak ssz tx file =
     file\<lparr>file_total_chunks := bytes_to_chunks (tx_size tx),
          mcf_id := (mcf_id file)\<lparr>fid_tx_id := tx_get_id keccak ssz tx\<rparr>\<rparr>"

definition is_completed :: "memory_cached_file \<Rightarrow> bool" where
  "is_completed file = (0 < file_total_chunks file \<and> file_total_chunks file \<le> cached_chunk_num file)"

definition new_chunk_pool_cache :: chunk_pool_cache where
  "new_chunk_pool_cache = \<lparr>cache_files = [], cache_total_chunks = 0\<rparr>"

definition cache_get_file :: "chunk_pool_cache \<Rightarrow> h256 \<Rightarrow> memory_cached_file option" where
  "cache_get_file c root = hm_get (cache_files c) root"

definition update_total_chunks_when_remove_file :: "memory_cached_file \<Rightarrow> (chunk_pool_cache, unit) op" where
  "update_total_chunks_when_remove_file file =
     op_update (\<lambda>c. rbind (assert_that (cached_chunk_num file \<le> cache_total_chunks c) ''total_chunks >= cached_chunk_num'') (\<lambda>_.
       Ok (c\<lparr>cache_total_chunks := cache_total_chunks c - cached_chunk_num file\<rparr>, ())))"

definition cache_remove_file :: "h256 \<Rightarrow> (chunk_pool_cache, memory_cached_file option) op" where
  "cache_remove_file root c =
     (case hm_get (cache_files c) root of
        None \<Rightarrow> (c, Ok None)
      | Some file \<Rightarrow>
          op_bind (op_modify (\<lambda>c. c\<lparr>cache_files := hm_remove root (cache_files c)\<rparr>)) (\<lambda>_.
          op_bind (update_total_chunks_when_remove_file file) (\<lambda>_. op_lift (Ok (Some file)))) c)"

fun collect_expired :: "nat \<Rightarrow> (h256 \<times> memory_cached_file) list \<Rightarrow> (chunk_pool_cache, unit) op" where
  "collect_expired now [] = op_lift (Ok ())"
| "collect_expired now ((root, file) # rest) =
     (if now < expired_at file then op_lift (Ok ())
      else op_bind (op_modify (\<lambda>c. c\<lparr>cache_files := rest\<rparr>)) (\<lambda>_.
           op_bind (update_total_chunks_when_remove_file file) (\<lambda>_. collect_expired now rest)))"

definition garbage_collect :: "nat \<Rightarrow> (chunk_pool_cache, unit) op" where
  "garbage_collect now c = collect_expired now (cache_files c) c"

text \<open>The entry of a file: the file that is there, or a new one at the back.\<close>

definition file_entry ::
  "(h256 \<Rightarrow> (h256, memory_cached_file) hmap \<Rightarrow> (h256, memory_cached_file) hmap) \<Rightarrow> pool_config \<Rightarrow> nat \<Rightarrow> h256 \<Rightarrow>
     (chunk_pool_cache, memory_cached_file) op" where
  "file_entry touch cfg now root c =
     (case hm_get (cache_files c) root of
        Some file \<Rightarrow> (c\<lparr>cache_files := touch root (cache_files c)\<rparr>, Ok file)
      | None \<Rightarrow> let file = new_cached_file root (expiration_time cfg) now
                 in (c\<lparr>cache_files := cache_files c @ [(root, file)]\<rparr>, Ok file))"

definition cache_segment ::
  "(h256 \<Rightarrow> (h256, memory_cached_file) hmap \<Rightarrow> (h256, memory_cached_file) hmap) \<Rightarrow> pool_config \<Rightarrow> nat \<Rightarrow> segment_info \<Rightarrow>
     (chunk_pool_cache, bool) op" where
  "cache_segment touch cfg now info =
     op_bind (garbage_collect now) (\<lambda>_.
     op_bind (file_entry touch cfg now (si_root info)) (\<lambda>file.
       if hm_get (segments file) (seg_index info) \<noteq> None then op_lift (Ok (is_completed file))
       else let num_chunks = length (seg_data info) div CHUNK_SIZE
            in op_bind (op_read (\<lambda>c. if max_cached_chunks_all cfg < cache_total_chunks c + num_chunks
                                    then Err ''exceeds the maximum cached chunks of whole pool'' else Ok ())) (\<lambda>_.
               let file = file\<lparr>cached_chunk_num := cached_chunk_num file + num_chunks,
                              expired_at := now + expiration_time cfg,
                              segments := hm_insert (seg_index info) (segment_chunks info) (segments file)\<rparr>
               in op_bind (op_modify (\<lambda>c. c\<lparr>cache_total_chunks := cache_total_chunks c + num_chunks,
                                             cache_files := hm_insert (si_root info) file (cache_files c)\<rparr>)) (\<lambda>_.
                  op_lift (Ok (is_completed file))))))"

end
