(* ===== verification/Chunk_Write_Control.thy ===== *)
theory Chunk_Write_Control
  imports Chunk_Pool
begin

text \<open>
  The writers of the chunk pool: the sliding window of a file and the control of all files
  (\<^verbatim>\<open>node/chunk_pool/src/mem_pool/chunk_write_control.rs\<close>), the pool that ties the cache and the control to
  the log store (\<^verbatim>\<open>chunk_pool_inner.rs\<close>), and the worker that finalises transactions (\<^verbatim>\<open>handler.rs\<close>).
\<close>

subsection \<open>The sliding window\<close>

datatype slot_status = Writing | Finished

record ctrl_window =
  win_size :: nat
  left_boundary :: nat
  slots :: "(nat, slot_status) hmap"

definition new_ctrl_window :: "nat \<Rightarrow> ctrl_window" where
  "new_ctrl_window sz = \<lparr>win_size = sz, left_boundary = 0, slots = []\<rparr>"

definition check_duplicate :: "ctrl_window \<Rightarrow> nat \<Rightarrow> bool" where
  "check_duplicate w index = (index < left_boundary w \<or> hm_get (slots w) index \<noteq> None)"

definition start_writing :: "nat \<Rightarrow> (ctrl_window, unit) op" where
  "start_writing index w =
     (if index < left_boundary w then (w, Panic ''index >= left_boundary'')
      else if left_boundary w + win_size w \<le> index then (w, Err ''index exceeds window limit'')
      else if hm_get (slots w) index \<noteq> None then (w, Panic ''!slots.contains_key(index)'')
      else (w\<lparr>slots := hm_insert index Writing (slots w)\<rparr>, Ok ()))"

definition rollback_writing :: "nat \<Rightarrow> (ctrl_window, unit) op" where
  "rollback_writing index w =
     (w\<lparr>slots := hm_remove index (slots w)\<rparr>,
      assert_that (hm_get (slots w) index = Some Writing) ''slot_status == Some(Writing)'')"

text \<open>The loop of \<open>finish_writing\<close>: the finished slots at the left end leave the window.\<close>

function move_forward :: "nat \<Rightarrow> (nat, slot_status) hmap \<Rightarrow> nat \<times> (nat, slot_status) hmap" where
  "move_forward left sl =
     (if hm_get sl left = Some Finished then move_forward (left + 1) (hm_remove left sl) else (left, sl))"
  by auto
termination
  by (relation "measure (\<lambda>(left, sl). length sl)") (simp_all add: hm_remove_length)

declare move_forward.simps [simp del]

definition finish_writing :: "nat \<Rightarrow> (ctrl_window, unit) op" where
  "finish_writing index w =
     (let w' = w\<lparr>slots := hm_insert index Finished (slots w)\<rparr>
      in if hm_get (slots w) index \<noteq> Some Writing then (w', Panic ''old_status == Some(Writing)'')
         else case move_forward (left_boundary w') (slots w') of
                (left, sl) \<Rightarrow> (w'\<lparr>left_boundary := left, slots := sl\<rparr>, Ok ()))"

subsection \<open>The control of all files\<close>

record file_write_ctrl =
  fwc_id :: file_id
  total_segments :: nat
  window :: ctrl_window

record chunk_pool_write_ctrl =
  ctrl_files :: "(h256, file_write_ctrl) hmap"
  total_writings :: nat

definition new_file_write_ctrl :: "file_id \<Rightarrow> nat \<Rightarrow> nat \<Rightarrow> file_write_ctrl" where
  "new_file_write_ctrl i total_segs sz = \<lparr>fwc_id = i, total_segments = total_segs, window = new_ctrl_window sz\<rparr>"

definition uploaded_seg_num :: "file_write_ctrl \<Rightarrow> nat" where
  "uploaded_seg_num f = left_boundary (window f)"

definition new_write_ctrl :: chunk_pool_write_ctrl where
  "new_write_ctrl = \<lparr>ctrl_files = [], total_writings = 0\<rparr>"

definition ctrl_get_file :: "chunk_pool_write_ctrl \<Rightarrow> h256 \<Rightarrow> file_write_ctrl option" where
  "ctrl_get_file wc root = hm_get (ctrl_files wc) root"

definition ctrl_remove_file :: "h256 \<Rightarrow> (chunk_pool_write_ctrl, file_write_ctrl option) op" where
  "ctrl_remove_file root wc = (wc\<lparr>ctrl_files := hm_remove root (ctrl_files wc)\<rparr>, Ok (hm_get (ctrl_files wc) root))"

text \<open>A method of the window of a file of the control.\<close>

definition on_window :: "h256 \<Rightarrow> file_write_ctrl \<Rightarrow> (ctrl_window, 'a) op \<Rightarrow> (chunk_pool_write_ctrl, 'a) op" where
  "on_window root f m wc =
     (case m (window f) of (w, r) \<Rightarrow> (wc\<lparr>ctrl_files := hm_insert root (f\<lparr>window := w\<rparr>) (ctrl_files wc)\<rparr>, r))"

definition write_segment :: "pool_config \<Rightarrow> file_id \<Rightarrow> nat \<Rightarrow> nat \<Rightarrow> (chunk_pool_write_ctrl, unit) op" where
  "write_segment cfg i index total_segs wc =
     (let f = (case hm_get (ctrl_files wc) (fid_root i) of
                 Some f \<Rightarrow> f | None \<Rightarrow> new_file_write_ctrl i total_segs (write_window_size cfg));
          wc = wc\<lparr>ctrl_files := hm_insert (fid_root i) f (ctrl_files wc)\<rparr>
      in if fwc_id f \<noteq> i
         then (wc\<lparr>ctrl_files := hm_remove (fid_root i) (ctrl_files wc)\<rparr>, Err ''Transaction reverted when uploading segments, please try again'')
         else if total_segments f \<noteq> total_segs then (wc, Err ''file size in segment does not match'')
         else if check_duplicate (window f) index then (wc, Ok ())
         else if max_writings cfg \<le> total_writings wc then (wc, Err ''too many data writing'')
         else op_bind (on_window (fid_root i) f (start_writing index)) (\<lambda>_.
                op_modify (\<lambda>wc. wc\<lparr>total_writings := total_writings wc + 1\<rparr>)) wc)"

definition release_writer :: "(chunk_pool_write_ctrl, unit) op" where
  "release_writer = op_update (\<lambda>wc. rbind (assert_that (0 < total_writings wc) ''total_writings > 0'') (\<lambda>_.
     Ok (wc\<lparr>total_writings := total_writings wc - 1\<rparr>, ())))"

definition on_write_succeeded :: "h256 \<Rightarrow> nat \<Rightarrow> (chunk_pool_write_ctrl, bool) op" where
  "on_write_succeeded root index wc =
     (case hm_get (ctrl_files wc) root of
        None \<Rightarrow> (wc, Ok False)
      | Some f \<Rightarrow>
          op_bind (on_window root f (finish_writing index)) (\<lambda>_.
          op_bind release_writer (\<lambda>_.
          op_read (\<lambda>wc. case hm_get (ctrl_files wc) root of
                          None \<Rightarrow> Ok False
                        | Some f \<Rightarrow> Ok (total_segments f \<le> left_boundary (window f))))) wc)"

definition on_write_failed :: "h256 \<Rightarrow> nat \<Rightarrow> (chunk_pool_write_ctrl, unit) op" where
  "on_write_failed root index wc =
     (case hm_get (ctrl_files wc) root of
        None \<Rightarrow> (wc, Ok ())
      | Some f \<Rightarrow> op_bind (on_window root f (rollback_writing index)) (\<lambda>_. release_writer) wc)"

subsection \<open>The pool\<close>

record pool_inner =
  segment_cache :: chunk_pool_cache
  write_control :: chunk_pool_write_ctrl

definition new_pool_inner :: pool_inner where
  "new_pool_inner = \<lparr>segment_cache = new_chunk_pool_cache, write_control = new_write_ctrl\<rparr>"

definition on_cache :: "(chunk_pool_cache, 'a) op \<Rightarrow> (pool_inner, 'a) op" where
  "on_cache m p = (case m (segment_cache p) of (c, r) \<Rightarrow> (p\<lparr>segment_cache := c\<rparr>, r))"

definition on_ctrl :: "(chunk_pool_write_ctrl, 'a) op \<Rightarrow> (pool_inner, 'a) op" where
  "on_ctrl m p = (case m (write_control p) of (wc, r) \<Rightarrow> (p\<lparr>write_control := wc\<rparr>, r))"

definition release_cached_chunks :: "h256 \<Rightarrow> nat \<Rightarrow> (chunk_pool_cache, unit) op" where
  "release_cached_chunks root n =
     op_bind (op_update (\<lambda>c. rbind (assert_that (n \<le> cache_total_chunks c) ''total_chunks >= cached_segs_chunks'') (\<lambda>_.
       Ok (c\<lparr>cache_total_chunks := cache_total_chunks c - n\<rparr>, ())))) (\<lambda>_.
     op_update (\<lambda>c. case hm_get (cache_files c) root of
         None \<Rightarrow> Panic ''called Option::unwrap() on a None value''
       | Some file \<Rightarrow>
           if cached_chunk_num file < n then Panic ''attempt to subtract with overflow''
           else Ok (c\<lparr>cache_files := hm_insert root (file\<lparr>cached_chunk_num := cached_chunk_num file - n\<rparr>) (cache_files c)\<rparr>, ())))"

definition on_write_cache_succeeded :: "h256 \<Rightarrow> nat \<Rightarrow> (pool_inner, unit) op" where
  "on_write_cache_succeeded root n = op_bind (on_ctrl release_writer) (\<lambda>_. on_cache (release_cached_chunks root n))"

definition on_write_cache_failed :: "h256 \<Rightarrow> nat \<Rightarrow> (pool_inner, unit) op" where
  "on_write_cache_failed root n = op_bind (on_ctrl release_writer) (\<lambda>_. on_cache (release_cached_chunks root n))"

definition get_all_cached_segments_to_write ::
  "pool_config \<Rightarrow> h256 \<Rightarrow> (pool_inner, file_id \<times> nat \<times> chunk_array list) op" where
  "get_all_cached_segments_to_write cfg root =
     op_bind (op_read (\<lambda>p. if max_writings cfg \<le> total_writings (write_control p) then Err ''too many data writing'' else Ok ())) (\<lambda>_.
     op_bind (on_cache (cache_remove_file root)) (\<lambda>f.
       case f of
         None \<Rightarrow> op_lift (Err ''file not found to write into store'')
       | Some file \<Rightarrow>
           op_bind (on_ctrl (op_modify (\<lambda>wc. wc\<lparr>total_writings := total_writings wc + 1\<rparr>))) (\<lambda>_.
           op_lift (Ok (mcf_id file, cached_chunk_num file, map snd (segments file))))))"

text \<open>
  The pool with the log store behind it and the channel to the worker. A call of the store runs in a task
  of its own (\<^verbatim>\<open>node/storage-async/src/lib.rs\<close>): when the task panics, the caller gets an error.
\<close>

record memory_chunk_pool =
  inner :: pool_inner
  log_store :: log_manager
  finalize_queue :: "file_id list"

definition locked :: "(pool_inner, 'a) op \<Rightarrow> (memory_chunk_pool, 'a) op" where
  "locked m p = (case m (inner p) of (i, r) \<Rightarrow> (p\<lparr>inner := i\<rparr>, r))"

definition store_spawn :: "(log_manager, 'a) op \<Rightarrow> (log_manager, 'a) op" where
  "store_spawn m lm = (case m lm of (lm, Panic p) \<Rightarrow> (lm, Err ''Receiver error'') | (lm, r) \<Rightarrow> (lm, r))"

definition in_store :: "(log_manager, 'a) op \<Rightarrow> (memory_chunk_pool, 'a) op" where
  "in_store m p = (case store_spawn m (log_store p) of (lm, r) \<Rightarrow> (p\<lparr>log_store := lm\<rparr>, r))"

definition send_finalize :: "file_id \<Rightarrow> (memory_chunk_pool, unit) op" where
  "send_finalize i = op_modify (\<lambda>p. p\<lparr>finalize_queue := finalize_queue p @ [i]\<rparr>)"

text \<open>The outcome of a call, errors included.\<close>

definition op_try :: "('s, 'a) op \<Rightarrow> ('s, 'a res) op" where
  "op_try m s = (case m s of (s, Panic p) \<Rightarrow> (s, Panic p) | (s, r) \<Rightarrow> (s, Ok r))"

definition validate_segment_size :: "byte list \<Rightarrow> unit res" where
  "validate_segment_size segment =
     (if segment = [] then Err ''data is empty''
      else if length segment mod CHUNK_SIZE \<noteq> 0 then Err ''invalid data length'' else Ok ())"

text \<open>The cached segments are popped from the end; a write that fails ends the loop.\<close>

fun write_cached_segments ::
  "(byte list \<Rightarrow> h256) \<Rightarrow> (transaction \<Rightarrow> byte list) \<Rightarrow> file_id \<Rightarrow> h256 \<Rightarrow> nat \<Rightarrow> chunk_array list \<Rightarrow> (memory_chunk_pool, unit) op" where
  "write_cached_segments keccak ssz i root n [] = op_lift (Ok ())"
| "write_cached_segments keccak ssz i root n (seg # segs) =
     op_bind (op_try (in_store (put_chunks_with_tx_hash keccak ssz (id_seq (fid_tx_id i)) (id_hash (fid_tx_id i)) seg))) (\<lambda>r.
       case r of
         Ok True \<Rightarrow> write_cached_segments keccak ssz i root n segs
       | Ok False \<Rightarrow> op_bind (locked (on_write_cache_failed root n)) (\<lambda>_. op_lift (Err ''Transaction reverted, please upload again''))
       | Err e \<Rightarrow> op_bind (locked (on_write_cache_failed root n)) (\<lambda>_. op_lift (Err e))
       | Panic e \<Rightarrow> op_lift (Panic e))"

definition write_all_cached_chunks_and_finalize ::
  "(byte list \<Rightarrow> h256) \<Rightarrow> (transaction \<Rightarrow> byte list) \<Rightarrow> pool_config \<Rightarrow> h256 \<Rightarrow> (memory_chunk_pool, unit) op" where
  "write_all_cached_chunks_and_finalize keccak ssz cfg root =
     op_bind (locked (get_all_cached_segments_to_write cfg root)) (\<lambda>(i, n, segs).
     op_bind (write_cached_segments keccak ssz i root n (rev segs)) (\<lambda>_.
     op_bind (locked (on_write_cache_succeeded root n)) (\<lambda>_. send_finalize i)))"

definition cache_chunks ::
  "(byte list \<Rightarrow> h256) \<Rightarrow> (transaction \<Rightarrow> byte list) \<Rightarrow> (h256 \<Rightarrow> (h256, memory_cached_file) hmap \<Rightarrow> (h256, memory_cached_file) hmap) \<Rightarrow>
     pool_config \<Rightarrow> nat \<Rightarrow> segment_info \<Rightarrow> (memory_chunk_pool, unit) op" where
  "cache_chunks keccak ssz touch cfg now info =
     op_bind (locked (on_cache (cache_segment touch cfg now info))) (\<lambda>file_completed.
       if file_completed then write_all_cached_chunks_and_finalize keccak ssz cfg (si_root info)
       else op_lift (Ok ()))"

definition write_chunks ::
  "(byte list \<Rightarrow> h256) \<Rightarrow> (transaction \<Rightarrow> byte list) \<Rightarrow> pool_config \<Rightarrow> segment_info \<Rightarrow> file_id \<Rightarrow> nat \<Rightarrow> (memory_chunk_pool, unit) op" where
  "write_chunks keccak ssz cfg info i file_size =
     op_bind (op_lift (compute_segment_size (bytes_to_chunks file_size) (chunks_per_segment info))) (\<lambda>(total_segs, _).
     op_bind (locked (on_ctrl (write_segment cfg i (seg_index info) total_segs))) (\<lambda>_.
     op_bind (op_try (in_store (put_chunks_with_tx_hash keccak ssz (id_seq (fid_tx_id i)) (id_hash (fid_tx_id i)) (segment_chunks info)))) (\<lambda>r.
       case r of
         Ok True \<Rightarrow>
           op_bind (locked (on_ctrl (on_write_succeeded (si_root info) (seg_index info)))) (\<lambda>all_uploaded.
             if all_uploaded then send_finalize i else op_lift (Ok ()))
       | Ok False \<Rightarrow>
           op_bind (locked (on_ctrl (on_write_failed (si_root info) (seg_index info)))) (\<lambda>_.
           op_bind (locked (on_ctrl (ctrl_remove_file (si_root info)))) (\<lambda>_.
             op_lift (Err ''Transaction reverted, please upload again'')))
       | Err e \<Rightarrow> op_bind (locked (on_ctrl (on_write_failed (si_root info) (seg_index info)))) (\<lambda>_. op_lift (Err e))
       | Panic e \<Rightarrow> op_lift (Panic e))))"

definition update_file_info ::
  "(byte list \<Rightarrow> h256) \<Rightarrow> (transaction \<Rightarrow> byte list) \<Rightarrow> transaction \<Rightarrow> (memory_chunk_pool, bool) op" where
  "update_file_info keccak ssz tx p =
     (let c = segment_cache (inner p); root = data_merkle_root tx
      in case hm_get (cache_files c) root of
           None \<Rightarrow> (p, Ok False)
         | Some file \<Rightarrow>
             let file = update_with_tx keccak ssz tx file;
                 p = p\<lparr>inner := (inner p)\<lparr>segment_cache := c\<lparr>cache_files := hm_insert root file (cache_files c)\<rparr>\<rparr>\<rparr>
             in if cached_chunk_num file < file_total_chunks file then (p, Ok True)
                else op_bind (send_finalize \<lparr>fid_root = root, fid_tx_id = tx_get_id keccak ssz tx\<rparr>) (\<lambda>_. op_lift (Ok True)) p)"

definition remove_cached_file :: "h256 \<Rightarrow> (memory_chunk_pool, memory_cached_file option) op" where
  "remove_cached_file root = locked (on_cache (cache_remove_file root))"

definition pool_remove_file :: "h256 \<Rightarrow> (memory_chunk_pool, bool) op" where
  "pool_remove_file root =
     op_bind (locked (on_cache (cache_remove_file root))) (\<lambda>f.
       if f \<noteq> None then op_lift (Ok True)
       else op_bind (locked (on_ctrl (ctrl_remove_file root))) (\<lambda>f. op_lift (Ok (f \<noteq> None))))"

definition check_already_has_cache :: "memory_chunk_pool \<Rightarrow> h256 \<Rightarrow> bool" where
  "check_already_has_cache p root = (cache_get_file (segment_cache (inner p)) root \<noteq> None)"

definition get_uploaded_seg_num :: "memory_chunk_pool \<Rightarrow> h256 \<Rightarrow> nat \<times> bool" where
  "get_uploaded_seg_num p root =
     (case cache_get_file (segment_cache (inner p)) root of
        Some file \<Rightarrow> (cached_chunk_num file, True)
      | None \<Rightarrow> (case ctrl_get_file (write_control (inner p)) root of
                   Some file \<Rightarrow> (uploaded_seg_num file, False)
                 | None \<Rightarrow> (0, False)))"

subsection \<open>The worker\<close>

text \<open>The worker with the channel to the network service; the messages it sent are \<open>announced\<close>.\<close>

record pool_handler =
  mem_pool :: memory_chunk_pool
  announced :: "tx_id list"

definition on_pool :: "(memory_chunk_pool, 'a) op \<Rightarrow> (pool_handler, 'a) op" where
  "on_pool m h = (case m (mem_pool h) of (p, r) \<Rightarrow> (h\<lparr>mem_pool := p\<rparr>, r))"

fun handle_segments ::
  "(byte list \<Rightarrow> h256) \<Rightarrow> (transaction \<Rightarrow> byte list) \<Rightarrow> file_id \<Rightarrow> chunk_array list \<Rightarrow> (pool_handler, bool) op" where
  "handle_segments keccak ssz i [] = op_lift (Ok True)"
| "handle_segments keccak ssz i (seg # segs) =
     op_bind (on_pool (in_store (put_chunks_with_tx_hash keccak ssz (id_seq (fid_tx_id i)) (id_hash (fid_tx_id i)) seg))) (\<lambda>ok.
       if \<not> ok then op_lift (Ok False) else handle_segments keccak ssz i segs)"

definition handle_file :: "(byte list \<Rightarrow> h256) \<Rightarrow> (transaction \<Rightarrow> byte list) \<Rightarrow> file_id \<Rightarrow> (pool_handler, bool) op" where
  "handle_file keccak ssz i =
     op_bind (on_pool (remove_cached_file (fid_root i))) (\<lambda>f.
     op_bind (case f of None \<Rightarrow> op_lift (Ok True)
                      | Some file \<Rightarrow> handle_segments keccak ssz i (rev (map snd (segments file)))) (\<lambda>written.
       if \<not> written then op_lift (Ok False)
       else op_bind (on_pool (in_store (finalize_tx_with_hash keccak ssz (id_seq (fid_tx_id i)) (id_hash (fid_tx_id i))))) (\<lambda>ok.
         if \<not> ok then op_lift (Ok False)
         else op_bind (on_pool (pool_remove_file (fid_root i))) (\<lambda>_.
              op_bind (op_modify (\<lambda>h. h\<lparr>announced := announced h @ [fid_tx_id i]\<rparr>)) (\<lambda>_. op_lift (Ok True))))))"

text \<open>One round of the worker; an empty channel keeps it waiting, which is \<open>None\<close>.\<close>

definition handle :: "(byte list \<Rightarrow> h256) \<Rightarrow> (transaction \<Rightarrow> byte list) \<Rightarrow> pool_handler \<Rightarrow> (pool_handler \<times> bool res) option" where
  "handle keccak ssz h =
     (case finalize_queue (mem_pool h) of
        [] \<Rightarrow> None
      | i # q \<Rightarrow> Some (handle_file keccak ssz i (h\<lparr>mem_pool := (mem_pool h)\<lparr>finalize_queue := q\<rparr>\<rparr>)))"

end
