(* ===== verification/Chunk_Pool_Correct.thy ===== *)
theory Chunk_Pool_Correct
  imports Chunk_Write_Control "HOL-Library.Multiset"
begin

text \<open>
  The properties of the chunk pool: the accounting of the cache, the sliding window as the set of the
  segments that are uploaded, the writers of all files under any interleaving, and what happens when a
  cached file completes and when a segment is uploaded twice.
\<close>

subsection \<open>The cache\<close>

definition file_ok :: "memory_cached_file \<Rightarrow> bool" where
  "file_ok f \<longleftrightarrow> hm_wf (segments f) \<and>
     cached_chunk_num f = sum_list (map (\<lambda>(_, a). length (ca_data a) div CHUNK_SIZE) (segments f))"

definition cache_ok :: "pool_config \<Rightarrow> chunk_pool_cache \<Rightarrow> bool" where
  "cache_ok cfg c \<longleftrightarrow> hm_wf (cache_files c) \<and> (\<forall>(_, f) \<in> set (cache_files c). file_ok f) \<and>
     cache_total_chunks c = sum_list (map (\<lambda>(_, f). cached_chunk_num f) (cache_files c)) \<and>
     cache_total_chunks c \<le> max_cached_chunks_all cfg"

lemma cache_okD:
  assumes "cache_ok cfg c"
  shows "hm_wf (cache_files c)" "\<And>r f. hm_get (cache_files c) r = Some f \<Longrightarrow> file_ok f"
    "cache_total_chunks c = sum_list (map (\<lambda>(_, f). cached_chunk_num f) (cache_files c))"
    "cache_total_chunks c \<le> max_cached_chunks_all cfg"
proof -
  show "hm_wf (cache_files c)" "cache_total_chunks c = sum_list (map (\<lambda>(_, f). cached_chunk_num f) (cache_files c))"
    "cache_total_chunks c \<le> max_cached_chunks_all cfg" using assms unfolding cache_ok_def by blast+
  show "file_ok f" if "hm_get (cache_files c) r = Some f" for r f
    using assms map_of_SomeD [OF that] unfolding cache_ok_def by blast
qed

lemma sum_list_update:
  assumes "hm_wf m"
  shows "sum_list (map (\<lambda>(_, v). g v) (hm_insert k v m)) + (case hm_get m k of Some u \<Rightarrow> g u | None \<Rightarrow> 0) =
    sum_list (map (\<lambda>(_, v). g v) m) + (g v :: nat)"
  using assms
proof (induction m)
  case (Cons p m)
  then show ?case
    by (cases p) (auto simp: map_of_eq_None_iff split: option.splits)
qed simp

lemma sum_list_remove:
  assumes "hm_wf m" "hm_get m k = Some u"
  shows "sum_list (map (\<lambda>(_, v). g v) (hm_remove k m)) + (g u :: nat) = sum_list (map (\<lambda>(_, v). g v) m)"
  using assms
proof (induction m)
  case (Cons p m)
  obtain a b where p: "p = (a, b)" by (cases p)
  show ?case
  proof (cases "a = k")
    case True
    then have "hm_get m k = None" using Cons.prems p by (simp add: map_of_eq_None_iff)
    then have "hm_remove k m = m" by (simp add: delete_id map_of_eq_None_iff)
    then show ?thesis using True Cons.prems p by simp
  next
    case False
    then show ?thesis using Cons p by simp
  qed
qed simp

lemma set_hm_insert: "(k', f) \<in> set (hm_insert k v m) \<Longrightarrow> (k', f) = (k, v) \<or> (k', f) \<in> set m"
  by (induction m) (auto split: if_splits)

lemma cache_remove_file_ok:
  assumes ok: "cache_ok cfg c"
  shows "\<exists>c'. cache_remove_file root c = (c', Ok (hm_get (cache_files c) root)) \<and> cache_ok cfg c' \<and>
     cache_files c' = hm_remove root (cache_files c)"
proof (cases "hm_get (cache_files c) root")
  case None
  then have "hm_remove root (cache_files c) = cache_files c" by (simp add: delete_id map_of_eq_None_iff)
  then show ?thesis using None ok by (simp add: cache_remove_file_def)
next
  case (Some f)
  let ?c = "c\<lparr>cache_files := hm_remove root (cache_files c), cache_total_chunks := cache_total_chunks c - cached_chunk_num f\<rparr>"
  note D = cache_okD [OF ok]
  have s: "sum_list (map (\<lambda>(_, f). cached_chunk_num f) (hm_remove root (cache_files c))) + cached_chunk_num f = cache_total_chunks c"
    using sum_list_remove [OF D(1) Some, of cached_chunk_num] D(3) by simp
  have "set (hm_remove root (cache_files c)) \<subseteq> set (cache_files c)" by (auto simp: AList.delete_eq)
  then have "cache_ok cfg ?c" using ok s D(4) by (auto simp: cache_ok_def distinct_delete)
  moreover have "cache_remove_file root c = (?c, Ok (Some f))"
    using Some s by (simp add: cache_remove_file_def update_total_chunks_when_remove_file_def op_defs assert_that_def)
  ultimately show ?thesis using Some by (intro exI [of _ ?c]) simp
qed

lemma collect_expired_ok:
  "cache_ok cfg c \<Longrightarrow> cache_files c = fs \<Longrightarrow>
     \<exists>c'. collect_expired now fs c = (c', Ok ()) \<and> cache_ok cfg c' \<and> cache_files c' = dropWhile (\<lambda>(_, f). expired_at f \<le> now) fs"
proof (induction fs arbitrary: c)
  case (Cons p fs)
  obtain r f where p: "p = (r, f)" by (cases p)
  show ?case
  proof (cases "now < expired_at f")
    case True
    then show ?thesis using Cons.prems p by (simp add: op_lift_def)
  next
    case False
    let ?c = "c\<lparr>cache_files := fs, cache_total_chunks := cache_total_chunks c - cached_chunk_num f\<rparr>"
    have "cache_ok cfg ?c" "cached_chunk_num f \<le> cache_total_chunks c" using Cons.prems p by (auto simp: cache_ok_def)
    moreover from this(1) obtain c' where "collect_expired now fs ?c = (c', Ok ())" "cache_ok cfg c'"
      "cache_files c' = dropWhile (\<lambda>(_, f). expired_at f \<le> now) fs" using Cons.IH [of ?c] by auto
    ultimately show ?thesis using False p
      by (simp add: update_total_chunks_when_remove_file_def op_update_def op_bind_def op_modify_def)
  qed
qed (simp add: op_lift_def)

lemma cache_ok_reorder:
  assumes "cache_ok cfg c" and m: "mset fs = mset (cache_files c)"
  shows "cache_ok cfg (c\<lparr>cache_files := fs\<rparr>)"
proof -
  have "set fs = set (cache_files c)" using m by (rule mset_eq_setD)
  moreover have "mset (map fst fs) = mset (map fst (cache_files c))" using m by simp
  then have "distinct (map fst fs) = distinct (map fst (cache_files c))" by (rule mset_eq_imp_distinct_iff)
  moreover have "mset (map (\<lambda>(_, f). cached_chunk_num f) fs) = mset (map (\<lambda>(_, f). cached_chunk_num f) (cache_files c))"
    using m by simp
  then have "sum_list (map (\<lambda>(_, f). cached_chunk_num f) fs) = sum_list (map (\<lambda>(_, f). cached_chunk_num f) (cache_files c))"
    by (metis sum_mset_sum_list)
  ultimately show ?thesis using assms(1) by (simp add: cache_ok_def)
qed

lemma file_entry_ok:
  assumes ok: "cache_ok cfg c" and touch: "\<And>m. mset (touch root m) = mset m"
  shows "\<exists>c' f. file_entry touch cfg now root c = (c', Ok f) \<and> cache_ok cfg c' \<and> hm_get (cache_files c') root = Some f"
proof (cases "hm_get (cache_files c) root")
  case None
  let ?f = "new_cached_file root (expiration_time cfg) now"
  have "file_ok ?f" "cached_chunk_num ?f = 0" by (simp_all add: new_cached_file_def file_ok_def)
  then have "cache_ok cfg (c\<lparr>cache_files := cache_files c @ [(root, ?f)]\<rparr>)"
    using ok None by (auto simp: cache_ok_def map_of_eq_None_iff)
  then show ?thesis using None by (simp add: file_entry_def Let_def map_add_def)
next
  case (Some f)
  let ?fs = "touch root (cache_files c)"
  have ok': "cache_ok cfg (c\<lparr>cache_files := ?fs\<rparr>)" by (rule cache_ok_reorder [OF ok touch])
  have "set ?fs = set (cache_files c)" using touch by (rule mset_eq_setD)
  then have "map_of ?fs = map_of (cache_files c)"
    using map_of_inject_set [of ?fs "cache_files c"] cache_okD(1) [OF ok] cache_okD(1) [OF ok'] by simp
  then show ?thesis using Some ok' by (simp add: file_entry_def)
qed

lemma cache_put_segment_ok:
  fixes t :: nat
  assumes ok: "cache_ok cfg c" and f: "hm_get (cache_files c) root = Some f" and new: "hm_get (segments f) i = None"
    and room: "cache_total_chunks c + length (ca_data a) div CHUNK_SIZE \<le> max_cached_chunks_all cfg"
  defines "f' \<equiv> f\<lparr>cached_chunk_num := cached_chunk_num f + length (ca_data a) div CHUNK_SIZE, expired_at := t,
      segments := hm_insert i a (segments f)\<rparr>"
  shows "cache_ok cfg (c\<lparr>cache_total_chunks := cache_total_chunks c + length (ca_data a) div CHUNK_SIZE,
      cache_files := hm_insert root f' (cache_files c)\<rparr>)"
proof -
  note D = cache_okD [OF ok]
  have fo: "file_ok f" by (rule D(2) [OF f])
  then have "file_ok f'"
    using sum_list_update [of "segments f" "\<lambda>a. length (ca_data a) div CHUNK_SIZE" i a] new by (simp add: file_ok_def f'_def distinct_update)
  then have files: "\<forall>(_, g) \<in> set (hm_insert root f' (cache_files c)). file_ok g"
    using ok set_hm_insert [of _ _ root f' "cache_files c"] unfolding cache_ok_def by fastforce
  have "sum_list (map (\<lambda>(_, f). cached_chunk_num f) (hm_insert root f' (cache_files c))) + cached_chunk_num f =
      cache_total_chunks c + cached_chunk_num f'"
    using sum_list_update [OF D(1), of cached_chunk_num root f'] f D(3) by simp
  then show ?thesis using D(1) files room by (simp add: cache_ok_def distinct_update f'_def)
qed

lemma cache_segment_ok:
  assumes ok: "cache_ok cfg c" and touch: "\<And>root m. mset (touch root m) = mset m"
  shows "\<exists>c' r. cache_segment touch cfg now info c = (c', r) \<and> cache_ok cfg c' \<and>
     (case r of
        Ok b \<Rightarrow> \<exists>f. hm_get (cache_files c') (si_root info) = Some f \<and> hm_get (segments f) (seg_index info) \<noteq> None \<and> b = is_completed f
      | Err e \<Rightarrow> max_cached_chunks_all cfg < cache_total_chunks c' + length (seg_data info) div CHUNK_SIZE
      | Panic p \<Rightarrow> False)"
proof -
  obtain c1 where c1: "garbage_collect now c = (c1, Ok ())" "cache_ok cfg c1"
    using collect_expired_ok [OF ok refl, of now] unfolding garbage_collect_def by blast
  obtain c2 f where c2: "file_entry touch cfg now (si_root info) c1 = (c2, Ok f)" "cache_ok cfg c2"
    "hm_get (cache_files c2) (si_root info) = Some f"
    using file_entry_ok [OF c1(2), of touch "si_root info" now] touch by blast
  let ?n = "length (seg_data info) div CHUNK_SIZE"
  let ?f = "f\<lparr>cached_chunk_num := cached_chunk_num f + ?n, expired_at := now + expiration_time cfg,
      segments := hm_insert (seg_index info) (segment_chunks info) (segments f)\<rparr>"
  let ?c = "c2\<lparr>cache_total_chunks := cache_total_chunks c2 + ?n, cache_files := hm_insert (si_root info) ?f (cache_files c2)\<rparr>"
  have run: "cache_segment touch cfg now info c =
      (if hm_get (segments f) (seg_index info) \<noteq> None then (c2, Ok (is_completed f))
       else if max_cached_chunks_all cfg < cache_total_chunks c2 + ?n
       then (c2, Err ''exceeds the maximum cached chunks of whole pool'') else (?c, Ok (is_completed ?f)))"
    by (simp add: cache_segment_def op_bind_def c1 c2 op_lift_def op_read_def op_modify_def Let_def)
  show ?thesis
  proof (cases "hm_get (segments f) (seg_index info)")
    case None
    show ?thesis
    proof (cases "max_cached_chunks_all cfg < cache_total_chunks c2 + ?n")
      case False
      then have "cache_ok cfg ?c"
        using cache_put_segment_ok [OF c2(2,3) None, of "segment_chunks info" "now + expiration_time cfg"] by (simp add: segment_chunks_def)
      then show ?thesis using run None False by simp
    qed (use run None c2 in simp)
  qed (use run c2 in simp)
qed

text \<open>
  C35. The accounting of the chunk cache. Every operation of the cache keeps it: the pool's counter is the
  number of chunks of all cached segments and never exceeds the limit, and each file's counter is that
  of its own segments. Caching a segment never panics: it ends with the segment cached and reports whether
  the file is complete, or refuses it because the pool would exceed its limit. Removing a file and
  collecting garbage never panic either; garbage collection drops exactly the expired files at the front.
\<close>

theorem chunk_cache_accounting:
  assumes "cache_ok cfg c" and "\<And>root m. mset (touch root m) = mset m"
  shows "(\<exists>c' r. cache_segment touch cfg now info c = (c', r) \<and> cache_ok cfg c' \<and>
       (case r of
          Ok b \<Rightarrow> \<exists>f. hm_get (cache_files c') (si_root info) = Some f \<and> hm_get (segments f) (seg_index info) \<noteq> None \<and> b = is_completed f
        | Err e \<Rightarrow> max_cached_chunks_all cfg < cache_total_chunks c' + length (seg_data info) div CHUNK_SIZE
        | Panic p \<Rightarrow> False)) \<and>
     (\<exists>c'. cache_remove_file root c = (c', Ok (hm_get (cache_files c) root)) \<and> cache_ok cfg c' \<and>
        cache_files c' = hm_remove root (cache_files c)) \<and>
     (\<exists>c'. garbage_collect now c = (c', Ok ()) \<and> cache_ok cfg c' \<and>
        cache_files c' = dropWhile (\<lambda>(_, f). expired_at f \<le> now) (cache_files c))"
  unfolding garbage_collect_def
  by (intro conjI)
    (rule cache_segment_ok [OF assms(1)], rule assms(2), rule cache_remove_file_ok [OF assms(1)], rule collect_expired_ok [OF assms(1) refl])

definition example_config :: pool_config where
  "example_config = \<lparr>write_window_size = 4, max_cached_chunks_all = 8, max_writings = 2, expiration_time_secs = 300\<rparr>"

definition example_segment :: segment_info where
  "example_segment = \<lparr>si_root = [1], seg_data = replicate 256 5, seg_index = 0, chunks_per_segment = 4\<rparr>"

lemma new_chunk_pool_cache_ok: "cache_ok cfg new_chunk_pool_cache"
  by (simp add: cache_ok_def new_chunk_pool_cache_def)

theorem chunk_cache_accounting_witness:
  "\<exists>c' r. cache_segment (\<lambda>root m. filter (\<lambda>p. fst p \<noteq> root) m @ filter (\<lambda>p. fst p = root) m) example_config 0 example_segment
      new_chunk_pool_cache = (c', r) \<and> cache_ok example_config c' \<and> cache_total_chunks c' \<le> 8"
proof -
  have touch: "mset (filter (\<lambda>p. fst p \<noteq> root) m @ filter (\<lambda>p. fst p = root) m) = mset m" for root :: h256 and m :: "(h256, memory_cached_file) hmap"
    by (induction m) auto
  from chunk_cache_accounting [OF new_chunk_pool_cache_ok, of "\<lambda>root m. filter (\<lambda>p. fst p \<noteq> root) m @ filter (\<lambda>p. fst p = root) m", OF touch]
  obtain c' r where "cache_segment (\<lambda>root m. filter (\<lambda>p. fst p \<noteq> root) m @ filter (\<lambda>p. fst p = root) m) example_config 0 example_segment
      new_chunk_pool_cache = (c', r)" "cache_ok example_config c'" by blast
  then show ?thesis using cache_okD(4) by (fastforce simp: example_config_def)
qed

subsection \<open>The sliding window\<close>

text \<open>The segments of a file that are uploaded.\<close>

definition uploaded :: "ctrl_window \<Rightarrow> nat set" where
  "uploaded w = {i. i < left_boundary w \<or> hm_get (slots w) i = Some Finished}"

definition window_ok :: "ctrl_window \<Rightarrow> bool" where
  "window_ok w \<longleftrightarrow> (\<forall>i. hm_get (slots w) i \<noteq> None \<longrightarrow> left_boundary w \<le> i \<and> i < left_boundary w + win_size w) \<and>
     hm_get (slots w) (left_boundary w) \<noteq> Some Finished"

lemma window_left_least: "window_ok w \<Longrightarrow> left_boundary w = (LEAST i. i \<notin> uploaded w)"
  by (rule Least_equality [symmetric]) (auto simp: window_ok_def uploaded_def not_less)

lemma move_forward_correct:
  "move_forward left sl = (left', sl') \<Longrightarrow>
     left \<le> left' \<and> hm_get sl' left' \<noteq> Some Finished \<and> (\<forall>i. left \<le> i \<and> i < left' \<longrightarrow> hm_get sl i = Some Finished) \<and>
     (\<forall>i. hm_get sl' i = (if left \<le> i \<and> i < left' then None else hm_get sl i))"
proof (induction left sl rule: move_forward.induct)
  case (1 left sl)
  show ?case
  proof (cases "hm_get sl left = Some Finished")
    case True
    then have "move_forward (left + 1) (hm_remove left sl) = (left', sl')" using "1.prems" by (subst (asm) move_forward.simps) simp
    from "1.IH" [OF True this] have I: "left + 1 \<le> left'" "hm_get sl' left' \<noteq> Some Finished"
      "\<And>i. left + 1 \<le> i \<Longrightarrow> i < left' \<Longrightarrow> hm_get (hm_remove left sl) i = Some Finished"
      "\<And>i. hm_get sl' i = (if left + 1 \<le> i \<and> i < left' then None else hm_get (hm_remove left sl) i)" by blast+
    have "hm_get sl i = Some Finished" if "left \<le> i" "i < left'" for i
      using that I(3) [of i] True by (cases "i = left") auto
    moreover have "hm_get sl' i = (if left \<le> i \<and> i < left' then None else hm_get sl i)" for i
      using I(1) I(4) [of i] by (cases "i = left") auto
    ultimately show ?thesis using I(1,2) by simp
  next
    case False
    then show ?thesis using "1.prems" by (subst (asm) move_forward.simps) auto
  qed
qed

text \<open>Finishing a segment in writing adds it to the uploaded ones and moves the window to the first gap.\<close>

lemma finish_writing_correct:
  assumes ok: "window_ok w" and w: "hm_get (slots w) i = Some Writing"
  obtains w' where "finish_writing i w = (w', Ok ())" "window_ok w'" "uploaded w' = insert i (uploaded w)" "win_size w' = win_size w"
    "\<And>j. hm_get (slots w') j = Some Writing \<longleftrightarrow> j \<noteq> i \<and> hm_get (slots w) j = Some Writing"
proof -
  let ?sl = "hm_insert i Finished (slots w)"
  obtain left sl where mv: "move_forward (left_boundary w) ?sl = (left, sl)" by fastforce
  let ?w = "w\<lparr>left_boundary := left, slots := sl\<rparr>"
  from move_forward_correct [OF mv] have m: "left_boundary w \<le> left" "hm_get sl left \<noteq> Some Finished"
    "\<And>j. left_boundary w \<le> j \<Longrightarrow> j < left \<Longrightarrow> hm_get ?sl j = Some Finished"
    "\<And>j. hm_get sl j = (if left_boundary w \<le> j \<and> j < left then None else hm_get ?sl j)" by blast+
  have dom: "left_boundary w \<le> j \<and> j < left_boundary w + win_size w" if "hm_get (slots w) j \<noteq> None" for j
    using ok that by (simp add: window_ok_def)
  have run: "finish_writing i w = (?w, Ok ())" using w mv by (simp add: finish_writing_def Let_def)
  have "window_ok ?w"
    unfolding window_ok_def using m(1,2) dom [of i] dom w by (auto simp: m(4) split: if_splits) force+
  moreover have "j \<in> uploaded ?w \<longleftrightarrow> j \<in> insert i (uploaded w)" for j
    using m(1,4) m(3) [of j] dom [of i] w by (auto simp: uploaded_def not_less split: if_splits)
  then have "uploaded ?w = insert i (uploaded w)" by blast
  moreover have "hm_get (slots ?w) j = Some Writing \<longleftrightarrow> j \<noteq> i \<and> hm_get (slots w) j = Some Writing" for j
    using m(3) [of j] m(4) [of j] by (auto split: if_splits)
  ultimately show thesis using that [of ?w] run by simp
qed

subsection \<open>The writers of all files\<close>

text \<open>
  The calls of the control in any interleaving, with the set of the segments being written. A segment
  is fresh when its file is not known yet, or is known under the same identity and the segment is neither
  uploaded nor being written; a file is removed when none of its segments is being written.
\<close>

definition fresh :: "chunk_pool_write_ctrl \<Rightarrow> file_id \<Rightarrow> nat \<Rightarrow> bool" where
  "fresh wc i idx \<longleftrightarrow> (\<forall>f. hm_get (ctrl_files wc) (fid_root i) = Some f \<longrightarrow> fwc_id f = i \<and> \<not> check_duplicate (window f) idx)"

inductive writers :: "pool_config \<Rightarrow> chunk_pool_write_ctrl \<Rightarrow> (h256 \<times> nat) set \<Rightarrow> bool" for cfg where
  none: "writers cfg new_write_ctrl {}"
| start: "writers cfg wc A \<Longrightarrow> fresh wc i idx \<Longrightarrow> write_segment cfg i idx n wc = (wc', Ok ()) \<Longrightarrow> writers cfg wc' (insert (fid_root i, idx) A)"
| refused: "writers cfg wc A \<Longrightarrow> fresh wc i idx \<Longrightarrow> write_segment cfg i idx n wc = (wc', Err e) \<Longrightarrow> writers cfg wc' A"
| succeeded: "writers cfg wc A \<Longrightarrow> (r, idx) \<in> A \<Longrightarrow> on_write_succeeded r idx wc = (wc', Ok b) \<Longrightarrow> writers cfg wc' (A - {(r, idx)})"
| failed: "writers cfg wc A \<Longrightarrow> (r, idx) \<in> A \<Longrightarrow> on_write_failed r idx wc = (wc', Ok ()) \<Longrightarrow> writers cfg wc' (A - {(r, idx)})"
| removed: "writers cfg wc A \<Longrightarrow> (\<And>idx. (r, idx) \<notin> A) \<Longrightarrow> ctrl_remove_file r wc = (wc', Ok f) \<Longrightarrow> writers cfg wc' A"

definition ctrl_ok :: "pool_config \<Rightarrow> chunk_pool_write_ctrl \<Rightarrow> (h256 \<times> nat) set \<Rightarrow> bool" where
  "ctrl_ok cfg wc A \<longleftrightarrow> finite A \<and> total_writings wc = card A \<and> card A \<le> max_writings cfg \<and>
     (\<forall>r f. hm_get (ctrl_files wc) r = Some f \<longrightarrow> window_ok (window f) \<and> win_size (window f) = write_window_size cfg) \<and>
     (\<forall>r i. (r, i) \<in> A \<longleftrightarrow> (\<exists>f. hm_get (ctrl_files wc) r = Some f \<and> hm_get (slots (window f)) i = Some Writing))"

lemma ctrl_okD:
  assumes "ctrl_ok cfg wc A"
  shows "finite A" "total_writings wc = card A" "card A \<le> max_writings cfg"
    "\<And>r f. hm_get (ctrl_files wc) r = Some f \<Longrightarrow> window_ok (window f) \<and> win_size (window f) = write_window_size cfg"
    "\<And>r i. (r, i) \<in> A \<longleftrightarrow> (\<exists>f. hm_get (ctrl_files wc) r = Some f \<and> hm_get (slots (window f)) i = Some Writing)"
  using assms unfolding ctrl_ok_def by (elim conjE, simp)+

text \<open>Replacing the window of one file.\<close>

lemma ctrl_ok_window:
  assumes ok: "ctrl_ok cfg wc A" and w: "window_ok w" "win_size w = write_window_size cfg"
    and f: "\<And>i. hm_get (slots w) i = Some Writing \<longleftrightarrow> (r, i) \<in> B"
    and B: "\<And>r' i. r' \<noteq> r \<Longrightarrow> (r', i) \<in> B \<longleftrightarrow> (r', i) \<in> A" "finite B" "card B \<le> max_writings cfg" "window g = w"
  shows "ctrl_ok cfg (wc\<lparr>ctrl_files := hm_insert r g (ctrl_files wc), total_writings := card B\<rparr>) B"
  unfolding ctrl_ok_def
proof (intro conjI allI impI)
  fix r' h
  assume h: "hm_get (ctrl_files (wc\<lparr>ctrl_files := hm_insert r g (ctrl_files wc), total_writings := card B\<rparr>)) r' = Some h"
  show "window_ok (window h)" "win_size (window h) = write_window_size cfg"
    using h w B(4) ctrl_okD(4) [OF ok, of r' h] by (auto split: if_splits)
next
  fix r' i
  show "(r', i) \<in> B \<longleftrightarrow> (\<exists>h. hm_get (ctrl_files (wc\<lparr>ctrl_files := hm_insert r g (ctrl_files wc), total_writings := card B\<rparr>)) r' = Some h \<and>
      hm_get (slots (window h)) i = Some Writing)"
    using f [of i] B(1) [of r' i] B(4) ctrl_okD(5) [OF ok, of r' i] by (cases "r' = r") simp_all
qed (use B in simp_all)

lemma start_writing_ok:
  assumes "window_ok w" "\<not> check_duplicate w idx"
  shows "left_boundary w + win_size w \<le> idx \<and> start_writing idx w = (w, Err ''index exceeds window limit'') \<or>
    (\<exists>w'. start_writing idx w = (w', Ok ()) \<and> window_ok w' \<and> win_size w' = win_size w \<and>
       (\<forall>i. hm_get (slots w') i = (if i = idx then Some Writing else hm_get (slots w) i)) \<and> left_boundary w' = left_boundary w)"
proof (cases "left_boundary w + win_size w \<le> idx")
  case False
  let ?w = "w\<lparr>slots := hm_insert idx Writing (slots w)\<rparr>"
  have "start_writing idx w = (?w, Ok ())" using assms(2) False by (auto simp: start_writing_def check_duplicate_def)
  moreover have "window_ok ?w" using assms False by (auto simp: window_ok_def check_duplicate_def)
  ultimately show ?thesis by simp
qed (use assms(2) in \<open>simp add: start_writing_def check_duplicate_def\<close>)

lemma new_ctrl_window_ok: "window_ok (new_ctrl_window sz)" "\<not> check_duplicate (new_ctrl_window sz) idx" "win_size (new_ctrl_window sz) = sz"
  by (simp_all add: window_ok_def new_ctrl_window_def check_duplicate_def)

lemma write_segment_ok:
  assumes ok: "ctrl_ok cfg wc A" and fr: "fresh wc i idx"
  shows "(\<exists>wc'. write_segment cfg i idx n wc = (wc', Ok ()) \<and> ctrl_ok cfg wc' (insert (fid_root i, idx) A)) \<or>
     (\<exists>wc' e. write_segment cfg i idx n wc = (wc', Err e) \<and> ctrl_ok cfg wc' A)"
proof -
  let ?r = "fid_root i"
  define f where "f = (case hm_get (ctrl_files wc) ?r of Some f \<Rightarrow> f | None \<Rightarrow> new_file_write_ctrl i n (write_window_size cfg))"
  let ?wc = "wc\<lparr>ctrl_files := hm_insert ?r f (ctrl_files wc)\<rparr>"
  have f: "fwc_id f = i" "\<not> check_duplicate (window f) idx" "window_ok (window f)" "win_size (window f) = write_window_size cfg"
    using fr ctrl_okD(4) [OF ok, of ?r] new_ctrl_window_ok
    by (auto simp: f_def fresh_def new_file_write_ctrl_def split: option.splits)
  have slots: "hm_get (slots (window f)) j = Some Writing \<longleftrightarrow> (?r, j) \<in> A" for j
    using ctrl_okD(5) [OF ok, of ?r j] by (auto simp: f_def new_file_write_ctrl_def new_ctrl_window_def split: option.splits)
  have "ctrl_ok cfg (wc\<lparr>ctrl_files := hm_insert ?r f (ctrl_files wc), total_writings := card A\<rparr>) A"
    by (rule ctrl_ok_window [OF ok f(3,4) slots _ ctrl_okD(1,3) [OF ok] refl]) simp
  then have ok1: "ctrl_ok cfg ?wc A" using ctrl_okD(2) [OF ok] unfolding ctrl_ok_def by simp
  show ?thesis
  proof (cases "total_segments f \<noteq> n \<or> max_writings cfg \<le> total_writings wc")
    case True
    then have "\<exists>e. write_segment cfg i idx n wc = (?wc, Err e)"
      using f(1,2) by (auto simp: write_segment_def f_def [symmetric] Let_def)
    then show ?thesis using ok1 by blast
  next
    case False
    then have run: "write_segment cfg i idx n wc = op_bind (on_window ?r f (start_writing idx)) (\<lambda>_.
        op_modify (\<lambda>wc. wc\<lparr>total_writings := total_writings wc + 1\<rparr>)) ?wc"
      using f(1,2) by (simp add: write_segment_def f_def [symmetric] Let_def)
    from start_writing_ok [OF f(3,2)] show ?thesis
    proof
      assume "left_boundary (window f) + win_size (window f) \<le> idx \<and> start_writing idx (window f) = (window f, Err ''index exceeds window limit'')"
      then have "write_segment cfg i idx n wc = (?wc, Err ''index exceeds window limit'')"
        unfolding run by (simp add: op_bind_def on_window_def)
      then show ?thesis using ok1 by blast
    next
      assume "\<exists>w'. start_writing idx (window f) = (w', Ok ()) \<and> window_ok w' \<and> win_size w' = win_size (window f) \<and>
        (\<forall>i. hm_get (slots w') i = (if i = idx then Some Writing else hm_get (slots (window f)) i)) \<and> left_boundary w' = left_boundary (window f)"
      then obtain w' where w': "start_writing idx (window f) = (w', Ok ())" "window_ok w'" "win_size w' = write_window_size cfg"
        "\<And>j. hm_get (slots w') j = (if j = idx then Some Writing else hm_get (slots (window f)) j)" using f(4) by auto
      let ?B = "insert (?r, idx) A"
      have "(?r, idx) \<notin> A" using slots [of idx] f(2) by (auto simp: check_duplicate_def)
      then have B: "card ?B = total_writings wc + 1" "finite ?B" using ctrl_okD(1,2) [OF ok] by simp_all
      have "card ?B \<le> max_writings cfg" using False B by simp
      have "ctrl_ok cfg (wc\<lparr>ctrl_files := hm_insert ?r (f\<lparr>window := w'\<rparr>) (ctrl_files wc), total_writings := card ?B\<rparr>) ?B"
        by (rule ctrl_ok_window [OF ok w'(2,3) _ _ B(2) \<open>card ?B \<le> max_writings cfg\<close>]) (use w'(4) slots in auto)
      then show ?thesis unfolding run using w'(1) B(1) by (simp add: op_bind_def on_window_def op_modify_def)
    qed
  qed
qed

lemma window_left_cover:
  assumes "window_ok w"
  shows "n \<le> left_boundary w \<longleftrightarrow> {..<n} \<subseteq> uploaded w"
proof
  assume "{..<n} \<subseteq> uploaded w"
  moreover have "left_boundary w \<notin> uploaded w" using assms by (simp add: window_ok_def uploaded_def)
  ultimately show "n \<le> left_boundary w" by (metis in_mono lessThan_iff not_le)
qed (auto simp: uploaded_def)

lemma writer_file:
  assumes ok: "ctrl_ok cfg wc A" and m: "(r, idx) \<in> A"
  obtains f where "hm_get (ctrl_files wc) r = Some f" "hm_get (slots (window f)) idx = Some Writing" "window_ok (window f)"
    "win_size (window f) = write_window_size cfg" "0 < total_writings wc"
    "card (A - {(r, idx)}) = total_writings wc - 1" "finite (A - {(r, idx)})" "card (A - {(r, idx)}) \<le> max_writings cfg"
proof -
  obtain f where "hm_get (ctrl_files wc) r = Some f" "hm_get (slots (window f)) idx = Some Writing"
    using ctrl_okD(5) [OF ok, of r idx] m by blast
  moreover have "0 < card A" using ctrl_okD(1) [OF ok] m by (auto simp: card_gt_0_iff)
  ultimately show thesis using that [of f] ctrl_okD(1-3) [OF ok] ctrl_okD(4) [OF ok, of r f] m by simp
qed

lemma on_write_succeeded_ok:
  assumes ok: "ctrl_ok cfg wc A" and m: "(r, idx) \<in> A"
  obtains wc' f f' where "hm_get (ctrl_files wc) r = Some f" "hm_get (ctrl_files wc') r = Some f'"
    "on_write_succeeded r idx wc = (wc', Ok ({..<total_segments f} \<subseteq> insert idx (uploaded (window f))))"
    "uploaded (window f') = insert idx (uploaded (window f))"
    "uploaded_seg_num f' = (LEAST i. i \<notin> insert idx (uploaded (window f)))" "ctrl_ok cfg wc' (A - {(r, idx)})"
proof -
  obtain f where f: "hm_get (ctrl_files wc) r = Some f" "hm_get (slots (window f)) idx = Some Writing" "window_ok (window f)"
    "win_size (window f) = write_window_size cfg" "0 < total_writings wc"
    and A: "card (A - {(r, idx)}) = total_writings wc - 1" "finite (A - {(r, idx)})" "card (A - {(r, idx)}) \<le> max_writings cfg"
    by (rule writer_file [OF ok m])
  obtain w' where w': "finish_writing idx (window f) = (w', Ok ())" "window_ok w'" "uploaded w' = insert idx (uploaded (window f))"
    "win_size w' = win_size (window f)" "\<And>j. hm_get (slots w') j = Some Writing \<longleftrightarrow> j \<noteq> idx \<and> hm_get (slots (window f)) j = Some Writing"
    by (rule finish_writing_correct [OF f(3,2)]) blast
  let ?wc = "wc\<lparr>ctrl_files := hm_insert r (f\<lparr>window := w'\<rparr>) (ctrl_files wc), total_writings := card (A - {(r, idx)})\<rparr>"
  have slots: "hm_get (slots w') j = Some Writing \<longleftrightarrow> (r, j) \<in> A - {(r, idx)}" for j
    using w'(5) [of j] ctrl_okD(5) [OF ok, of r j] f(1) by auto
  have "ctrl_ok cfg ?wc (A - {(r, idx)})"
    by (rule ctrl_ok_window [OF ok w'(2) _ slots _ A(2,3)]) (use w'(4) f(4) in auto)
  moreover have "on_write_succeeded r idx wc = (?wc, Ok ({..<total_segments f} \<subseteq> insert idx (uploaded (window f))))"
    using f(1,5) w'(1) A(1) window_left_cover [OF w'(2), of "total_segments f"]
    by (simp add: on_write_succeeded_def on_window_def op_bind_def release_writer_def op_update_def op_read_def w'(3))
  ultimately show thesis
    using that [of f ?wc "f\<lparr>window := w'\<rparr>"] f(1) w'(3) window_left_least [OF w'(2)] by (simp add: uploaded_seg_num_def)
qed

lemma on_write_failed_ok:
  assumes ok: "ctrl_ok cfg wc A" and m: "(r, idx) \<in> A"
  obtains wc' where "on_write_failed r idx wc = (wc', Ok ())" "ctrl_ok cfg wc' (A - {(r, idx)})"
proof -
  obtain f where f: "hm_get (ctrl_files wc) r = Some f" "hm_get (slots (window f)) idx = Some Writing" "window_ok (window f)"
    "win_size (window f) = write_window_size cfg" "0 < total_writings wc"
    and A: "card (A - {(r, idx)}) = total_writings wc - 1" "finite (A - {(r, idx)})" "card (A - {(r, idx)}) \<le> max_writings cfg"
    by (rule writer_file [OF ok m])
  let ?w = "(window f)\<lparr>slots := hm_remove idx (slots (window f))\<rparr>"
  let ?wc = "wc\<lparr>ctrl_files := hm_insert r (f\<lparr>window := ?w\<rparr>) (ctrl_files wc), total_writings := card (A - {(r, idx)})\<rparr>"
  have "window_ok ?w" using f(3) by (auto simp: window_ok_def)
  moreover have "hm_get (slots ?w) j = Some Writing \<longleftrightarrow> (r, j) \<in> A - {(r, idx)}" for j
    using ctrl_okD(5) [OF ok, of r j] f(1) by auto
  ultimately have "ctrl_ok cfg ?wc (A - {(r, idx)})"
    by (intro ctrl_ok_window [OF ok _ _ _ _ A(2,3)]) (use f(4) in auto)
  moreover have "on_write_failed r idx wc = (?wc, Ok ())"
    using f A(1) by (simp add: on_write_failed_def on_window_def op_bind_def rollback_writing_def release_writer_def op_update_def)
  ultimately show thesis using that by blast
qed

lemma ctrl_remove_file_ok:
  assumes ok: "ctrl_ok cfg wc A" and r: "\<And>idx. (r, idx) \<notin> A" and rm: "ctrl_remove_file r wc = (wc', Ok f)"
  shows "ctrl_ok cfg wc' A"
  unfolding ctrl_ok_def
proof (intro conjI allI impI)
  have wc': "wc' = wc\<lparr>ctrl_files := hm_remove r (ctrl_files wc)\<rparr>" using rm by (simp add: ctrl_remove_file_def)
  show "finite A" "total_writings wc' = card A" "card A \<le> max_writings cfg" using ctrl_okD(1-3) [OF ok] wc' by simp_all
  show "window_ok (window g)" "win_size (window g) = write_window_size cfg" if "hm_get (ctrl_files wc') q = Some g" for q g
    using that ctrl_okD(4) [OF ok, of q g] by (simp_all add: wc' split: if_splits)
  show "(q, i) \<in> A \<longleftrightarrow> (\<exists>f. hm_get (ctrl_files wc') q = Some f \<and> hm_get (slots (window f)) i = Some Writing)" for q i
    using ctrl_okD(5) [OF ok, of q i] r [of i] by (auto simp: wc' split: if_splits)
qed

lemma writers_ok: "writers cfg wc A \<Longrightarrow> ctrl_ok cfg wc A"
proof (induction rule: writers.induct)
  case none
  show ?case by (simp add: ctrl_ok_def new_write_ctrl_def)
next
  case (start wc A i idx n wc')
  then show ?case using write_segment_ok [OF start.IH start.hyps(2), of n] by auto
next
  case (refused wc A i idx n wc' e)
  then show ?case using write_segment_ok [OF refused.IH refused.hyps(2), of n] by auto
next
  case (succeeded wc A r idx wc' b)
  then show ?case using on_write_succeeded_ok [OF succeeded.IH succeeded.hyps(2)] by (metis Pair_inject)
next
  case (failed wc A r idx wc')
  then show ?case using on_write_failed_ok [OF failed.IH failed.hyps(2)] by (metis Pair_inject)
next
  case (removed wc A r wc' f)
  then show ?case using ctrl_remove_file_ok by blast
qed

lemma writers_per_file: "ctrl_ok cfg wc A \<Longrightarrow> card {i. (r, i) \<in> A} \<le> write_window_size cfg"
proof (cases "hm_get (ctrl_files wc) r")
  case None
  assume ok: "ctrl_ok cfg wc A"
  then have "{i. (r, i) \<in> A} = {}" using ctrl_okD(5) [OF ok] None by simp
  then show ?thesis by simp
next
  case (Some f)
  assume ok: "ctrl_ok cfg wc A"
  let ?w = "window f"
  have "{i. (r, i) \<in> A} \<subseteq> {left_boundary ?w..<left_boundary ?w + write_window_size cfg}"
    using ctrl_okD(4) [OF ok Some] ctrl_okD(5) [OF ok, of r] Some by (auto simp: window_ok_def)
  from card_mono [OF _ this] show ?thesis by simp
qed


definition example_file_id :: file_id where
  "example_file_id = \<lparr>fid_root = [1], fid_tx_id = \<lparr>id_seq = 0, id_hash = [2]\<rparr>\<rparr>"

definition example_ctrl :: chunk_pool_write_ctrl where
  "example_ctrl = \<lparr>ctrl_files = [([1], \<lparr>fwc_id = example_file_id, total_segments = 3,
     window = \<lparr>win_size = 4, left_boundary = 0, slots = [(0, Writing)]\<rparr>\<rparr>)], total_writings = 1\<rparr>"


subsection \<open>Completing a cached file, and uploading a segment twice\<close>

lemma op_bind_result:
  "snd (op_bind m f s) = (case snd (m s) of Ok x \<Rightarrow> snd (f x (fst (m s))) | Err e \<Rightarrow> Err e | Panic p \<Rightarrow> Panic p)"
  by (simp add: op_bind_def split: prod.splits res.splits)

lemma store_spawn_no_panic: "\<not> is_Panic (snd (store_spawn m lm))"
  by (simp add: store_spawn_def split: prod.splits res.splits)

lemma in_store_inner: "inner (fst (in_store m p)) = inner p"
  by (simp add: in_store_def split: prod.splits)

text \<open>The file is gone from the cache and a writer is counted for it.\<close>

definition file_gone :: "h256 \<Rightarrow> pool_inner \<Rightarrow> bool" where
  "file_gone root p \<longleftrightarrow> hm_get (cache_files (segment_cache p)) root = None \<and> 0 < total_writings (write_control p)"

lemma write_cache_end_panics:
  assumes "file_gone root p"
  shows "is_Panic (snd (on_write_cache_succeeded root n p))" "is_Panic (snd (on_write_cache_failed root n p))"
  using assms
  by (simp_all add: on_write_cache_succeeded_def on_write_cache_failed_def op_bind_result on_ctrl_def on_cache_def release_writer_def
      release_cached_chunks_def op_update_def op_bind_def file_gone_def assert_that_def)

lemma is_Panic_bind: "is_Panic (snd (m s)) \<Longrightarrow> is_Panic (snd (op_bind m f s))"
  by (cases "snd (m s)") (simp_all add: op_bind_result)

lemma is_Panic_locked: "is_Panic (snd (locked m p)) \<longleftrightarrow> is_Panic (snd (m (inner p)))"
  by (simp add: locked_def split: prod.splits)

lemma is_Panic_on_ctrl: "is_Panic (snd (on_ctrl m p)) \<longleftrightarrow> is_Panic (snd (m (write_control p)))"
  by (cases "m (write_control p)") (simp add: on_ctrl_def)

lemma op_try_stored:
  obtains p' r where "op_try (in_store m) p = (p', Ok r)" "inner p' = inner p" "\<not> is_Panic r"
proof -
  obtain p' r where s: "in_store m p = (p', r)" by fastforce
  have "\<not> is_Panic r" using store_spawn_no_panic [of m "log_store p"] s by (auto simp: in_store_def split: prod.splits)
  moreover have "inner p' = inner p" using in_store_inner [of m p] s by simp
  ultimately show thesis using that [of p' r] s by (cases r) (simp_all add: op_try_def)
qed

lemma write_cached_segments_gone:
  "file_gone root (inner p) \<Longrightarrow> is_Panic (snd (write_cached_segments keccak ssz i root n segs p)) \<or>
     snd (write_cached_segments keccak ssz i root n segs p) = Ok () \<and>
     inner (fst (write_cached_segments keccak ssz i root n segs p)) = inner p"
proof (induction segs arbitrary: p)
  case (Cons seg segs)
  obtain p' r where t: "op_try (in_store (put_chunks_with_tx_hash keccak ssz (id_seq (fid_tx_id i)) (id_hash (fid_tx_id i)) seg)) p = (p', Ok r)"
    "inner p' = inner p" "\<not> is_Panic r" by (rule op_try_stored)
  have gone: "file_gone root (inner p')" using Cons.prems t(2) by simp
  have fail: "is_Panic (snd (op_bind (locked (on_write_cache_failed root n)) g p'))" for g :: "unit \<Rightarrow> (memory_chunk_pool, unit) op"
    by (rule is_Panic_bind) (simp add: is_Panic_locked write_cache_end_panics [OF gone])
  consider "r = Ok True" | "r = Ok False" | e where "r = Err e" using t(3) by (cases r) auto
  then show ?case
  proof cases
    case 1
    then show ?thesis using Cons.IH [OF gone] t by (simp add: op_bind_Ok)
  qed (use fail t in \<open>simp_all add: op_bind_Ok\<close>)
qed (simp add: op_lift_def)

text \<open>
  C37. A cached file that becomes complete crashes its upload. When the segment that completes a file arrives
  after its transaction, the file is taken out of the cache, its segments are written to the store, and
  whatever the store answers, the accounting afterwards looks the file up in the cache and panics.
\<close>

theorem cached_file_completion_panics:
  assumes "cache_ok cfg (segment_cache (inner p))" and "\<And>root m. mset (touch root m) = mset m"
    and "cache_segment touch cfg now info (segment_cache (inner p)) = (c, Ok True)"
    and "total_writings (write_control (inner p)) < max_writings cfg"
  shows "is_Panic (snd (cache_chunks keccak ssz touch cfg now info p))"
proof -
  let ?r = "si_root info"
  have "\<exists>c' r. cache_segment touch cfg now info (segment_cache (inner p)) = (c', r) \<and> cache_ok cfg c' \<and>
     (case r of
        Ok b \<Rightarrow> \<exists>f. hm_get (cache_files c') ?r = Some f \<and> hm_get (segments f) (seg_index info) \<noteq> None \<and> b = is_completed f
      | Err e \<Rightarrow> max_cached_chunks_all cfg < cache_total_chunks c' + length (seg_data info) div CHUNK_SIZE
      | Panic p \<Rightarrow> False)"
    by (rule cache_segment_ok [OF assms(1)]) (rule assms(2))
  then obtain f where c: "cache_ok cfg c" "hm_get (cache_files c) ?r = Some f" using assms(3) by auto
  obtain c' where c': "cache_remove_file ?r c = (c', Ok (Some f))" "cache_files c' = hm_remove ?r (cache_files c)"
    using cache_remove_file_ok [OF c(1), of ?r] c(2) by auto
  let ?p1 = "p\<lparr>inner := (inner p)\<lparr>segment_cache := c\<rparr>\<rparr>"
  let ?wc = "(write_control (inner p))\<lparr>total_writings := total_writings (write_control (inner p)) + 1\<rparr>"
  let ?p2 = "p\<lparr>inner := (inner p)\<lparr>segment_cache := c', write_control := ?wc\<rparr>\<rparr>"
  let ?segs = "rev (map snd (segments f))" and ?n = "cached_chunk_num f"
  have get: "locked (get_all_cached_segments_to_write cfg ?r) ?p1 = (?p2, Ok (mcf_id f, ?n, map snd (segments f)))"
    using assms(4) c'(1) by (simp add: locked_def get_all_cached_segments_to_write_def op_bind_def op_read_def on_cache_def on_ctrl_def op_modify_def op_lift_def)
  have gone: "file_gone ?r (inner ?p2)" using c'(2) by (simp add: file_gone_def)
  have run: "cache_chunks keccak ssz touch cfg now info p = op_bind (write_cached_segments keccak ssz (mcf_id f) ?r ?n ?segs) (\<lambda>_.
      op_bind (locked (on_write_cache_succeeded ?r ?n)) (\<lambda>_. send_finalize (mcf_id f))) ?p2"
    using assms(3) get by (simp add: cache_chunks_def write_all_cached_chunks_and_finalize_def op_bind_def locked_def on_cache_def)
  from write_cached_segments_gone [OF gone, of keccak ssz "mcf_id f" ?n ?segs] show ?thesis
  proof
    assume w: "snd (write_cached_segments keccak ssz (mcf_id f) ?r ?n ?segs ?p2) = Ok () \<and>
      inner (fst (write_cached_segments keccak ssz (mcf_id f) ?r ?n ?segs ?p2)) = inner ?p2"
    have "is_Panic (snd (op_bind (locked (on_write_cache_succeeded ?r ?n)) (\<lambda>_. send_finalize (mcf_id f))
        (fst (write_cached_segments keccak ssz (mcf_id f) ?r ?n ?segs ?p2))))"
      by (rule is_Panic_bind) (use w write_cache_end_panics(1) [OF gone] in \<open>simp add: is_Panic_locked\<close>)
    then show ?thesis unfolding run using w by (simp add: op_bind_result)
  qed (simp add: run is_Panic_bind)
qed

definition example_pool :: memory_chunk_pool where
  "example_pool = \<lparr>
     inner = \<lparr>segment_cache = \<lparr>cache_files = [([1], \<lparr>mcf_id = example_file_id, segments = [], file_total_chunks = 1, expired_at = 10,
                cached_chunk_num = 0\<rparr>)], cache_total_chunks = 0\<rparr>,
              write_control = new_write_ctrl\<rparr>,
     log_store = \<lparr>lm_tx_store = \<lparr>col_tx = [], col_tx_data_root_index = [], col_tx_completed = [], col_misc = None\<rparr>,
       lm_flow_store = new_flow_store \<lparr>col_entry_batch = [], col_entry_batch_root = []\<rparr> SECTORS_PER_LOAD,
       pora_chunks_merkle = \<lparr>layers = [[]], delta_nodes_map = [], root_to_tx_seq_map = [], min_depth = None, leaf_height = 0\<rparr>,
       last_chunk_merkle = \<lparr>layers = [[]], delta_nodes_map = [], root_to_tx_seq_map = [], min_depth = None, leaf_height = 0\<rparr>\<rparr>,
     finalize_queue = []\<rparr>"

theorem cached_file_completion_panics_witness:
  "is_Panic (snd (cache_chunks (\<lambda>_. [7]) (\<lambda>_. []) (\<lambda>_ m. m) example_config 0 example_segment example_pool))"
proof -
  let ?c = "segment_cache (inner example_pool)"
  have "cache_ok example_config ?c" by (simp add: example_pool_def cache_ok_def file_ok_def)
  moreover have "snd (cache_segment (\<lambda>_ m. m) example_config 0 example_segment ?c) = Ok True"
    by (simp add: example_pool_def cache_segment_def garbage_collect_def op_bind_def op_lift_def op_read_def op_modify_def file_entry_def
        example_segment_def example_config_def CHUNK_SIZE_def is_completed_def)
  then have "cache_segment (\<lambda>_ m. m) example_config 0 example_segment ?c =
      (fst (cache_segment (\<lambda>_ m. m) example_config 0 example_segment ?c), Ok True)" by (metis prod.collapse)
  moreover have "total_writings (write_control (inner example_pool)) < max_writings example_config"
    by (simp add: example_pool_def example_config_def new_write_ctrl_def)
  ultimately show ?thesis by (intro cached_file_completion_panics) simp_all
qed

text \<open>
  C38. Uploading a segment a second time crashes the upload. A segment that is already uploaded passes
  \<open>write_segment\<close> and is sent to the store again; whatever the store answers, the window then finds no
  writer in its slot and panics.
\<close>

theorem duplicate_segment_panics:
  assumes "hm_get (ctrl_files (write_control (inner p))) (fid_root i) = Some f" and "fwc_id f = i" and "si_root info = fid_root i"
    and "compute_segment_size (bytes_to_chunks file_size) (chunks_per_segment info) = Ok (total_segments f, last_size)"
    and "window_ok (window f)" and "seg_index info \<in> uploaded (window f)"
  shows "is_Panic (snd (write_chunks keccak ssz cfg info i file_size p))"
proof -
  let ?wc = "write_control (inner p)" and ?idx = "seg_index info" and ?r = "fid_root i"
  let ?wc' = "?wc\<lparr>ctrl_files := hm_insert ?r f (ctrl_files ?wc)\<rparr>"
  let ?p1 = "p\<lparr>inner := (inner p)\<lparr>write_control := ?wc'\<rparr>\<rparr>"
  have dup: "check_duplicate (window f) ?idx" "hm_get (slots (window f)) ?idx \<noteq> Some Writing"
    using assms(5,6) by (auto simp: check_duplicate_def uploaded_def window_ok_def)
  have ws: "locked (on_ctrl (write_segment cfg i ?idx (total_segments f))) p = (?p1, Ok ())"
    using assms(1,2) dup(1) by (simp add: locked_def on_ctrl_def write_segment_def Let_def)
  have get: "hm_get (ctrl_files ?wc') ?r = Some f" by simp
  have succ: "is_Panic (snd (on_write_succeeded ?r ?idx ?wc'))"
    unfolding on_write_succeeded_def get option.case
    by (rule is_Panic_bind) (use dup(2) in \<open>simp add: on_window_def finish_writing_def Let_def\<close>)
  have fail: "is_Panic (snd (on_write_failed ?r ?idx ?wc'))"
    unfolding on_write_failed_def get option.case
    by (rule is_Panic_bind) (use dup(2) in \<open>simp add: on_window_def rollback_writing_def assert_that_def\<close>)
  let ?put = "put_chunks_with_tx_hash keccak ssz (id_seq (fid_tx_id i)) (id_hash (fid_tx_id i)) (segment_chunks info)"
  obtain p' r where t: "op_try (in_store ?put) ?p1 = (p', Ok r)" "inner p' = inner ?p1" "\<not> is_Panic r" by (rule op_try_stored)
  have run: "write_chunks keccak ssz cfg info i file_size p = (case r of
         Ok True \<Rightarrow>
           op_bind (locked (on_ctrl (on_write_succeeded ?r ?idx))) (\<lambda>all_uploaded.
             if all_uploaded then send_finalize i else op_lift (Ok ()))
       | Ok False \<Rightarrow>
           op_bind (locked (on_ctrl (on_write_failed ?r ?idx))) (\<lambda>_.
           op_bind (locked (on_ctrl (ctrl_remove_file ?r))) (\<lambda>_.
             op_lift (Err ''Transaction reverted, please upload again'')))
       | Err e \<Rightarrow> op_bind (locked (on_ctrl (on_write_failed ?r ?idx))) (\<lambda>_. op_lift (Err e))
       | Panic e \<Rightarrow> op_lift (Panic e)) p'"
    unfolding write_chunks_def assms(3,4) op_bind_lift prod.case
    by (subst op_bind_Ok, rule ws, subst op_bind_Ok, rule t(1), rule refl)
  consider "r = Ok True" | "r = Ok False" | e where "r = Err e" using t(3) by (cases r) auto
  then show ?thesis
  proof cases
    case 1
    then show ?thesis unfolding run by (simp only: res.case if_True bool.case) (rule is_Panic_bind, use succ t(2) in \<open>simp add: is_Panic_locked is_Panic_on_ctrl\<close>)
  next
    case 2
    then show ?thesis unfolding run by (simp only: res.case bool.case) (rule is_Panic_bind, use fail t(2) in \<open>simp add: is_Panic_locked is_Panic_on_ctrl\<close>)
  next
    case 3
    then show ?thesis unfolding run by (simp only: res.case) (rule is_Panic_bind, use fail t(2) in \<open>simp add: is_Panic_locked is_Panic_on_ctrl\<close>)
  qed
qed

definition example_uploaded_pool :: memory_chunk_pool where
  "example_uploaded_pool = example_pool\<lparr>inner := new_pool_inner\<lparr>write_control := \<lparr>ctrl_files = [([1], \<lparr>fwc_id = example_file_id,
     total_segments = 2, window = \<lparr>win_size = 4, left_boundary = 1, slots = []\<rparr>\<rparr>)], total_writings = 0\<rparr>\<rparr>\<rparr>"

theorem duplicate_segment_panics_witness:
  "is_Panic (snd (write_chunks (\<lambda>_. [7]) (\<lambda>_. []) example_config example_segment example_file_id 2048 example_uploaded_pool))"
  by (rule duplicate_segment_panics [of _ _ "\<lparr>fwc_id = example_file_id, total_segments = 2,
        window = \<lparr>win_size = 4, left_boundary = 1, slots = []\<rparr>\<rparr>" _ _ 4])
    (simp_all add: example_uploaded_pool_def example_file_id_def example_segment_def compute_segment_size_def bytes_to_chunks_def
      window_ok_def uploaded_def)

text \<open>
  Removing the file of a reverted transaction while another of its segments is being written loses the
  other writer: its end is not counted, and the counter stays above the number of writers for good.
\<close>

lemma reverted_file_leaks_writer:
  "let (wc, _) = write_segment example_config example_file_id 0 3 new_write_ctrl;
       (wc, _) = write_segment example_config example_file_id 1 3 wc;
       (wc, _) = on_write_failed [1] 0 wc;
       (wc, _) = ctrl_remove_file [1] wc
   in on_write_succeeded [1] 1 wc = (\<lparr>ctrl_files = [], total_writings = 1\<rparr>, Ok False)"
  by code_simp

end
