(* ===== verification/Rate_Limiter.thy ===== *)
theory Rate_Limiter
  imports Merkle_Hash
begin

text \<open>
  The rate limiter of the network service, \<^verbatim>\<open>node/network/src/rpc/rate_limiter.rs\<close>, with the requests
  it counts (\<^verbatim>\<open>node/network/src/rpc/protocol.rs\<close>). Times are nanoseconds. A \<open>Duration\<close> is a natural number
  (\<open>as_nanos\<close> has 128 bits); the fields of a limiter are 64-bit words, and the conversion of a duration
  to them truncates, as the cast in the source does. The time elapsed since the limiter was made
  is an argument of the methods that read the clock.
\<close>

subsection \<open>One limiter\<close>

datatype rate_limited_err = TooLarge | TooSoon nat

record quota =
  replenish_all_every :: nat
  max_tokens :: "64 word"

record 'k limiter =
  tau :: "64 word"
  token_time :: "64 word"
  tat_per_key :: "('k, 64 word) hmap"

definition from_quota :: "quota \<Rightarrow> 'k limiter res" where
  "from_quota q =
     (if max_tokens q = 0 then Err ''Max number of tokens should be positive''
      else if replenish_all_every q = 0 then Err ''Replenish time must be positive''
      else let t = replenish_all_every q div unat (max_tokens q)
           in if 2 ^ 64 \<le> t then Err ''total replenish time is too long''
              else if 2 ^ 64 \<le> replenish_all_every q then Err ''total replenish time is too long''
              else Ok \<lparr>tau = of_nat (replenish_all_every q), token_time = of_nat t, tat_per_key = []\<rparr>)"

definition saturating_sub :: "64 word \<Rightarrow> 64 word \<Rightarrow> 64 word" where
  "saturating_sub a b = (if a < b then 0 else a - b)"

definition limiter_allows :: "'k limiter \<Rightarrow> nat \<Rightarrow> 'k \<Rightarrow> 64 word \<Rightarrow> 'k limiter \<times> (rate_limited_err + unit)" where
  "limiter_allows lim elapsed key tokens =
     (let time_since_start = of_nat elapsed;
          additional_time = token_time lim * tokens
      in if tau lim < additional_time then (lim, Inl TooLarge)
         else
           let tat = (case hm_get (tat_per_key lim) key of Some tat \<Rightarrow> tat | None \<Rightarrow> time_since_start);
               lim = lim\<lparr>tat_per_key := hm_insert key tat (tat_per_key lim)\<rparr>;
               earliest_time = saturating_sub (tat + additional_time) (tau lim)
           in if time_since_start < earliest_time
              then (lim, Inl (TooSoon (unat (earliest_time - time_since_start))))
              else (lim\<lparr>tat_per_key := hm_insert key (max time_since_start tat + additional_time) (tat_per_key lim)\<rparr>, Inr ()))"

definition limiter_prune :: "'k limiter \<Rightarrow> nat \<Rightarrow> 'k limiter" where
  "limiter_prune lim time_limit =
     lim\<lparr>tat_per_key := filter (\<lambda>(_, tat). of_nat time_limit \<le> tat) (tat_per_key lim)\<rparr>"

subsection \<open>Requests and protocols\<close>

datatype protocol = PStatus | PGoodbye | PPing | PDataByHash | PGetChunks

datatype inbound_request = RStatus | RGoodbye | RDataByHash "h256 list" | RPing | RGetChunks

fun expected_responses :: "inbound_request \<Rightarrow> 64 word" where
  "expected_responses RStatus = 1"
| "expected_responses RGoodbye = 0"
| "expected_responses (RDataByHash hashes) = of_nat (length hashes)"
| "expected_responses RPing = 1"
| "expected_responses RGetChunks = 1"

fun request_protocol :: "inbound_request \<Rightarrow> protocol" where
  "request_protocol RStatus = PStatus"
| "request_protocol RGoodbye = PGoodbye"
| "request_protocol RPing = PPing"
| "request_protocol (RDataByHash _) = PDataByHash"
| "request_protocol RGetChunks = PGetChunks"

subsection \<open>The limiter of all protocols\<close>

record 'k rpc_rate_limiter =
  goodbye_rl :: "'k limiter"
  ping_rl :: "'k limiter"
  status_rl :: "'k limiter"
  data_by_hash_rl :: "'k limiter"
  get_chunks_rl :: "'k limiter"

record rate_limiter_builder =
  goodbye_quota :: "quota option"
  ping_quota :: "quota option"
  status_quota :: "quota option"
  data_by_hash_quota :: "quota option"
  get_chunks_quota :: "quota option"

definition new_rate_limiter_builder :: rate_limiter_builder where
  "new_rate_limiter_builder = \<lparr>goodbye_quota = None, ping_quota = None, status_quota = None,
     data_by_hash_quota = None, get_chunks_quota = None\<rparr>"

definition set_quota :: "rate_limiter_builder \<Rightarrow> protocol \<Rightarrow> quota \<Rightarrow> rate_limiter_builder" where
  "set_quota b p q =
     (case p of
        PPing \<Rightarrow> b\<lparr>ping_quota := Some q\<rparr>
      | PStatus \<Rightarrow> b\<lparr>status_quota := Some q\<rparr>
      | PGoodbye \<Rightarrow> b\<lparr>goodbye_quota := Some q\<rparr>
      | PDataByHash \<Rightarrow> b\<lparr>data_by_hash_quota := Some q\<rparr>
      | PGetChunks \<Rightarrow> b\<lparr>get_chunks_quota := Some q\<rparr>)"

definition one_every :: "rate_limiter_builder \<Rightarrow> protocol \<Rightarrow> nat \<Rightarrow> rate_limiter_builder" where
  "one_every b p time_period = set_quota b p \<lparr>replenish_all_every = time_period, max_tokens = 1\<rparr>"

definition n_every :: "rate_limiter_builder \<Rightarrow> protocol \<Rightarrow> 64 word \<Rightarrow> nat \<Rightarrow> rate_limiter_builder" where
  "n_every b p n time_period = set_quota b p \<lparr>replenish_all_every = time_period, max_tokens = n\<rparr>"

definition specified :: "'a option \<Rightarrow> string \<Rightarrow> 'a res" where
  "specified q e = (case q of Some x \<Rightarrow> Ok x | None \<Rightarrow> Err e)"

definition build_rate_limiter :: "rate_limiter_builder \<Rightarrow> 'k rpc_rate_limiter res" where
  "build_rate_limiter b =
     rbind (specified (ping_quota b) ''Ping quota not specified'') (\<lambda>ping_q.
     rbind (specified (status_quota b) ''Status quota not specified'') (\<lambda>status_q.
     rbind (specified (goodbye_quota b) ''Goodbye quota not specified'') (\<lambda>goodbye_q.
     rbind (specified (data_by_hash_quota b) ''DataByHash quota not specified'') (\<lambda>data_by_hash_q.
     rbind (specified (get_chunks_quota b) ''GetChunks quota not specified'') (\<lambda>get_chunks_q.
     rbind (from_quota ping_q) (\<lambda>ping.
     rbind (from_quota status_q) (\<lambda>status.
     rbind (from_quota goodbye_q) (\<lambda>goodbye.
     rbind (from_quota data_by_hash_q) (\<lambda>data_by_hash.
     rbind (from_quota get_chunks_q) (\<lambda>get_chunks.
       Ok \<lparr>goodbye_rl = goodbye, ping_rl = ping, status_rl = status, data_by_hash_rl = data_by_hash,
           get_chunks_rl = get_chunks\<rparr>))))))))))"

definition rpc_allows ::
  "'k rpc_rate_limiter \<Rightarrow> nat \<Rightarrow> 'k \<Rightarrow> inbound_request \<Rightarrow> 'k rpc_rate_limiter \<times> (rate_limited_err + unit)" where
  "rpc_allows rl elapsed peer_id request =
     (let tokens = max (expected_responses request) 1;
          check = (\<lambda>limiter. limiter_allows limiter elapsed peer_id tokens)
      in case request_protocol request of
           PPing \<Rightarrow> (case check (ping_rl rl) of (l, r) \<Rightarrow> (rl\<lparr>ping_rl := l\<rparr>, r))
         | PStatus \<Rightarrow> (case check (status_rl rl) of (l, r) \<Rightarrow> (rl\<lparr>status_rl := l\<rparr>, r))
         | PGoodbye \<Rightarrow> (case check (goodbye_rl rl) of (l, r) \<Rightarrow> (rl\<lparr>goodbye_rl := l\<rparr>, r))
         | PDataByHash \<Rightarrow> (case check (data_by_hash_rl rl) of (l, r) \<Rightarrow> (rl\<lparr>data_by_hash_rl := l\<rparr>, r))
         | PGetChunks \<Rightarrow> (case check (get_chunks_rl rl) of (l, r) \<Rightarrow> (rl\<lparr>get_chunks_rl := l\<rparr>, r)))"

definition rpc_prune :: "'k rpc_rate_limiter \<Rightarrow> nat \<Rightarrow> 'k rpc_rate_limiter" where
  "rpc_prune rl elapsed =
     rl\<lparr>ping_rl := limiter_prune (ping_rl rl) elapsed, status_rl := limiter_prune (status_rl rl) elapsed,
        goodbye_rl := limiter_prune (goodbye_rl rl) elapsed,
        data_by_hash_rl := limiter_prune (data_by_hash_rl rl) elapsed,
        get_chunks_rl := limiter_prune (get_chunks_rl rl) elapsed\<rparr>"

text \<open>The quotas of the network service; durations in seconds.\<close>

definition from_secs :: "nat \<Rightarrow> nat" where "from_secs s = s * 10 ^ 9"

definition default_rate_limiter :: "'k rpc_rate_limiter res" where
  "default_rate_limiter =
     build_rate_limiter
       (n_every (n_every (one_every (n_every (n_every new_rate_limiter_builder
          PPing 2 (from_secs 10)) PStatus 5 (from_secs 15)) PGoodbye (from_secs 10))
          PDataByHash 128 (from_secs 10)) PGetChunks 128 (from_secs 10))"

text \<open>The configuration is valid: building it does not fail, so the \<open>expect\<close> of the service never panics.\<close>

lemma default_rate_limiter_valid: "\<exists>rl. default_rate_limiter = Ok rl"
  by (simp add: default_rate_limiter_def build_rate_limiter_def n_every_def one_every_def set_quota_def new_rate_limiter_builder_def
      specified_def from_quota_def from_secs_def)

end
