(* ===== verification/Rate_Limiter_Correct.thy ===== *)
theory Rate_Limiter_Correct
  imports Rate_Limiter
begin

text \<open>
  The properties of the rate limiter: the rate it enforces for a peer over any window of time, whatever
  other peers do and whenever the limiter is pruned, and that the waiting time it reports is enough.
\<close>

subsection \<open>Histories\<close>

text \<open>A history of a limiter: requests and prunings, each at the time since the start.\<close>

datatype 'k event = Request nat 'k "64 word" | Prune nat

fun event_time :: "'k event \<Rightarrow> nat" where
  "event_time (Request time _ _) = time"
| "event_time (Prune time) = time"

fun limiter_step :: "'k event \<Rightarrow> 'k limiter \<Rightarrow> 'k limiter \<times> (rate_limited_err + unit)" where
  "limiter_step (Request time key tokens) lim = limiter_allows lim time key tokens"
| "limiter_step (Prune time) lim = (limiter_prune lim time, Inr ())"

definition limiter_run :: "'k event list \<Rightarrow> 'k limiter \<Rightarrow> 'k limiter" where
  "limiter_run es lim = fold (\<lambda>e l. fst (limiter_step e l)) es lim"

text \<open>The tokens a peer was granted in a history.\<close>

fun granted :: "'k \<Rightarrow> 'k event list \<Rightarrow> 'k limiter \<Rightarrow> nat" where
  "granted key [] lim = 0"
| "granted key (e # es) lim =
     (case limiter_step e lim of
        (lim', r) \<Rightarrow>
          (case e of Request _ k tokens \<Rightarrow> if k = key \<and> r = Inr () then unat tokens else 0 | Prune _ \<Rightarrow> 0) + granted key es lim')"

text \<open>
  No event overflows 64 bits: the end of the history is at least two replenish periods before the end
  of time, and the time that replenishes the tokens of a request fits.
\<close>

fun event_fits :: "'k limiter \<Rightarrow> 'k event \<Rightarrow> bool" where
  "event_fits lim (Request time key tokens) \<longleftrightarrow> time + 2 * unat (tau lim) < 2 ^ 64 \<and> unat (token_time lim) * unat tokens < 2 ^ 64"
| "event_fits lim (Prune time) \<longleftrightarrow> time + 2 * unat (tau lim) < 2 ^ 64"

subsection \<open>The invariant of a limiter\<close>

definition limiter_ok :: "'k limiter \<Rightarrow> nat \<Rightarrow> bool" where
  "limiter_ok lim now \<longleftrightarrow> hm_wf (tat_per_key lim) \<and>
     (\<forall>k tat. hm_get (tat_per_key lim) k = Some tat \<longrightarrow> unat tat \<le> now + unat (tau lim))"

text \<open>The time from which a peer's next tokens count: its theoretical arrival time, or now.\<close>

definition next_free :: "'k limiter \<Rightarrow> 'k \<Rightarrow> nat \<Rightarrow> nat" where
  "next_free lim key now = (case hm_get (tat_per_key lim) key of Some tat \<Rightarrow> max (unat tat) now | None \<Rightarrow> now)"

lemma next_free_ge: "now \<le> next_free lim key now"
  by (simp add: next_free_def split: option.splits)

lemma next_free_mono: "now \<le> later \<Longrightarrow> next_free lim key now \<le> next_free lim key later"
  by (auto simp: next_free_def split: option.splits)

lemma limiter_ok_later: "limiter_ok lim now \<Longrightarrow> now \<le> later \<Longrightarrow> limiter_ok lim later"
  unfolding limiter_ok_def by (meson add_le_mono1 order_trans)

lemma next_free_ok: "limiter_ok lim now \<Longrightarrow> next_free lim key now \<le> now + unat (tau lim)"
  by (auto simp: limiter_ok_def next_free_def split: option.splits)

lemma filter_retain_get:
  "hm_wf m \<Longrightarrow> hm_get (filter (\<lambda>(_, v). P v) m) k = (case hm_get m k of None \<Rightarrow> None | Some v \<Rightarrow> if P v then Some v else None)"
  by (induction m) (force split: option.splits dest: map_of_SomeD)+

lemma hm_wf_filter: "hm_wf m \<Longrightarrow> hm_wf (filter f m)"
  by (simp add: distinct_map_filter)

lemma unat_saturating_sub: "unat (saturating_sub a b) = unat a - unat b"
  by (simp add: saturating_sub_def word_less_nat_alt unat_sub word_le_nat_alt)

lemma hm_wf_insert [simp]: "hm_wf m \<Longrightarrow> hm_wf (hm_insert k v m)"
  by (rule distinct_update)

text \<open>The decision in natural numbers.\<close>

lemma limiter_allows_nat:
  assumes ok: "limiter_ok lim now" and fits: "event_fits lim (Request now key tokens)"
  defines "cost \<equiv> unat (token_time lim) * unat tokens" and "free \<equiv> next_free lim key now" and "T \<equiv> unat (tau lim)"
  shows "T < cost \<Longrightarrow> limiter_allows lim now key tokens = (lim, Inl TooLarge)"
    and "cost \<le> T \<Longrightarrow> now + T < free + cost \<Longrightarrow>
       \<exists>m. limiter_allows lim now key tokens = (lim\<lparr>tat_per_key := m\<rparr>, Inl (TooSoon (free + cost - T - now))) \<and>
         hm_wf m \<and> map_of m = map_of (tat_per_key lim)"
    and "cost \<le> T \<Longrightarrow> free + cost \<le> now + T \<Longrightarrow>
       \<exists>m tat. limiter_allows lim now key tokens = (lim\<lparr>tat_per_key := m\<rparr>, Inr ()) \<and>
         hm_wf m \<and> map_of m = (map_of (tat_per_key lim))(key \<mapsto> tat) \<and> unat tat = free + cost"
proof -
  define c where "c = token_time lim * tokens"
  define w :: "64 word" where "w = of_nat now"
  define tat where "tat = (case hm_get (tat_per_key lim) key of Some tat \<Rightarrow> tat | None \<Rightarrow> w)"
  have room: "now + 2 * T < 2 ^ 64" "cost < 2 ^ 64" using fits by (simp_all add: T_def cost_def)
  have c: "unat c = cost" unfolding c_def cost_def by (rule unat_mult_lem [THEN iffD1]) (use room(2) in \<open>simp add: cost_def\<close>)
  have w: "unat w = now" using room(1) by (simp add: w_def unat_of_nat)
  have free: "free = max (unat tat) now" by (auto simp: free_def next_free_def tat_def w split: option.splits)
  have tat: "unat tat \<le> now + T"
    using ok by (auto simp: tat_def limiter_ok_def T_def w split: option.splits)
  have wf: "hm_wf (tat_per_key lim)" using ok by (simp add: limiter_ok_def)
  let ?m = "hm_insert key tat (tat_per_key lim)"
  have large: "tau lim < c \<longleftrightarrow> T < cost" by (simp add: word_less_nat_alt c T_def)
  show "limiter_allows lim now key tokens = (lim, Inl TooLarge)" if "T < cost"
    using that large by (simp add: limiter_allows_def c_def Let_def)
  let ?e = "saturating_sub (tat + c) (tau lim)"
  have e: "unat ?e = unat tat + cost - T" if "cost \<le> T"
  proof -
    have "unat (tat + c) = unat tat + unat c" by (rule unat_add_lem [THEN iffD1]) (use that tat room(1) c in simp)
    then show ?thesis by (simp add: unat_saturating_sub c T_def)
  qed
  have soon: "w < ?e \<longleftrightarrow> now + T < free + cost" if "cost \<le> T"
    using that by (auto simp: word_less_nat_alt w e free)
  have run: "limiter_allows lim now key tokens =
      (if w < ?e then (lim\<lparr>tat_per_key := ?m\<rparr>, Inl (TooSoon (unat (?e - w))))
       else (lim\<lparr>tat_per_key := hm_insert key (max w tat + c) ?m\<rparr>, Inr ()))" if "cost \<le> T"
    using that large by (simp add: limiter_allows_def Let_def c_def [symmetric] w_def [symmetric] tat_def [symmetric])
  show "\<exists>m. limiter_allows lim now key tokens = (lim\<lparr>tat_per_key := m\<rparr>, Inl (TooSoon (free + cost - T - now))) \<and>
      hm_wf m \<and> map_of m = map_of (tat_per_key lim)" if a: "cost \<le> T" "now + T < free + cost"
  proof -
    have s: "w < ?e" using soon a by simp
    then have "unat (?e - w) = unat tat + cost - T - now" using e [OF a(1)] w by (simp add: unat_sub word_le_nat_alt word_less_nat_alt)
    moreover have "free = unat tat" using a free by auto
    moreover have "hm_get (tat_per_key lim) key = Some tat"
      using a free by (auto simp: tat_def w split: option.splits)
    then have "map_of ?m = map_of (tat_per_key lim)" by (auto simp: fun_eq_iff)
    ultimately show ?thesis using run [OF a(1)] s wf by (intro exI [of _ ?m]) simp
  qed
  show "\<exists>m tat. limiter_allows lim now key tokens = (lim\<lparr>tat_per_key := m\<rparr>, Inr ()) \<and>
      hm_wf m \<and> map_of m = (map_of (tat_per_key lim))(key \<mapsto> tat) \<and> unat tat = free + cost" if a: "cost \<le> T" "free + cost \<le> now + T"
  proof -
    have s: "\<not> w < ?e" using soon a by simp
    have mx: "unat (max w tat) = free" by (simp add: max_def word_le_nat_alt w free)
    have "unat (max w tat + c) = unat (max w tat) + unat c" by (rule unat_add_lem [THEN iffD1]) (use a room(1) mx c in simp)
    then have u: "unat (max w tat + c) = free + cost" using mx c by simp
    have g: "map_of (hm_insert key (max w tat + c) ?m) = (map_of (tat_per_key lim))(key \<mapsto> max w tat + c)"
      by (auto simp: fun_eq_iff)
    show ?thesis using run [OF a(1)] s wf u g by (intro exI [of _ "hm_insert key (max w tat + c) ?m"] exI [of _ "max w tat + c"]) simp
  qed
qed

subsection \<open>One step\<close>

fun event_grant :: "'k \<Rightarrow> 'k event \<Rightarrow> (rate_limited_err + unit) \<Rightarrow> nat" where
  "event_grant key (Request _ k tokens) r = (if k = key \<and> r = Inr () then unat tokens else 0)"
| "event_grant key (Prune _) r = 0"

lemma granted_Cons: "granted key (e # es) lim = event_grant key e (snd (limiter_step e lim)) + granted key es (fst (limiter_step e lim))"
  by (cases e) (simp_all split: prod.splits)

lemma limiter_prune_step:
  assumes ok: "limiter_ok lim now" and fits: "now + 2 * unat (tau lim) < 2 ^ 64"
  shows "limiter_ok (limiter_prune lim now) now" "next_free (limiter_prune lim now) key now = next_free lim key now"
    "tau (limiter_prune lim now) = tau lim" "token_time (limiter_prune lim now) = token_time lim"
proof -
  have wf: "hm_wf (tat_per_key lim)" using ok by (simp add: limiter_ok_def)
  have w: "of_nat now \<le> (tat :: 64 word) \<longleftrightarrow> now \<le> unat tat" for tat
    using fits by (simp add: word_le_nat_alt unat_of_nat)
  have get: "hm_get (tat_per_key (limiter_prune lim now)) k =
      (case hm_get (tat_per_key lim) k of None \<Rightarrow> None | Some v \<Rightarrow> if now \<le> unat v then Some v else None)" for k
    unfolding limiter_prune_def w [symmetric] by (simp add: filter_retain_get [OF wf])
  show "tau (limiter_prune lim now) = tau lim" "token_time (limiter_prune lim now) = token_time lim" by (simp_all add: limiter_prune_def)
  then show "limiter_ok (limiter_prune lim now) now"
    using ok hm_wf_filter [OF wf] unfolding limiter_ok_def get by (auto simp: limiter_prune_def split: option.splits)
  show "next_free (limiter_prune lim now) key now = next_free lim key now"
    unfolding next_free_def get by (simp split: option.splits)
qed

lemma limiter_allows_step:
  assumes ok: "limiter_ok lim now" and fits: "event_fits lim (Request now k tokens)"
  obtains lim' r where "limiter_allows lim now k tokens = (lim', r)" "limiter_ok lim' now" "tau lim' = tau lim" "token_time lim' = token_time lim"
    "next_free lim' key now = next_free lim key now + unat (token_time lim) * (if k = key \<and> r = Inr () then unat tokens else 0)"
proof -
  let ?cost = "unat (token_time lim) * unat tokens" and ?T = "unat (tau lim)" and ?free = "next_free lim k now"
  note A = limiter_allows_nat [OF ok fits]
  have "?T < ?cost \<or> ?cost \<le> ?T \<and> now + ?T < ?free + ?cost \<or> ?cost \<le> ?T \<and> ?free + ?cost \<le> now + ?T" by linarith
  then consider "?T < ?cost" | "?cost \<le> ?T" "now + ?T < ?free + ?cost" | "?cost \<le> ?T" "?free + ?cost \<le> now + ?T" by blast
  then show thesis
  proof cases
    case 1
    then show ?thesis using that A(1) ok by simp
  next
    case 2
    from A(2) [OF this] obtain m where m: "limiter_allows lim now k tokens = (lim\<lparr>tat_per_key := m\<rparr>, Inl (TooSoon (?free + ?cost - ?T - now)))"
      "hm_wf m" "map_of m = map_of (tat_per_key lim)" by blast
    then show ?thesis using ok by (intro that [OF m(1)]) (simp_all add: limiter_ok_def next_free_def)
  next
    case 3
    from A(3) [OF this] obtain m tat where m: "limiter_allows lim now k tokens = (lim\<lparr>tat_per_key := m\<rparr>, Inr ())"
      "hm_wf m" "map_of m = (map_of (tat_per_key lim))(k \<mapsto> tat)" "unat tat = ?free + ?cost" by blast
    have "now \<le> ?free" by (rule next_free_ge)
    then have "max (unat tat) now = ?free + ?cost" using m(4) by simp
    moreover have "limiter_ok (lim\<lparr>tat_per_key := m\<rparr>) now" using ok m(2-4) 3 by (auto simp: limiter_ok_def)
    ultimately show ?thesis using m(3) by (intro that [OF m(1)]) (auto simp: next_free_def)
  qed
qed

lemma limiter_step_ok:
  assumes "limiter_ok lim now" "now \<le> event_time e" "event_fits lim e"
  obtains lim' r where "limiter_step e lim = (lim', r)" "limiter_ok lim' (event_time e)" "tau lim' = tau lim" "token_time lim' = token_time lim"
    "next_free lim' key (event_time e) = next_free lim key (event_time e) + unat (token_time lim) * event_grant key e r"
proof (cases e)
  case (Request time k tokens)
  have ok: "limiter_ok lim time" using limiter_ok_later assms Request by fastforce
  then show ?thesis
    using limiter_allows_step [OF ok, of k tokens key thesis] assms(3) that Request by simp
next
  case (Prune time)
  have ok: "limiter_ok lim time" using limiter_ok_later assms Prune by fastforce
  then show ?thesis
    using limiter_prune_step [OF ok] assms(3) Prune by (intro that [of "limiter_prune lim time" "Inr ()"]) simp_all
qed

subsection \<open>Histories\<close>

lemma event_fits_cong: "tau l = tau l' \<Longrightarrow> token_time l = token_time l' \<Longrightarrow> event_fits l = event_fits l'"
  by (rule ext, rename_tac e, case_tac e) simp_all

lemma limiter_run_ok:
  "limiter_ok lim now \<Longrightarrow> sorted (map event_time es) \<Longrightarrow> \<forall>e \<in> set es. now \<le> event_time e \<and> event_time e \<le> end_time \<and> event_fits lim e \<Longrightarrow>
     now \<le> end_time \<Longrightarrow>
     limiter_ok (limiter_run es lim) end_time \<and> tau (limiter_run es lim) = tau lim \<and> token_time (limiter_run es lim) = token_time lim \<and>
     next_free lim key now + unat (token_time lim) * granted key es lim \<le> next_free (limiter_run es lim) key end_time"
proof (induction es arbitrary: lim now)
  case Nil
  then show ?case by (simp add: limiter_run_def limiter_ok_later next_free_mono)
next
  case (Cons e es)
  have e: "now \<le> event_time e" "event_fits lim e" "event_time e \<le> end_time" using Cons.prems(3) by simp_all
  obtain lim' r where s: "limiter_step e lim = (lim', r)" "limiter_ok lim' (event_time e)" "tau lim' = tau lim" "token_time lim' = token_time lim"
    "next_free lim' key (event_time e) = next_free lim key (event_time e) + unat (token_time lim) * event_grant key e r"
    by (rule limiter_step_ok [OF Cons.prems(1) e(1,2)])
  have run: "limiter_run (e # es) lim = limiter_run es lim'" by (simp add: limiter_run_def s(1))
  have rest: "\<forall>x \<in> set es. event_time e \<le> event_time x \<and> event_time x \<le> end_time \<and> event_fits lim' x"
    using Cons.prems(2,3) event_fits_cong [OF s(3,4)] by simp
  from Cons.IH [OF s(2) _ rest e(3)] Cons.prems(2)
  have IH: "limiter_ok (limiter_run es lim') end_time" "tau (limiter_run es lim') = tau lim" "token_time (limiter_run es lim') = token_time lim"
    "next_free lim' key (event_time e) + unat (token_time lim) * granted key es lim' \<le> next_free (limiter_run es lim') key end_time"
    using s(3,4) by simp_all
  have "granted key (e # es) lim = event_grant key e r + granted key es lim'" by (simp only: granted_Cons s(1) fst_conv snd_conv)
  then show ?case using IH s(5) next_free_mono [OF e(1), of lim key] unfolding run by (simp add: add_mult_distrib2)
qed

lemma from_quota_ok: "from_quota q = Ok lim \<Longrightarrow> limiter_ok lim now"
  by (auto simp: from_quota_def limiter_ok_def Let_def split: if_splits)

text \<open>
  C39. The rate limiter keeps its rate. In any history of requests of any peers and of prunings, the
  tokens one peer is granted within a window of the history cost at most the length of the window plus
  one full bucket: over a window of length \<open>W\<close> a peer gets at most \<open>(tau + W) / t\<close> tokens.
\<close>

theorem limiter_rate_bound:
  assumes "from_quota q = Ok lim" and "sorted (map event_time (before @ window))" and "window \<noteq> []"
    and "\<forall>e \<in> set (before @ window). event_fits lim e"
  shows "unat (token_time lim) * granted key window (limiter_run before lim)
    \<le> unat (tau lim) + (event_time (last window) - event_time (hd window))"
proof -
  let ?a = "event_time (hd window)" and ?b = "event_time (last window)" and ?lim = "limiter_run before lim"
  have sorted: "sorted (map event_time before)" "sorted (map event_time window)"
    and le: "\<And>e. e \<in> set before \<Longrightarrow> event_time e \<le> ?a"
    using assms(2,3) by (auto simp: sorted_append)
  have ab: "?a \<le> event_time e \<and> event_time e \<le> ?b" if m: "e \<in> set window" for e
  proof -
    obtain i where i: "i < length window" "e = window ! i" using m by (auto simp: in_set_conv_nth)
    show ?thesis using sorted_nth_mono [OF sorted(2), of 0 i] sorted_nth_mono [OF sorted(2), of i "length window - 1"] i assms(3)
      by (simp add: hd_conv_nth last_conv_nth)
  qed
  have "\<forall>e \<in> set before. 0 \<le> event_time e \<and> event_time e \<le> ?a \<and> event_fits lim e" using le assms(4) by simp
  from limiter_run_ok [OF from_quota_ok [OF assms(1)] sorted(1) this]
  have l: "limiter_ok ?lim ?a" "tau ?lim = tau lim" "token_time ?lim = token_time lim" by simp_all
  have "\<forall>e \<in> set window. ?a \<le> event_time e \<and> event_time e \<le> ?b \<and> event_fits ?lim e"
    using ab assms(4) event_fits_cong [OF l(2,3)] by simp
  from limiter_run_ok [OF l(1) sorted(2) this] ab [of "last window"] assms(3)
  have w: "limiter_ok (limiter_run window ?lim) ?b" "tau (limiter_run window ?lim) = tau lim"
    "next_free ?lim key ?a + unat (token_time lim) * granted key window ?lim \<le> next_free (limiter_run window ?lim) key ?b"
    using l by simp_all
  show ?thesis using next_free_ok [OF w(1), of key] w(2,3) next_free_ge [of ?a ?lim key] by simp
qed

theorem limiter_rate_bound_witness:
  "from_quota \<lparr>replenish_all_every = 10, max_tokens = 2\<rparr> = Ok (\<lparr>tau = 10, token_time = 5, tat_per_key = []\<rparr> :: nat limiter) \<and>
   5 * granted (1::nat) [Request 3 1 1, Request 4 2 1, Request 4 1 1, Prune 5, Request 9 1 1]
     (limiter_run [Request 0 1 2] \<lparr>tau = 10, token_time = 5, tat_per_key = []\<rparr>) \<le> 10 + (9 - 3 :: nat)"
proof -
  let ?lim = "\<lparr>tau = 10, token_time = 5, tat_per_key = []\<rparr> :: nat limiter"
  have q: "from_quota \<lparr>replenish_all_every = 10, max_tokens = 2\<rparr> = Ok ?lim" by (simp add: from_quota_def)
  have h: "sorted (map event_time ([Request 0 1 2] @ [Request 3 1 1, Request 4 2 1, Request 4 1 1, Prune 5, Request 9 1 1]))"
    "[Request 3 1 1, Request 4 2 1, Request 4 1 1, Prune 5, Request 9 1 1] \<noteq> []"
    "\<forall>e \<in> set ([Request 0 1 2] @ [Request 3 1 1, Request 4 2 1, Request 4 1 1, Prune 5, Request 9 1 1]). event_fits ?lim e"
    by simp_all
  show ?thesis
    using q limiter_rate_bound [OF q h, of 1] by (simp del: granted.simps)
qed

subsection \<open>Waiting\<close>

fun by_other :: "'k \<Rightarrow> 'k event \<Rightarrow> bool" where
  "by_other key (Request _ k _) \<longleftrightarrow> k \<noteq> key"
| "by_other key (Prune _) \<longleftrightarrow> True"

lemma next_free_later: "now \<le> later \<Longrightarrow> next_free lim key later = max (next_free lim key now) later"
  by (simp add: next_free_def max_def split: option.splits)

text \<open>Events of other peers, and prunings, leave a peer's next free time as it is.\<close>

lemma next_free_others:
  "limiter_ok lim now \<Longrightarrow> sorted (map event_time es) \<Longrightarrow> \<forall>e \<in> set es. now \<le> event_time e \<and> event_time e \<le> end_time \<and> event_fits lim e \<Longrightarrow>
     now \<le> end_time \<Longrightarrow> \<forall>e \<in> set es. by_other key e \<Longrightarrow>
     next_free (limiter_run es lim) key end_time = next_free lim key end_time"
proof (induction es arbitrary: lim now)
  case (Cons e es)
  have e: "now \<le> event_time e" "event_fits lim e" "event_time e \<le> end_time" using Cons.prems(3) by simp_all
  obtain lim' r where s: "limiter_step e lim = (lim', r)" "limiter_ok lim' (event_time e)" "tau lim' = tau lim" "token_time lim' = token_time lim"
    "next_free lim' key (event_time e) = next_free lim key (event_time e) + unat (token_time lim) * event_grant key e r"
    by (rule limiter_step_ok [OF Cons.prems(1) e(1,2)])
  have g: "event_grant key e r = 0" using Cons.prems(5) by (cases e) simp_all
  have rest: "\<forall>x \<in> set es. event_time e \<le> event_time x \<and> event_time x \<le> end_time \<and> event_fits lim' x"
    using Cons.prems(2,3) event_fits_cong [OF s(3,4)] by simp
  have "next_free (limiter_run es lim') key end_time = next_free lim' key end_time"
    using Cons.IH [OF s(2) _ rest e(3)] Cons.prems(2,5) by simp
  then show ?case using s(1,5) g by (simp add: limiter_run_def next_free_later [OF e(3)])
qed (simp add: limiter_run_def)

text \<open>
  C40. A request that is too soon is told how long to wait, and waiting that long is enough: whatever
  other peers ask in the meantime, and whether or not the limiter is pruned, the same request is
  accepted at that time.
\<close>

theorem limiter_wait_enough:
  assumes "from_quota q = Ok lim" and "sorted (map event_time (before @ [Request now key tokens]))"
    and "\<forall>e \<in> set (before @ [Request now key tokens] @ between @ [Request (now + wait) key tokens]). event_fits lim e"
    and "limiter_allows (limiter_run before lim) now key tokens = (lim1, Inl (TooSoon wait))"
    and "sorted (map event_time between)"
    and "\<forall>e \<in> set between. now \<le> event_time e \<and> event_time e \<le> now + wait \<and> by_other key e"
  shows "snd (limiter_allows (limiter_run between lim1) (now + wait) key tokens) = Inr ()"
proof -
  let ?l = "limiter_run before lim"
  have "sorted (map event_time before)" "\<forall>e \<in> set before. 0 \<le> event_time e \<and> event_time e \<le> now \<and> event_fits lim e"
    using assms(2,3) by (auto simp: sorted_append)
  from limiter_run_ok [OF from_quota_ok [OF assms(1)] this]
  have l: "limiter_ok ?l now" "tau ?l = tau lim" "token_time ?l = token_time lim" by simp_all
  let ?cost = "unat (token_time lim) * unat tokens" and ?T = "unat (tau lim)" and ?free = "next_free ?l key now"
  have fits: "event_fits ?l (Request now key tokens)" using assms(3) event_fits_cong [OF l(2,3)] by simp
  note A = limiter_allows_nat [OF l(1) fits, unfolded l(2,3)]
  have "\<not> ?T < ?cost" using A(1) assms(4) by fastforce
  moreover have "\<not> ?free + ?cost \<le> now + ?T" if "?cost \<le> ?T" using A(3) [OF that] assms(4) by fastforce
  ultimately have c: "?cost \<le> ?T" "now + ?T < ?free + ?cost" by linarith+
  from A(2) [OF c] assms(4) obtain m where m: "lim1 = ?l\<lparr>tat_per_key := m\<rparr>" "wait = ?free + ?cost - ?T - now"
    "hm_wf m" "map_of m = map_of (tat_per_key ?l)" by auto
  have l1: "limiter_ok lim1 now" "tau lim1 = tau lim" "token_time lim1 = token_time lim" "next_free lim1 key = next_free ?l key"
    using l m by (simp_all add: limiter_ok_def next_free_def fun_eq_iff)
  let ?t = "now + wait" and ?l2 = "limiter_run between lim1"
  have btw: "\<forall>e \<in> set between. now \<le> event_time e \<and> event_time e \<le> ?t \<and> event_fits lim1 e"
    using assms(3,6) event_fits_cong [OF l1(2,3)] by simp
  have l2: "limiter_ok ?l2 ?t" "tau ?l2 = tau lim" "token_time ?l2 = token_time lim"
    using limiter_run_ok [OF l1(1) assms(5) btw] l1 by simp_all
  have f2: "next_free ?l2 key ?t = max ?free ?t"
    using next_free_others [OF l1(1) assms(5) btw] assms(6) l1(4) next_free_later [of now ?t ?l key] by simp
  have fits2: "event_fits ?l2 (Request ?t key tokens)" using assms(3) event_fits_cong [OF l2(2,3)] by simp
  have "max ?free ?t + ?cost \<le> ?t + ?T" using c m(2) by linarith
  then show ?thesis using limiter_allows_nat(3) [OF l2(1) fits2, unfolded l2(2,3) f2, OF c(1)] by auto
qed

theorem limiter_wait_enough_witness:
  "snd (limiter_allows (limiter_run [Request 4 2 1, Prune 5] (fst (limiter_allows
      (limiter_run [Request 0 (1::nat) 2] \<lparr>tau = 10, token_time = 5, tat_per_key = []\<rparr>) 3 1 1))) (3 + 2) 1 1) = Inr ()"
proof -
  let ?lim = "\<lparr>tau = 10, token_time = 5, tat_per_key = []\<rparr> :: nat limiter"
  let ?l = "limiter_allows (limiter_run [Request 0 1 2] ?lim) 3 1 1"
  have q: "from_quota \<lparr>replenish_all_every = 10, max_tokens = 2\<rparr> = Ok ?lim" by (simp add: from_quota_def)
  have "snd ?l = Inl (TooSoon 2)" by (simp add: limiter_run_def limiter_allows_def saturating_sub_def Let_def max_def)
  then have l: "?l = (fst ?l, Inl (TooSoon 2))" by (rule prod_eqI [OF fst_conv [symmetric], unfolded snd_conv])
  have h: "sorted (map event_time ([Request 0 1 2] @ [Request 3 (1::nat) 1]))"
    "\<forall>e \<in> set ([Request 0 1 2] @ [Request 3 1 1] @ [Request 4 2 1, Prune 5] @ [Request (3 + 2) 1 1]). event_fits ?lim e"
    "sorted (map event_time [Request 4 (2::nat) 1, Prune 5])"
    "\<forall>e \<in> set [Request 4 2 1, Prune 5]. 3 \<le> event_time e \<and> event_time e \<le> 3 + 2 \<and> by_other (1::nat) e"
    by simp_all
  show ?thesis by (rule limiter_wait_enough [OF q h(1,2) l h(3,4)])
qed

end
