(* ===== verification/Spec2Isabelle.thy ===== *)
theory Spec2Isabelle
  imports Append_Merkle_Correct Load_Chunk_Correct Shared_Types_Correct Flow_Store_Correct Log_Manager_Correct
    Chunk_Pool_Correct Rate_Limiter_Correct
begin

text \<open>
  A verification of the Ionian storage node.
\<close>

end
